(* ===== verification/Prelude.thy ===== *)
theory Prelude
  imports Main "HOL-Library.Word" "HOL-Library.Monad_Syntax"
begin

text \<open>
  Shared ground of the JarvisOS development: names for the machine types the kernel uses,
  the byte-addressed memory with its little-endian 32-bit loads and stores, and the generic
  lemmas on words, lists and memory that the component theories rest on.

  \<^item> \<open>u8\<close>, \<open>u16\<close>, \<open>u32\<close> are \<^verbatim>\<open>uint8_t\<close>, \<^verbatim>\<open>uint16_t\<close>, \<^verbatim>\<open>uint32_t\<close>; arithmetic on
    them wraps as in C.
  \<^item> \<open>mem\<close> is the memory as the kernel addresses it, one byte per 32-bit address. A C
    dereference of a \<^verbatim>\<open>uint32_t*\<close> at address \<open>a\<close> is \<open>ld32 m a\<close>, an assignment through it
    \<open>st32 m a w\<close>; both touch the four bytes \<open>a\<close> .. \<open>a + 3\<close>, in x86 byte order.
  \<^item> The collection \<open>mem_simps\<close> holds the rewrite rules for loads after stores.
\<close>

unbundle bit_operations_syntax

type_synonym u8 = "8 word"
type_synonym u16 = "16 word"
type_synonym u32 = "32 word"
type_synonym u64 = "64 word"
type_synonym mem = "u32 \<Rightarrow> u8"

named_theorems mem_simps \<open>loads after stores and after memset\<close>

section \<open>Loads and stores\<close>

definition ld32 :: "mem \<Rightarrow> u32 \<Rightarrow> u32" where
  "ld32 m a = ucast (m a) OR push_bit 8 (ucast (m (a + 1)))
     OR push_bit 16 (ucast (m (a + 2))) OR push_bit 24 (ucast (m (a + 3)))"

definition st32 :: "mem \<Rightarrow> u32 \<Rightarrow> u32 \<Rightarrow> mem" where
  "st32 m a w = m(a := ucast w, a + 1 := ucast (drop_bit 8 w),
     a + 2 := ucast (drop_bit 16 w), a + 3 := ucast (drop_bit 24 w))"

lemma join_bytes:
  "(ucast (ucast w :: u8) :: u32) OR push_bit 8 (ucast (ucast (drop_bit 8 w) :: u8))
     OR push_bit 16 (ucast (ucast (drop_bit 16 w) :: u8))
     OR push_bit 24 (ucast (ucast (drop_bit 24 w) :: u8)) = w" (is "?l = w")
proof (rule bit_word_eqI)
  fix n :: nat
  assume "n < LENGTH(32)"
  then consider "n < 8" | "8 \<le> n" "n < 16" | "16 \<le> n" "n < 24" | "24 \<le> n" "n < 32"
    by fastforce
  then show "bit ?l n = bit w n"
    by cases (auto simp: bit_simps)
qed

lemma ld32_st32_same [simp, mem_simps]: "ld32 (st32 m a w) a = w"
  using join_bytes [of w] by (simp add: ld32_def st32_def)

text \<open>Small naturals as words.\<close>

lemma unat_u32_less: "unat (w :: u32) < 2 ^ 32"
  using unsigned_less [of w] by simp

lemma unat_of_nat_small: "n < 2 ^ 32 \<Longrightarrow> unat (word_of_nat n :: u32) = n"
  by (simp add: unat_of_nat)

lemma unat_of_nat_below: "n < unat (w :: u32) \<Longrightarrow> unat (word_of_nat n :: u32) = n"
  using unat_u32_less [of w] by (intro unat_of_nat_small) simp

lemma of_nat_below: "n < unat w \<Longrightarrow> word_of_nat n < (w :: u32)"
  by (simp add: word_less_nat_alt unat_of_nat_below)

text \<open>Sets of numbers swept by a counting loop.\<close>

lemma interval_shrink: "A = B - {..<n :: nat} \<Longrightarrow> A - {n} = B - {..<Suc n}"
  by auto

lemma interval_grow:
  fixes s n t :: nat
  shows "(if s + n < t then insert (s + n) (A \<union> {f. s \<le> f \<and> f < s + n \<and> f < t})
     else A \<union> {f. s \<le> f \<and> f < s + n \<and> f < t}) =
   A \<union> {f. s \<le> f \<and> f < s + Suc n \<and> f < t}"
  by (auto simp: less_Suc_eq)

lemma interval_from: "{f. f < b \<and> f < b \<and> a < f} = {Suc a..<b :: nat}"
  by auto

lemma interval_tail: "a < b \<Longrightarrow> {a..<b :: nat} - {a} = {Suc a..<b}"
  by auto

lemma Min_interval: "a < b \<Longrightarrow> Min {a..<b :: nat} = a"
  by (intro Min_eqI) auto

text \<open>Offsets inside a 32-bit access that does not run off the end of the address space.\<close>

lemma unat_add_small:
  "unat (a :: u32) + n < 2 ^ 32 \<Longrightarrow> unat (a + of_nat n) = unat a + n"
  by (simp add: unat_word_ariths unat_of_nat)

lemma unat_add_num [simp]:
  "unat (a :: u32) + numeral k < 2 ^ 32 \<Longrightarrow> unat (a + numeral k) = unat a + numeral k"
  using unat_add_small [of a "numeral k"] by simp

lemma unat_add_one [simp]:
  "unat (a :: u32) + 1 < 2 ^ 32 \<Longrightarrow> unat (a + 1) = unat a + 1"
  using unat_add_small [of a 1] by simp

lemma st32_outside [mem_simps]:
  assumes "unat a + 3 < 2 ^ 32" and "unat b < unat a \<or> unat a + 4 \<le> unat b"
  shows "st32 m a w b = m b"
proof -
  have "b \<noteq> a" "b \<noteq> a + 1" "b \<noteq> a + 2" "b \<noteq> a + 3"
    using assms by auto
  then show ?thesis
    by (simp add: st32_def)
qed

lemma ld32_cong:
  assumes "unat a + 3 < 2 ^ 32"
    and "\<And>b. unat a \<le> unat b \<Longrightarrow> unat b < unat a + 4 \<Longrightarrow> m b = m' b"
  shows "ld32 m a = ld32 m' a"
proof -
  have "m a = m' a" "m (a + 1) = m' (a + 1)" "m (a + 2) = m' (a + 2)" "m (a + 3) = m' (a + 3)"
    using assms by auto
  then show ?thesis
    by (simp add: ld32_def)
qed

lemma ld32_st32_sep [mem_simps]:
  assumes "unat a + 3 < 2 ^ 32" and "unat b + 3 < 2 ^ 32"
    and "unat b + 4 \<le> unat a \<or> unat a + 4 \<le> unat b"
  shows "ld32 (st32 m a w) b = ld32 m b"
  using assms by (intro ld32_cong st32_outside) auto

end
