(* ===== verification/Util.thy ===== *)
theory Util
  imports Prelude
begin

text \<open>
  \<^verbatim>\<open>util.c\<close>: the string and memory helpers of the kernel. A \<^verbatim>\<open>const char*\<close> is the list of the
  characters from the pointer on; the end of the list stands for the terminating NUL, and an
  explicit NUL inside the list ends the string as it does in C (\<open>chr0\<close> reads \<^verbatim>\<open>*s\<close>). A C
  \<^verbatim>\<open>int\<close> is kept as its 32 bits and read with \<open>sint\<close>: the kernel is built with plain
  \<^verbatim>\<open>gcc -m32 -ffreestanding\<close>, without optimisation, where signed arithmetic wraps.

  The lemmas show that each helper computes its library meaning: \<open>strcmp\<close> decides equality,
  \<open>strlen\<close> is the length, \<open>starts_with\<close> is the prefix test, \<open>memset\<close> fills exactly its range.
  The numeral parsers are related to the printers of \<^verbatim>\<open>vga.c\<close> in the theory \<open>Vga\<close>.
\<close>

abbreviation NUL :: char where
  "NUL \<equiv> CHR 0x00"

definition chr0 :: "string \<Rightarrow> char" where
  "chr0 s = (case s of [] \<Rightarrow> NUL | c # _ \<Rightarrow> c)"

lemma chr0_simps [simp]: "chr0 [] = NUL" "chr0 (c # s) = c"
  by (simp_all add: chr0_def)

text \<open>A plain \<^verbatim>\<open>char\<close> is signed on x86, an \<^verbatim>\<open>unsigned char\<close> is not.\<close>

definition schar :: "char \<Rightarrow> int" where
  "schar c = (let n = of_char c in if n < 128 then n else n - 256)"

definition uchar :: "char \<Rightarrow> int" where
  "uchar c = of_char c"

section \<open>Strings\<close>

fun strcmp :: "string \<Rightarrow> string \<Rightarrow> int" where
  "strcmp [] b = uchar NUL - uchar (chr0 b)"
| "strcmp (c # a) b =
     (if c \<noteq> NUL \<and> c = chr0 b then strcmp a (tl b) else uchar c - uchar (chr0 b))"

fun strlen :: "string \<Rightarrow> nat" where
  "strlen [] = 0"
| "strlen (c # s) = (if c = NUL then 0 else Suc (strlen s))"

fun starts_with :: "string \<Rightarrow> string \<Rightarrow> bool" where
  "starts_with str [] = True"
| "starts_with str (p # prefix) =
     (if p = NUL then True else if chr0 str \<noteq> p then False else starts_with (tl str) prefix)"

section \<open>Numerals\<close>

definition is_digit :: "char \<Rightarrow> bool" where
  "is_digit c \<longleftrightarrow> schar CHR ''0'' \<le> schar c \<and> schar c \<le> schar CHR ''9''"

fun atoi_loop :: "string \<Rightarrow> u32 \<Rightarrow> u32" where
  "atoi_loop [] n = n"
| "atoi_loop (c # s) n =
     (if is_digit c then atoi_loop s (n * 10 + word_of_int (schar c - schar CHR ''0'')) else n)"

definition atoi :: "string \<Rightarrow> u32" where
  "atoi s =
     (if chr0 s = CHR ''-'' then atoi_loop (tl s) 0 * (- 1) else atoi_loop s 0 * 1)"

definition hex_digit :: "char \<Rightarrow> u32 option" where
  "hex_digit c =
     (if schar CHR ''0'' \<le> schar c \<and> schar c \<le> schar CHR ''9''
      then Some (word_of_int (schar c - schar CHR ''0''))
      else if schar CHR ''a'' \<le> schar c \<and> schar c \<le> schar CHR ''f''
      then Some (word_of_int (schar c - schar CHR ''a'' + 10))
      else if schar CHR ''A'' \<le> schar c \<and> schar c \<le> schar CHR ''F''
      then Some (word_of_int (schar c - schar CHR ''A'' + 10))
      else None)"

fun atoi_hex_loop :: "string \<Rightarrow> u32 \<Rightarrow> u32" where
  "atoi_hex_loop [] n = n"
| "atoi_hex_loop (c # s) n =
     (if c = NUL then n
      else case hex_digit c of None \<Rightarrow> n | Some d \<Rightarrow> atoi_hex_loop s (n * 16 + d))"

fun skip_spaces :: "string \<Rightarrow> string" where
  "skip_spaces [] = []"
| "skip_spaces (c # s) = (if c = CHR '' '' then skip_spaces s else c # s)"

definition atoi_hex :: "string \<Rightarrow> u32" where
  "atoi_hex s =
     (let s = skip_spaces s;
          s = (if chr0 s = CHR ''0'' \<and> (chr0 (tl s) = CHR ''x'' \<or> chr0 (tl s) = CHR ''X'')
               then drop 2 s else s)
      in atoi_hex_loop s 0)"

section \<open>memset\<close>

fun memset :: "mem \<Rightarrow> u32 \<Rightarrow> u8 \<Rightarrow> nat \<Rightarrow> mem" where
  "memset m p val 0 = m"
| "memset m p val (Suc count) = memset (m(p := val)) (p + 1) val count"

section \<open>What the helpers compute\<close>

lemma uchar_inj: "uchar c = uchar d \<longleftrightarrow> c = d"
  by (simp add: uchar_def)

lemma uchar_NUL [simp]: "uchar NUL = 0"
  by (simp add: uchar_def)

lemma uchar_0 [simp]: "uchar c = 0 \<longleftrightarrow> c = NUL"
  using uchar_inj [of c NUL] by simp

lemma strcmp_eq_0:
  "NUL \<notin> set a \<Longrightarrow> NUL \<notin> set b \<Longrightarrow> strcmp a b = 0 \<longleftrightarrow> a = b"
proof (induction a arbitrary: b)
  case Nil
  then show ?case by (cases b) auto
next
  case (Cons c a)
  then show ?case by (cases b) (auto simp: uchar_inj)
qed

lemma strlen_length: "NUL \<notin> set s \<Longrightarrow> strlen s = length s"
  by (induction s) auto

lemma starts_with_prefix:
  "NUL \<notin> set str \<Longrightarrow> NUL \<notin> set prefix \<Longrightarrow> starts_with str prefix \<longleftrightarrow> (\<exists>rest. str = prefix @ rest)"
proof (induction prefix arbitrary: str)
  case (Cons p prefix)
  then show ?case
    by (cases str) auto
qed simp

lemma memset_outside:
  assumes "unat p + n \<le> 2 ^ 32" and "unat b < unat p \<or> unat p + n \<le> unat b"
  shows "memset m p v n b = m b"
  using assms
proof (induction n arbitrary: m p)
  case (Suc n)
  show ?case
  proof (cases n)
    case 0
    with Suc.prems show ?thesis by auto
  next
    case (Suc k)
    with Suc.prems(1) have "unat (p + 1) = unat p + 1" by simp
    moreover have "b \<noteq> p"
      using Suc.prems(2) by auto
    ultimately show ?thesis
      using Suc.IH [of "p + 1" "m(p := v)"] Suc.prems by (auto simp: fun_upd_def)
  qed
qed simp

lemma memset_inside:
  assumes "unat p + n \<le> 2 ^ 32" and "unat p \<le> unat b" and "unat b < unat p + n"
  shows "memset m p v n b = v"
  using assms
proof (induction n arbitrary: m p)
  case (Suc n)
  show ?case
  proof (cases n)
    case 0
    with Suc.prems have "unat b = unat p" by simp
    then have "b = p" by (simp only: word_unat_eq_iff)
    with 0 show ?thesis by simp
  next
    case (Suc k)
    with Suc.prems(1) have p1: "unat (p + 1) = unat p + 1" by simp
    show ?thesis
    proof (cases "b = p")
      case True
      then show ?thesis
        using memset_outside [of "p + 1" n b "m(p := v)" v] p1 Suc.prems by simp
    next
      case False
      then have "unat p < unat b"
        using Suc.prems(2) by (metis le_neq_implies_less word_unat_eq_iff)
      then show ?thesis
        using Suc.IH [of "p + 1" "m(p := v)"] p1 Suc.prems by (simp add: fun_upd_def)
    qed
  qed
qed simp

lemma ld32_memset_zero [mem_simps]:
  assumes "unat p + n \<le> 2 ^ 32" and "unat p \<le> unat a" and "unat a + 4 \<le> unat p + n"
  shows "ld32 (memset m p 0 n) a = 0"
proof -
  have "ld32 (memset m p 0 n) a = ld32 (\<lambda>_. 0) a"
    using assms by (intro ld32_cong) (auto simp: memset_inside)
  then show ?thesis
    by (simp add: ld32_def)
qed

lemma ld32_memset_sep [mem_simps]:
  assumes "unat p + n \<le> 2 ^ 32" and "unat a + 3 < 2 ^ 32"
    and "unat a + 4 \<le> unat p \<or> unat p + n \<le> unat a"
  shows "ld32 (memset m p v n) a = ld32 m a"
  using assms by (intro ld32_cong memset_outside) auto

end
