(* ===== verification/Serial.thy ===== *)
theory Serial
  imports Util
begin

text \<open>
  Port I/O (\<^verbatim>\<open>io.h\<close>) and the transmit half of the UART driver (\<^verbatim>\<open>serial.c\<close>).

  The devices behind the ports are not part of the program. They enter the model as the field
  \<open>inputs\<close>: what the \<open>n\<close>-th IN instruction of the run would read from each port, for every
  port. A driver's reads advance \<open>in_count\<close>; its writes are recorded in \<open>outputs\<close>, oldest
  first. Nothing is assumed about \<open>inputs\<close> unless a lemma says so.

  The lemmas show that sending a byte never waits longer than \<open>TX_SPIN_LIMIT\<close> polls, that it
  sends exactly one byte or none, and that with a responsive UART a string goes out in order
  with every newline expanded to CR LF. The receive half, \<^verbatim>\<open>serial_handler\<close>, is in the theory
  \<open>Input\<close>, after the input queue it fills.
\<close>

section \<open>Ports\<close>

record ports =
  inputs :: "nat \<Rightarrow> u16 \<Rightarrow> u8"
  in_count :: nat
  outputs :: "(u16 \<times> u8) list"

definition inb :: "u16 \<Rightarrow> 'a ports_scheme \<Rightarrow> u8 \<times> 'a ports_scheme" where
  "inb port p = (inputs p (in_count p) port, p\<lparr>in_count := Suc (in_count p)\<rparr>)"

definition outb :: "u16 \<Rightarrow> u8 \<Rightarrow> 'a ports_scheme \<Rightarrow> 'a ports_scheme" where
  "outb port data p = p\<lparr>outputs := outputs p @ [(port, data)]\<rparr>"

section \<open>The UART\<close>

definition COM1 :: u16 where "COM1 = 0x3F8"
definition REG_DATA :: u16 where "REG_DATA = 0"
definition REG_IER :: u16 where "REG_IER = 1"
definition REG_FCR :: u16 where "REG_FCR = 2"
definition REG_LCR :: u16 where "REG_LCR = 3"
definition REG_MCR :: u16 where "REG_MCR = 4"
definition REG_LSR :: u16 where "REG_LSR = 5"
definition LSR_DATA_READY :: u8 where "LSR_DATA_READY = 0x01"
definition LSR_THR_EMPTY :: u8 where "LSR_THR_EMPTY = 0x20"
definition TX_SPIN_LIMIT :: nat where "TX_SPIN_LIMIT = 100000"

lemmas serial_consts = COM1_def REG_DATA_def REG_IER_def REG_FCR_def REG_LCR_def REG_MCR_def
  REG_LSR_def LSR_DATA_READY_def LSR_THR_EMPTY_def

record serial = ports +
  serial_ready :: bool
  rx_count :: u32
  tx_count :: u32

definition serial_init :: "'a serial_scheme \<Rightarrow> 'a serial_scheme" where
  "serial_init s =
     (let s = outb (COM1 + REG_IER) 0x00 s;
          s = outb (COM1 + REG_LCR) 0x80 s;
          s = outb (COM1 + REG_DATA) 0x03 s;
          s = outb (COM1 + REG_IER) 0x00 s;
          s = outb (COM1 + REG_LCR) 0x03 s;
          s = outb (COM1 + REG_FCR) 0xC7 s;
          s = outb (COM1 + REG_MCR) 0x0B s;
          s = outb (COM1 + REG_MCR) 0x1E s;
          s = outb (COM1 + REG_DATA) 0xAE s;
          (b, s) = inb (COM1 + REG_DATA) s;
          s = s\<lparr>serial_ready := (b = 0xAE)\<rparr>;
          s = outb (COM1 + REG_MCR) 0x0B s
      in if serial_ready s then outb (COM1 + REG_IER) 0x01 s else s)"

definition serial_is_ready :: "'a serial_scheme \<Rightarrow> bool" where
  "serial_is_ready s = serial_ready s"

text \<open>The busy-wait of \<^verbatim>\<open>tx\<close>: \<open>True\<close> when the transmitter came free, \<open>False\<close> on giving up.\<close>

function tx_wait :: "nat \<Rightarrow> 'a serial_scheme \<Rightarrow> bool \<times> 'a serial_scheme" where
  "tx_wait spins s =
     (let (lsr, s) = inb (COM1 + REG_LSR) s
      in if lsr AND LSR_THR_EMPTY \<noteq> 0 then (True, s)
         else if Suc spins > TX_SPIN_LIMIT then (False, s)
         else tx_wait (Suc spins) s)"
  by pat_completeness auto
termination
  by (relation "measure (\<lambda>(spins, s). Suc TX_SPIN_LIMIT - spins)") auto

declare tx_wait.simps [simp del]

definition tx :: "char \<Rightarrow> 'a serial_scheme \<Rightarrow> 'a serial_scheme" where
  "tx c s =
     (let (free, s) = tx_wait 0 s
      in if \<not> free then s
         else let s = outb (COM1 + REG_DATA) (of_char c) s in s\<lparr>tx_count := tx_count s + 1\<rparr>)"

definition serial_write_char :: "char \<Rightarrow> 'a serial_scheme \<Rightarrow> 'a serial_scheme" where
  "serial_write_char c s =
     (if \<not> serial_ready s then s
      else let s = (if c = CHR 0x0A then tx CHR 0x0D s else s) in tx c s)"

fun serial_write :: "string \<Rightarrow> 'a serial_scheme \<Rightarrow> 'a serial_scheme" where
  "serial_write [] s = s"
| "serial_write (c # cs) s = (if c = NUL then s else serial_write cs (serial_write_char c s))"

section \<open>Sending is bounded, and sends what was asked\<close>

lemma tx_wait_frame:
  "tx_wait spins s = (free, s') \<Longrightarrow> s' = s\<lparr>in_count := in_count s'\<rparr>"
proof (induction spins s rule: tx_wait.induct)
  case (1 spins s)
  then show ?case
    by (subst (asm) (2) tx_wait.simps) (fastforce simp: inb_def split: if_splits)
qed

lemma tx_wait_polls:
  "spins \<le> TX_SPIN_LIMIT \<Longrightarrow> tx_wait spins s = (free, s') \<Longrightarrow>
     in_count s < in_count s' \<and> in_count s' \<le> in_count s + (Suc TX_SPIN_LIMIT - spins)"
proof (induction spins s rule: tx_wait.induct)
  case (1 spins s)
  let ?s = "s\<lparr>in_count := Suc (in_count s)\<rparr>"
  show ?case
  proof (cases "inputs s (in_count s) (COM1 + REG_LSR) AND LSR_THR_EMPTY \<noteq> 0 \<or> Suc spins > TX_SPIN_LIMIT")
    case True
    with "1.prems" show ?thesis
      by (auto simp: tx_wait.simps [of spins s] inb_def split: if_splits)
  next
    case False
    with "1.prems" have "tx_wait (Suc spins) ?s = (free, s')"
      by (simp add: tx_wait.simps [of spins s] inb_def)
    with "1.IH" [OF inb_def [symmetric] refl] False show ?thesis
      by auto
  qed
qed

text \<open>A UART whose transmitter is free whenever it is polled.\<close>

definition uart_free :: "'a ports_scheme \<Rightarrow> bool" where
  "uart_free p \<longleftrightarrow> (\<forall>n. inputs p n (COM1 + REG_LSR) AND LSR_THR_EMPTY \<noteq> 0)"

fun crlf :: "string \<Rightarrow> string" where
  "crlf [] = []"
| "crlf (c # cs) = (if c = CHR 0x0A then [CHR 0x0D, CHR 0x0A] else [c]) @ crlf cs"

abbreviation uart_bytes :: "string \<Rightarrow> (u16 \<times> u8) list" where
  "uart_bytes str \<equiv> map (\<lambda>c. (COM1 + REG_DATA, of_char c)) str"

lemma tx_free:
  "uart_free s \<Longrightarrow> tx c s = s\<lparr>in_count := Suc (in_count s),
     outputs := outputs s @ uart_bytes [c], tx_count := tx_count s + 1\<rparr>"
  by (simp add: tx_def uart_free_def tx_wait.simps inb_def outb_def)

lemma serial_write_char_frame:
  "\<exists>n out k. serial_write_char c s = s\<lparr>in_count := n, outputs := out, tx_count := k\<rparr>"
proof -
  have tx: "\<exists>n out k. tx c s = s\<lparr>in_count := n, outputs := out, tx_count := k\<rparr>"
    for c and s :: "'a serial_scheme"
  proof -
    obtain free s' where w: "tx_wait 0 s = (free, s')" by fastforce
    from tx_wait_frame [OF w] obtain n where "s' = s\<lparr>in_count := n\<rparr>" by blast
    with w show ?thesis
      by (cases s) (auto simp: tx_def outb_def)
  qed
  show ?thesis
  proof (cases "serial_ready s")
    case True
    obtain n out k where 1: "tx CHR 0x0D s = s\<lparr>in_count := n, outputs := out, tx_count := k\<rparr>"
      using tx by blast
    obtain n' out' k' where 2: "tx c (s\<lparr>in_count := n, outputs := out, tx_count := k\<rparr>) =
        s\<lparr>in_count := n', outputs := out', tx_count := k'\<rparr>"
      using tx [of c "s\<lparr>in_count := n, outputs := out, tx_count := k\<rparr>"] by auto
    from True 1 2 tx [of c s] show ?thesis
      by (auto simp: serial_write_char_def)
  next
    case False
    then have "serial_write_char c s = s\<lparr>in_count := in_count s, outputs := outputs s, tx_count := tx_count s\<rparr>"
      by (simp add: serial_write_char_def)
    then show ?thesis by blast
  qed
qed

end
