(* ===== verification/Vga.thy ===== *)
theory Vga
  imports Serial
begin

text \<open>
  The text console (\<^verbatim>\<open>vga.c\<close>). The 80x25 cell buffer at \<^verbatim>\<open>0xB8000\<close> is the list \<open>vga\<close> of 2000
  cells; the cursor and the colour are the driver's static variables. Every character written
  is mirrored to COM1 first, so the console state extends the UART state.

  A cell is read and written with \<open>vga_get\<close> and \<open>vga_put\<close>; an access beyond the 2000 cells would
  touch foreign memory, and \<open>stray\<close> records every one. The cursor is a \<^verbatim>\<open>size_t\<close>, so its increments,
  its decrement and the index computed from it wrap at 32 bits.

  \<open>vga_inv\<close> says that the buffer has its 2000 cells, the cursor is on the screen and no access has
  left the buffer; every operation keeps it. \<open>print_int\<close> and \<open>print_hex\<close> are shown to
  print the strings \<open>dec_string\<close> and \<open>hex_string\<close>, which the parsers of \<^verbatim>\<open>util.c\<close> read back.
  The record \<open>machine\<close> at the end pairs the console with the memory; it is the bottom layer of
  the kernel state, and \<open>kprint\<close> and its kin print on the console of any layer.
\<close>

definition VGA_WIDTH :: nat where "VGA_WIDTH = 80"
definition VGA_HEIGHT :: nat where "VGA_HEIGHT = 25"

lemmas vga_consts = VGA_WIDTH_def VGA_HEIGHT_def

record vga_state = serial +
  vga :: "u16 list"
  cursor_row :: nat
  cursor_col :: nat
  color :: u8
  stray :: "nat list"

definition vga_entry :: "char \<Rightarrow> u8 \<Rightarrow> u16" where
  "vga_entry c col = word_of_int (schar c) OR push_bit 8 (ucast col)"

text \<open>
  Accesses to the buffer. \<open>stray\<close> is no variable of the driver: it collects the indices of the
  accesses that fall outside the buffer.
\<close>

definition vga_put :: "nat \<Rightarrow> u16 \<Rightarrow> 'a vga_state_scheme \<Rightarrow> 'a vga_state_scheme" where
  "vga_put i w s =
     (if i < length (vga s) then s\<lparr>vga := (vga s)[i := w]\<rparr> else s\<lparr>stray := stray s @ [i]\<rparr>)"

definition vga_get :: "nat \<Rightarrow> 'a vga_state_scheme \<Rightarrow> u16 \<times> 'a vga_state_scheme" where
  "vga_get i s = (vga s ! i, if i < length (vga s) then s else s\<lparr>stray := stray s @ [i]\<rparr>)"

text \<open>Arithmetic on \<^verbatim>\<open>size_t\<close>, 32 bits wide.\<close>

definition size_inc :: "nat \<Rightarrow> nat" where
  "size_inc n = (n + 1) mod 2 ^ 32"

definition size_dec :: "nat \<Rightarrow> nat" where
  "size_dec n = (n + (2 ^ 32 - 1)) mod 2 ^ 32"

definition cell_at :: "nat \<Rightarrow> nat \<Rightarrow> nat" where
  "cell_at row col = (row * VGA_WIDTH + col) mod 2 ^ 32"

definition clear_screen :: "'a vga_state_scheme \<Rightarrow> 'a vga_state_scheme" where
  "clear_screen s =
     (let s = foldl (\<lambda>s i. vga_put i (vga_entry CHR '' '' (color s)) s) s [0..<VGA_WIDTH * VGA_HEIGHT]
      in s\<lparr>cursor_row := 0, cursor_col := 0\<rparr>)"

definition scroll :: "'a vga_state_scheme \<Rightarrow> 'a vga_state_scheme" where
  "scroll s =
     (let s = foldl (\<lambda>s i. let (w, s) = vga_get (i + VGA_WIDTH) s in vga_put i w s) s
                [0..<(VGA_HEIGHT - 1) * VGA_WIDTH];
          s = foldl (\<lambda>s x. vga_put ((VGA_HEIGHT - 1) * VGA_WIDTH + x) (vga_entry CHR '' '' (color s)) s) s
                [0..<VGA_WIDTH]
      in s\<lparr>cursor_row := VGA_HEIGHT - 1\<rparr>)"

definition putchar :: "char \<Rightarrow> 'a vga_state_scheme \<Rightarrow> 'a vga_state_scheme" where
  "putchar c s =
     (let s = serial_write_char c s;
          s = (if c = CHR 0x0A then s\<lparr>cursor_col := 0, cursor_row := size_inc (cursor_row s)\<rparr>
               else let s = vga_put (cell_at (cursor_row s) (cursor_col s)) (vga_entry c (color s)) s;
                        s = s\<lparr>cursor_col := size_inc (cursor_col s)\<rparr>
                    in if cursor_col s \<ge> VGA_WIDTH
                       then s\<lparr>cursor_col := 0, cursor_row := size_inc (cursor_row s)\<rparr> else s)
      in if cursor_row s \<ge> VGA_HEIGHT then scroll s else s)"

fun print :: "string \<Rightarrow> 'a vga_state_scheme \<Rightarrow> 'a vga_state_scheme" where
  "print [] s = s"
| "print (c # str) s = (if c = NUL then s else print str (putchar c s))"

text \<open>The digit loop of \<^verbatim>\<open>print_int\<close> fills \<^verbatim>\<open>buf\<close> from the least significant digit.\<close>

function dec_buf :: "int \<Rightarrow> string" where
  "dec_buf n = (if n > 0 then char_of (48 + n mod 10) # dec_buf (n div 10) else [])"
  by pat_completeness auto
termination
  by (relation "measure nat") auto

declare dec_buf.simps [simp del]

definition print_int :: "u32 \<Rightarrow> 'a vga_state_scheme \<Rightarrow> 'a vga_state_scheme" where
  "print_int n s =
     (if n = 0 then putchar CHR ''0'' s
      else let (n, s) = (if sint n < 0 then (- n, putchar CHR ''-'' s) else (n, s));
               buf = dec_buf (sint n)
           in foldl (\<lambda>s c. putchar c s) s (rev buf))"

definition hex_digits :: string where
  "hex_digits = ''0123456789ABCDEF''"

definition print_hex :: "u32 \<Rightarrow> 'a vga_state_scheme \<Rightarrow> 'a vga_state_scheme" where
  "print_hex n s =
     foldl (\<lambda>s i. putchar (hex_digits ! unat (drop_bit i n AND 0xF)) s) (print ''0x'' s)
       [28, 24, 20, 16, 12, 8, 4, 0]"

definition backspace :: "'a vga_state_scheme \<Rightarrow> 'a vga_state_scheme" where
  "backspace s =
     (let s = serial_write [CHR 0x08, CHR '' '', CHR 0x08] s
      in if cursor_col s = 0 then s
         else let s = s\<lparr>cursor_col := size_dec (cursor_col s)\<rparr>
              in vga_put (cell_at (cursor_row s) (cursor_col s)) (vga_entry CHR '' '' (color s)) s)"

section \<open>The machine: memory and console\<close>

record machine =
  mem :: mem
  con :: vga_state

definition kprint :: "string \<Rightarrow> 'a machine_scheme \<Rightarrow> 'a machine_scheme" where
  "kprint str s = s\<lparr>con := print str (con s)\<rparr>"

definition kprint_int :: "u32 \<Rightarrow> 'a machine_scheme \<Rightarrow> 'a machine_scheme" where
  "kprint_int n s = s\<lparr>con := print_int n (con s)\<rparr>"

definition kprint_hex :: "u32 \<Rightarrow> 'a machine_scheme \<Rightarrow> 'a machine_scheme" where
  "kprint_hex n s = s\<lparr>con := print_hex n (con s)\<rparr>"

lemmas kprint_defs = kprint_def kprint_int_def kprint_hex_def

section \<open>The cursor never leaves the screen\<close>

definition vga_inv :: "'a vga_state_scheme \<Rightarrow> bool" where
  "vga_inv s \<longleftrightarrow>
     length (vga s) = 2000 \<and> cursor_row s < VGA_HEIGHT \<and> cursor_col s < VGA_WIDTH \<and> stray s = []"

lemma vga_inv_stray: "vga_inv s \<Longrightarrow> stray s = []"
  by (simp add: vga_inv_def)

lemma size_arith:
  "n < 2000 \<Longrightarrow> size_inc n = Suc n"
  "0 < n \<Longrightarrow> n < 2000 \<Longrightarrow> size_dec n = n - 1"
  "r < 25 \<Longrightarrow> c < 80 \<Longrightarrow> cell_at r c = r * 80 + c"
proof -
  assume n: "0 < n" "n < 2000"
  then have "n + (2 ^ 32 - 1) = (n - 1) + 2 ^ 32" by simp
  then show "size_dec n = n - 1"
    using n unfolding size_dec_def by (simp only: mod_add_self2) simp
qed (simp_all add: size_inc_def cell_at_def vga_consts)

text \<open>Inside the buffer the loops are plain list updates and nothing is recorded.\<close>

lemma vga_put_in: "i < length (vga s) \<Longrightarrow> vga_put i w s = s\<lparr>vga := (vga s)[i := w]\<rparr>"
  by (simp add: vga_put_def)

lemma length_foldl_update [simp]: "length (foldl (\<lambda>v i. v[f v i := g v i]) xs is) = length xs"
  by (induction "is" arbitrary: xs) auto

lemma put_foldl:
  fixes s :: "'a vga_state_scheme"
  assumes "\<forall>x \<in> set xs. f x < length (vga s)"
  shows "foldl (\<lambda>s x. vga_put (f x) (vga_entry c (color s)) s) s xs =
    s\<lparr>vga := foldl (\<lambda>v x. v[f x := vga_entry c (color s)]) (vga s) xs\<rparr>"
  using assms by (induction xs arbitrary: s) (simp_all add: vga_put_in)

lemma copy_foldl:
  fixes s :: "'a vga_state_scheme"
  assumes "\<forall>i \<in> set xs. i + k < length (vga s)"
  shows "foldl (\<lambda>s i. case vga_get (i + k) s of (w, s) \<Rightarrow> vga_put i w s) s xs =
    s\<lparr>vga := foldl (\<lambda>v i. v[i := v ! (i + k)]) (vga s) xs\<rparr>"
  using assms by (induction xs arbitrary: s) (simp_all add: vga_get_def vga_put_in)

lemma serial_write_char_vga [simp]:
  fixes s :: "'a vga_state_scheme"
  shows "vga (serial_write_char c s) = vga s"
    and "cursor_row (serial_write_char c s) = cursor_row s"
    and "cursor_col (serial_write_char c s) = cursor_col s"
    and "color (serial_write_char c s) = color s"
    and "stray (serial_write_char c s) = stray s"
    and "serial_ready (serial_write_char c s) = serial_ready s"
    and "inputs (serial_write_char c s) = inputs s"
  using serial_write_char_frame [of c s] by auto

lemma serial_write_vga [simp]:
  fixes s :: "'a vga_state_scheme"
  shows "vga (serial_write str s) = vga s"
    and "cursor_row (serial_write str s) = cursor_row s"
    and "cursor_col (serial_write str s) = cursor_col s"
    and "color (serial_write str s) = color s"
    and "stray (serial_write str s) = stray s"
  by (induction str arbitrary: s) auto

text \<open>Scrolling moves every line up by one, clearing blanks every cell.\<close>

lemma shift_left_foldl:
  "k + n \<le> length v \<Longrightarrow>
     foldl (\<lambda>v i. v[i := v ! (i + k)]) v [0..<n] = take n (drop k v) @ drop n v"
proof (induction n)
  case (Suc n)
  then have IH: "foldl (\<lambda>v i. v[i := v ! (i + k)]) v [0..<n] = take n (drop k v) @ drop n v"
    by simp
  have "(take n (drop k v) @ drop n v) ! (n + k) = v ! (n + k)"
    using Suc.prems by (simp add: nth_append)
  moreover have "(take n (drop k v) @ drop n v)[n := x] = take n (drop k v) @ x # drop (Suc n) v" for x
    using Suc.prems by (simp add: list_update_append Cons_nth_drop_Suc [symmetric])
  moreover have "take (Suc n) (drop k v) = take n (drop k v) @ [v ! (n + k)]"
    using Suc.prems by (simp add: take_Suc_conv_app_nth add.commute)
  ultimately show ?case
    using IH by simp
qed simp

lemma fill_foldl:
  "b + n \<le> length v \<Longrightarrow>
     foldl (\<lambda>v x. v[b + x := e]) v [0..<n] = take b v @ replicate n e @ drop (b + n) v"
proof (induction n)
  case (Suc n)
  then show ?case
    by (simp add: list_update_append replicate_append_same [symmetric] Cons_nth_drop_Suc [symmetric])
qed simp

lemma scroll_eq:
  assumes "length (vga s) = 2000"
  shows "scroll s =
    s\<lparr>vga := drop 80 (vga s) @ replicate 80 (vga_entry CHR '' '' (color s)), cursor_row := 24\<rparr>"
proof -
  let ?t = "s\<lparr>vga := drop 80 (vga s) @ drop 1920 (vga s)\<rparr>"
  have "foldl (\<lambda>s i. case vga_get (i + 80) s of (w, s) \<Rightarrow> vga_put i w s) s [0..<1920] = ?t"
    using assms shift_left_foldl [of 80 1920 "vga s"] by (simp add: copy_foldl)
  moreover have "foldl (\<lambda>s x. vga_put (1920 + x) (vga_entry CHR '' '' (color s)) s) ?t [0..<80] =
      ?t\<lparr>vga := drop 80 (vga s) @ replicate 80 (vga_entry CHR '' '' (color s))\<rparr>"
    using assms by (subst put_foldl) (simp_all add: fill_foldl)
  ultimately show ?thesis
    by (simp add: scroll_def vga_consts Let_def)
qed

lemma clear_screen_eq:
  assumes "length (vga s) = 2000"
  shows "clear_screen s =
    s\<lparr>vga := replicate 2000 (vga_entry CHR '' '' (color s)), cursor_row := 0, cursor_col := 0\<rparr>"
  using assms fill_foldl [of 0 2000 "vga s"]
  unfolding clear_screen_def vga_consts by (simp add: put_foldl)

lemma vga_inv_putchar: "vga_inv s \<Longrightarrow> vga_inv (putchar c s)"
  by (auto simp: putchar_def Let_def vga_inv_def scroll_eq vga_put_in size_arith vga_consts)

lemma vga_inv_print: "vga_inv s \<Longrightarrow> vga_inv (print str s)"
  by (induction str arbitrary: s) (auto simp: vga_inv_putchar)

lemma vga_inv_foldl_putchar: "vga_inv s \<Longrightarrow> vga_inv (foldl (\<lambda>s x. putchar (f x) s) s xs)"
  by (induction xs arbitrary: s) (auto simp: vga_inv_putchar)

lemma vga_inv_print_int: "vga_inv s \<Longrightarrow> vga_inv (print_int n s)"
  by (auto simp: print_int_def vga_inv_putchar intro!: vga_inv_foldl_putchar [where f = "\<lambda>c. c"])

lemma vga_inv_print_hex: "vga_inv s \<Longrightarrow> vga_inv (print_hex n s)"
  unfolding print_hex_def by (intro vga_inv_foldl_putchar vga_inv_print)

lemma vga_inv_backspace: "vga_inv s \<Longrightarrow> vga_inv (backspace s)"
  by (auto simp: backspace_def Let_def vga_inv_def vga_put_in size_arith vga_consts)

lemma vga_inv_clear: "length (vga s) = 2000 \<Longrightarrow> stray s = [] \<Longrightarrow> vga_inv (clear_screen s)"
  by (simp add: vga_inv_def clear_screen_eq vga_consts)

section \<open>What the number printers print\<close>

definition dec_string :: "u32 \<Rightarrow> string" where
  "dec_string n =
     (if n = 0 then ''0''
      else if sint n < 0 then CHR ''-'' # rev (dec_buf (sint (- n))) else rev (dec_buf (sint n)))"

definition hex_string :: "u32 \<Rightarrow> string" where
  "hex_string n = ''0x'' @ map (\<lambda>i. hex_digits ! unat (drop_bit i n AND 0xF)) [28, 24, 20, 16, 12, 8, 4, 0]"

lemma print_append: "NUL \<notin> set a \<Longrightarrow> print (a @ b) s = print b (print a s)"
  by (induction a arbitrary: s) auto

lemma foldl_putchar: "NUL \<notin> set cs \<Longrightarrow> foldl (\<lambda>s c. putchar c s) s cs = print cs s"
  by (induction cs arbitrary: s) auto

lemma digit_char:
  assumes "0 \<le> d" "d < (10 :: int)"
  shows "is_digit (char_of (48 + d))" "schar (char_of (48 + d)) = 48 + d" "char_of (48 + d) \<noteq> NUL"
proof -
  have "d \<in> {0, 1, 2, 3, 4, 5, 6, 7, 8, 9}" using assms by simp presburger
  then show s: "schar (char_of (48 + d)) = 48 + d"
    by (auto simp: schar_def)
  then show "is_digit (char_of (48 + d))"
    using assms by (auto simp: is_digit_def schar_def)
  have "schar NUL = 0" by (simp add: schar_def)
  with s assms show "char_of (48 + d) \<noteq> NUL" by force
qed

lemma dec_buf_digits: "c \<in> set (dec_buf n) \<Longrightarrow> is_digit c \<and> c \<noteq> NUL"
proof (induction n rule: dec_buf.induct)
  case (1 n)
  then show ?case
    using digit_char [of "n mod 10"] by (subst (asm) (2) dec_buf.simps) (auto split: if_splits)
qed

lemma print_int_string:
  fixes s :: "'a vga_state_scheme"
  shows "print_int n s = print (dec_string n) s"
proof -
  have "foldl (\<lambda>s c. putchar c s) s (rev (dec_buf k)) = print (rev (dec_buf k)) s"
    for k and s :: "'a vga_state_scheme"
    by (rule foldl_putchar) (use dec_buf_digits in fastforce)
  then show ?thesis
    by (simp add: print_int_def dec_string_def)
qed

lemma print_hex_string: "print_hex n s = print (hex_string n) s"
proof -
  have nz: "hex_digits ! unat (w AND 0xF) \<noteq> NUL" for w :: u32
  proof -
    have "hex_digits ! unat (w AND 0xF) \<in> set hex_digits"
      using word_and_le1 [of w "0xF"] by (intro nth_mem) (simp add: hex_digits_def word_le_nat_alt)
    then show ?thesis by (auto simp: hex_digits_def)
  qed
  show ?thesis
    by (simp add: print_hex_def hex_string_def nz)
qed

text \<open>The buffer of \<^verbatim>\<open>print_int\<close> has twelve characters; ten digits are the most it holds.\<close>

lemma dec_buf_length: "n < 10 ^ k \<Longrightarrow> length (dec_buf n) \<le> k"
proof (induction k arbitrary: n)
  case 0
  then show ?case by (simp add: dec_buf.simps)
next
  case (Suc k)
  then have "n div 10 < 10 ^ k" by simp
  with Suc.IH have "length (dec_buf (n div 10)) \<le> k" by blast
  then show ?case by (subst dec_buf.simps) simp
qed

section \<open>Printing and parsing numbers\<close>

lemma atoi_loop_snoc:
  "\<forall>c \<in> set xs. is_digit c \<Longrightarrow> is_digit c \<Longrightarrow>
     atoi_loop (xs @ [c]) n = atoi_loop xs n * 10 + word_of_int (schar c - 48)"
  by (induction xs arbitrary: n) (auto simp: schar_def [of "CHR ''0''"])

lemma atoi_loop_dec_buf: "0 \<le> n \<Longrightarrow> atoi_loop (rev (dec_buf n)) 0 = word_of_int n"
proof (induction n rule: dec_buf.induct)
  case (1 n)
  show ?case
  proof (cases "n > 0")
    case True
    have "atoi_loop (rev (dec_buf n)) 0 = atoi_loop (rev (dec_buf (n div 10)) @ [char_of (48 + n mod 10)]) 0"
      using True by (subst dec_buf.simps) simp
    also have "\<dots> = atoi_loop (rev (dec_buf (n div 10))) 0 * 10 + word_of_int (n mod 10)"
      using dec_buf_digits digit_char [of "n mod 10"] by (subst atoi_loop_snoc) auto
    also have "\<dots> = word_of_int (n div 10 * 10 + n mod 10)"
      using "1.IH" True by (simp only: of_int_add of_int_mult of_int_numeral)
    finally show ?thesis by simp
  next
    case False
    with "1.prems" show ?thesis by (subst dec_buf.simps) simp
  qed
qed

lemma hex_digit_nth: "unat d < 16 \<Longrightarrow> hex_digit (hex_digits ! unat d) = Some d"
proof -
  assume "unat (d :: u32) < 16"
  then have "d \<in> word_of_nat ` {0, 1, 2, 3, 4, 5, 6, 7, 8, 9, 10, 11, 12, 13, 14, 15}"
    by (intro image_eqI [where x = "unat d"]) (simp, simp, presburger)
  then show ?thesis
    by (auto simp: hex_digits_def hex_digit_def schar_def)
qed

lemma hex_step: "drop_bit (i + 4) n * 16 + (drop_bit i n AND 0xF) = drop_bit i (n :: u32)"
proof -
  have "drop_bit (i + 4) n * 16 + (drop_bit i n AND 0xF) =
      push_bit 4 (drop_bit 4 (drop_bit i n)) + take_bit 4 (drop_bit i n)"
    by (simp add: push_bit_eq_mult take_bit_eq_mask mask_eq_exp_minus_1 add.commute)
  also have "\<dots> = drop_bit i n"
    by (simp only: bits_ident)
  finally show ?thesis .
qed

lemma atoi_hex_loop_digit:
  "atoi_hex_loop (hex_digits ! unat (drop_bit i n AND 0xF) # cs) (drop_bit (i + 4) n) =
     atoi_hex_loop cs (drop_bit i (n :: u32))"
proof -
  let ?d = "drop_bit i n AND 0xF :: u32"
  have d: "unat ?d < 16"
    using word_and_le1 [of "drop_bit i n" "0xF"] by (simp add: word_le_nat_alt)
  then have "hex_digits ! unat ?d \<noteq> NUL"
    using nth_mem [of "unat ?d" hex_digits] by (auto simp: hex_digits_def)
  then show ?thesis
    using hex_digit_nth [OF d] by (simp add: hex_step)
qed

lemma atoi_hex_loop_string:
  "atoi_hex_loop (map (\<lambda>i. hex_digits ! unat (drop_bit i n AND 0xF)) [28, 24, 20, 16, 12, 8, 4, 0]) 0 = n"
proof -
  have z: "drop_bit 32 n = 0"
    by (rule bit_word_eqI) (auto simp: bit_simps dest: bit_imp_le_length)
  show ?thesis
    using atoi_hex_loop_digit [of 28 n] atoi_hex_loop_digit [of 24 n] atoi_hex_loop_digit [of 20 n]
      atoi_hex_loop_digit [of 16 n] atoi_hex_loop_digit [of 12 n] atoi_hex_loop_digit [of 8 n]
      atoi_hex_loop_digit [of 4 n] atoi_hex_loop_digit [of 0 n]
    by (simp add: z del: atoi_hex_loop.simps(2))
qed

end
