(* ===== verification/Memmap.thy ===== *)
theory Memmap
  imports Vga
begin

text \<open>
  The physical memory map (\<^verbatim>\<open>memory.c\<close>, \<^verbatim>\<open>multiboot.h\<close>). GRUB leaves a \<^verbatim>\<open>multiboot_info_t\<close> and a
  sequence of packed \<^verbatim>\<open>multiboot_mmap_entry_t\<close> in memory; \<open>memory_init\<close> reads them there, field
  by field at their offsets. The loop follows the \<^verbatim>\<open>size\<close> fields of the data it reads, so it
  may never end on a malformed map: it is a \<^theory_text>\<open>partial_function\<close>, and \<open>None\<close> means that it
  does not return.

  \<open>map_entries\<close> describes a well-formed map as the list of its entries, with their 64-bit addresses
  and lengths, \<open>entry_list\<close> as the list of what the loop makes of them, which is the low 32 bits;
  \<open>memory_init_loop_fold\<close> shows that the loop then returns, with exactly those folded into the
  tables. For entries that fit in 32 bits (\<open>entry_fits\<close>) nothing is lost.
\<close>

definition MAX_REGIONS :: nat where "MAX_REGIONS = 32"

record region =
  base :: u32
  len :: u32
  rtype :: u32

text \<open>\<^verbatim>\<open>regions[0 .. region_count - 1]\<close> is the list \<open>regions\<close>.\<close>

record memmap =
  total_kb :: u32
  usable_kb :: u32
  highest :: u32
  regions :: "region list"

record mem_layer = machine +
  mmap :: memmap

definition ld64 :: "mem \<Rightarrow> u32 \<Rightarrow> u64" where
  "ld64 m a = ucast (ld32 m a) OR push_bit 32 (ucast (ld32 m (a + 4)))"

text \<open>Field offsets of the packed Multiboot structures.\<close>

definition mbi_flags :: "mem \<Rightarrow> u32 \<Rightarrow> u32" where "mbi_flags m mbi = ld32 m mbi"
definition mbi_mmap_length :: "mem \<Rightarrow> u32 \<Rightarrow> u32" where "mbi_mmap_length m mbi = ld32 m (mbi + 44)"
definition mbi_mmap_addr :: "mem \<Rightarrow> u32 \<Rightarrow> u32" where "mbi_mmap_addr m mbi = ld32 m (mbi + 48)"
definition entry_size :: "mem \<Rightarrow> u32 \<Rightarrow> u32" where "entry_size m e = ld32 m e"
definition entry_addr :: "mem \<Rightarrow> u32 \<Rightarrow> u64" where "entry_addr m e = ld64 m (e + 4)"
definition entry_len :: "mem \<Rightarrow> u32 \<Rightarrow> u64" where "entry_len m e = ld64 m (e + 12)"
definition entry_type :: "mem \<Rightarrow> u32 \<Rightarrow> u32" where "entry_type m e = ld32 m (e + 20)"

text \<open>The body of the loop of \<^verbatim>\<open>memory_init\<close>, for one entry.\<close>

definition add_entry :: "u32 \<Rightarrow> u32 \<Rightarrow> u32 \<Rightarrow> memmap \<Rightarrow> memmap" where
  "add_entry b l t mm =
     (let mm = (if length (regions mm) < MAX_REGIONS
                then mm\<lparr>regions := regions mm @ [\<lparr>base = b, len = l, rtype = t\<rparr>]\<rparr> else mm);
          mm = mm\<lparr>total_kb := total_kb mm + l div 1024\<rparr>
      in if t = 1
         then let mm = mm\<lparr>usable_kb := usable_kb mm + l div 1024\<rparr>
              in if b + l > highest mm then mm\<lparr>highest := b + l\<rparr> else mm
         else mm)"

partial_function (option) memory_init_loop ::
  "mem \<Rightarrow> u32 \<Rightarrow> u32 \<Rightarrow> memmap \<Rightarrow> memmap option" where
  "memory_init_loop m e map_end mm =
     (if e < map_end
      then memory_init_loop m (e + entry_size m e + 4) map_end
             (add_entry (ucast (entry_addr m e)) (ucast (entry_len m e)) (entry_type m e) mm)
      else Some mm)"

definition memory_init :: "u32 \<Rightarrow> 'a mem_layer_scheme \<Rightarrow> 'a mem_layer_scheme option" where
  "memory_init mbi s =
     (if mbi_flags (mem s) mbi AND push_bit 6 1 = 0
      then Some (kprint ''FATAL: GRUB provided no memory map.\<newline>'' s)
      else do {
        mm \<leftarrow> memory_init_loop (mem s) (mbi_mmap_addr (mem s) mbi)
                (mbi_mmap_addr (mem s) mbi + mbi_mmap_length (mem s) mbi) (mmap s);
        Some (s\<lparr>mmap := mm\<rparr>)
      })"

definition memory_print_region :: "region \<Rightarrow> 'a mem_layer_scheme \<Rightarrow> 'a mem_layer_scheme" where
  "memory_print_region r s =
     (let s = kprint ''  '' s;
          s = kprint_hex (base r) s;
          s = kprint '' - '' s;
          s = kprint_hex (base r + len r - 1) s;
          s = kprint ''  '' s;
          s = kprint_int (len r div 1024) s;
          s = kprint '' KB  '' s
      in kprint (if rtype r = 1 then ''USABLE\<newline>'' else ''RESERVED\<newline>'') s)"

definition memory_print_map :: "'a mem_layer_scheme \<Rightarrow> 'a mem_layer_scheme" where
  "memory_print_map s =
     foldl (\<lambda>s r. memory_print_region r s)
       (kprint ''Physical memory map (from GRUB):\<newline>'' s) (regions (mmap s))"

definition mem_total_kb :: "'a mem_layer_scheme \<Rightarrow> u32" where "mem_total_kb s = total_kb (mmap s)"
definition mem_usable_kb :: "'a mem_layer_scheme \<Rightarrow> u32" where "mem_usable_kb s = usable_kb (mmap s)"
definition mem_highest_addr :: "'a mem_layer_scheme \<Rightarrow> u32" where "mem_highest_addr s = highest (mmap s)"

definition mem_region_count :: "'a mem_layer_scheme \<Rightarrow> nat" where
  "mem_region_count s = length (regions (mmap s))"
definition mem_region_base :: "nat \<Rightarrow> 'a mem_layer_scheme \<Rightarrow> u32" where
  "mem_region_base i s = base (regions (mmap s) ! i)"
definition mem_region_len :: "nat \<Rightarrow> 'a mem_layer_scheme \<Rightarrow> u32" where
  "mem_region_len i s = len (regions (mmap s) ! i)"
definition mem_region_type :: "nat \<Rightarrow> 'a mem_layer_scheme \<Rightarrow> u32" where
  "mem_region_type i s = rtype (regions (mmap s) ! i)"

section \<open>A well-formed map is read entry by entry\<close>

lemma ucast_ld64 [simp]: "ucast (ld64 m a) = ld32 m a"
  by (rule bit_word_eqI) (auto simp: ld64_def bit_simps)

fun entry_list :: "mem \<Rightarrow> u32 \<Rightarrow> u32 \<Rightarrow> (u32 \<times> u32 \<times> u32) list \<Rightarrow> bool" where
  "entry_list m e map_end [] \<longleftrightarrow> map_end \<le> e"
| "entry_list m e map_end ((b, l, t) # es) \<longleftrightarrow>
     e < map_end \<and> ucast (entry_addr m e) = b \<and> ucast (entry_len m e) = l \<and> entry_type m e = t \<and>
     entry_list m (e + entry_size m e + 4) map_end es"

fun map_entries :: "mem \<Rightarrow> u32 \<Rightarrow> u32 \<Rightarrow> (u64 \<times> u64 \<times> u32) list \<Rightarrow> bool" where
  "map_entries m e map_end [] \<longleftrightarrow> map_end \<le> e"
| "map_entries m e map_end ((b, l, t) # es) \<longleftrightarrow>
     e < map_end \<and> entry_addr m e = b \<and> entry_len m e = l \<and> entry_type m e = t \<and>
     map_entries m (e + entry_size m e + 4) map_end es"

definition low32 :: "u64 \<times> u64 \<times> u32 \<Rightarrow> u32 \<times> u32 \<times> u32" where
  "low32 = (\<lambda>(b, l, t). (ucast b, ucast l, t))"

lemma map_entries_low: "map_entries m e map_end es \<Longrightarrow> entry_list m e map_end (map low32 es)"
  by (induction m e map_end es rule: map_entries.induct) (auto simp: low32_def)

definition entry_fits :: "u64 \<times> u64 \<times> u32 \<Rightarrow> bool" where
  "entry_fits = (\<lambda>(b, l, t). unat b < 2 ^ 32 \<and> unat l < 2 ^ 32 \<and> (t = 1 \<longrightarrow> unat b + unat l < 2 ^ 32))"

definition add_entries :: "(u32 \<times> u32 \<times> u32) list \<Rightarrow> memmap \<Rightarrow> memmap" where
  "add_entries es mm = foldl (\<lambda>mm (b, l, t). add_entry b l t mm) mm es"

lemma add_entries_simps [simp]:
  "add_entries [] mm = mm"
  "add_entries ((b, l, t) # es) mm = add_entries es (add_entry b l t mm)"
  by (simp_all add: add_entries_def)

lemma memory_init_loop_fold:
  "entry_list m e map_end es \<Longrightarrow> memory_init_loop m e map_end mm = Some (add_entries es mm)"
proof (induction m e map_end es arbitrary: mm rule: entry_list.induct)
  case (1 m e map_end)
  then show ?case
    by (subst memory_init_loop.simps) (auto dest: leD)
next
  case (2 m e map_end b l t es)
  then show ?case
    by (subst memory_init_loop.simps) auto
qed

lemma add_entry_regions:
  "regions (add_entry b l t mm) =
     (if length (regions mm) < MAX_REGIONS
      then regions mm @ [\<lparr>base = b, len = l, rtype = t\<rparr>] else regions mm)"
  by (simp add: add_entry_def Let_def)

lemma add_entry_highest:
  "highest (add_entry b l t mm) = (if t = 1 then max (highest mm) (b + l) else highest mm)"
  by (auto simp: add_entry_def Let_def max_def not_less)

lemma add_entries_regions:
  "length (regions mm) \<le> MAX_REGIONS \<Longrightarrow>
     regions (add_entries es mm) =
       take MAX_REGIONS (regions mm @ map (\<lambda>(b, l, t). \<lparr>base = b, len = l, rtype = t\<rparr>) es)"
proof (induction es arbitrary: mm)
  case (Cons e es)
  obtain b l t where e: "e = (b, l, t)" by (cases e)
  from Cons.prems have "length (regions (add_entry b l t mm)) \<le> MAX_REGIONS"
    by (simp add: add_entry_regions)
  from Cons.IH [OF this] Cons.prems show ?case
    by (auto simp: e add_entry_regions take_Cons' Suc_diff_Suc)
qed simp

lemma add_entries_highest_mono: "highest mm \<le> highest (add_entries es mm)"
proof (induction es arbitrary: mm)
  case (Cons e es)
  obtain b l t where e: "e = (b, l, t)" by (cases e)
  have "highest mm \<le> highest (add_entry b l t mm)"
    by (simp add: add_entry_highest)
  also have "\<dots> \<le> highest (add_entries es (add_entry b l t mm))"
    by (rule Cons.IH)
  finally show ?case by (simp add: e)
qed simp

lemma add_entries_highest:
  "(b, l, 1) \<in> set es \<Longrightarrow> b + l \<le> highest (add_entries es mm)"
proof (induction es arbitrary: mm)
  case (Cons e es)
  obtain b' l' t' where e: "e = (b', l', t')" by (cases e)
  show ?case
  proof (cases "e = (b, l, 1)")
    case True
    have "b + l \<le> highest (add_entry b l 1 mm)"
      by (simp add: add_entry_highest)
    also have "\<dots> \<le> highest (add_entries es (add_entry b l 1 mm))"
      by (rule add_entries_highest_mono)
    finally show ?thesis using True by simp
  next
    case False
    with Cons.prems have "(b, l, 1) \<in> set es" by simp
    then show ?thesis by (simp add: e Cons.IH)
  qed
qed simp

end
