(* ===== verification/Console_Claims.thy ===== *)
theory Console_Claims
  imports Memmap
begin

text \<open>
  The properties of the console (\<^verbatim>\<open>vga.c\<close>), of the transmit half of the UART driver (\<^verbatim>\<open>serial.c\<close>), of
  the number printers and parsers (\<^verbatim>\<open>vga.c\<close>, \<^verbatim>\<open>util.c\<close>) and of the memory map reader (\<^verbatim>\<open>memory.c\<close>).
\<close>

section \<open>The screen\<close>

lemma putchar_cell:
  assumes "length (vga s) = 2000" "cursor_row s < VGA_HEIGHT" "Suc (cursor_col s) < VGA_WIDTH" "c \<noteq> CHR 0x0A"
  shows "vga (putchar c s) = (vga s)[cursor_row s * 80 + cursor_col s := vga_entry c (color s)]"
    "cursor_row (putchar c s) = cursor_row s" "cursor_col (putchar c s) = Suc (cursor_col s)"
    "color (putchar c s) = color s"
  using assms by (simp_all add: putchar_def Let_def vga_consts vga_put_in size_arith)

lemma print_cells:
  assumes "length (vga s) = 2000" "cursor_row s < VGA_HEIGHT" "cursor_col s + length str < VGA_WIDTH"
    "CHR 0x0A \<notin> set str" "NUL \<notin> set str"
  shows "vga (print str s) = take (cursor_row s * 80 + cursor_col s) (vga s) @ map (\<lambda>c. vga_entry c (color s)) str @
      drop (cursor_row s * 80 + cursor_col s + length str) (vga s) \<and>
    cursor_row (print str s) = cursor_row s \<and> cursor_col (print str s) = cursor_col s + length str"
  using assms
proof (induction str arbitrary: s)
  case (Cons c str)
  have p: "length (vga s) = 2000" "cursor_row s < VGA_HEIGHT" "Suc (cursor_col s) < VGA_WIDTH" "c \<noteq> CHR 0x0A"
    using Cons.prems by auto
  have n: "cursor_row s * 80 + cursor_col s < length (vga s)" using p by (simp add: vga_consts)
  note pc = putchar_cell [OF p]
  have "vga (print str (putchar c s)) = take (Suc (cursor_row s * 80 + cursor_col s)) (vga (putchar c s)) @
        map (\<lambda>c. vga_entry c (color s)) str @ drop (Suc (cursor_row s * 80 + cursor_col s) + length str) (vga (putchar c s)) \<and>
      cursor_row (print str (putchar c s)) = cursor_row s \<and>
      cursor_col (print str (putchar c s)) = Suc (cursor_col s) + length str"
    using Cons.IH [of "putchar c s", unfolded pc] Cons.prems by (simp add: pc)
  moreover have "c \<noteq> NUL" using Cons.prems(5) by auto
  ultimately show ?case
    using n by (simp add: pc take_Suc_conv_app_nth)
qed simp

lemma newline_at_bottom:
  assumes "length (vga s) = 2000" "cursor_row s = 24"
  shows "vga (putchar CHR 0x0A s) = drop 80 (vga s) @ replicate 80 (vga_entry CHR '' '' (color s))"
    "cursor_row (putchar CHR 0x0A s) = 24" "cursor_col (putchar CHR 0x0A s) = 0"
  using assms by (simp_all add: putchar_def Let_def vga_consts size_arith scroll_eq)

text \<open>
  C23: the console never reads or writes outside its buffer of 80 by 25 cells, and the cursor stays on the
  screen. Every output operation keeps the invariant, which says so of the buffer, of the cursor and of the
  record \<open>stray\<close> of all accesses beyond the buffer: it stays empty. Clearing the screen blanks every cell
  and puts the cursor in the corner.
\<close>

theorem console_stays_on_screen:
  assumes "vga_inv s"
  shows "vga_inv (putchar c s) \<and> vga_inv (print str s) \<and> vga_inv (print_int n s) \<and> vga_inv (print_hex n s) \<and>
    vga_inv (backspace s) \<and> vga_inv (clear_screen s) \<and>
    stray (putchar c s) = [] \<and> stray (print str s) = [] \<and> stray (print_int n s) = [] \<and>
    stray (print_hex n s) = [] \<and> stray (backspace s) = [] \<and> stray (clear_screen s) = [] \<and>
    clear_screen s =
      s\<lparr>vga := replicate 2000 (vga_entry CHR '' '' (color s)), cursor_row := 0, cursor_col := 0\<rparr>"
proof -
  have "length (vga s) = 2000" "stray s = []" using assms by (simp_all add: vga_inv_def)
  then have "vga_inv (clear_screen s)" by (rule vga_inv_clear)
  note i = vga_inv_putchar [OF assms, of c] vga_inv_print [OF assms, of str] vga_inv_print_int [OF assms, of n]
    vga_inv_print_hex [OF assms, of n] vga_inv_backspace [OF assms] this
  show ?thesis
    using i vga_inv_stray [OF i(1)] vga_inv_stray [OF i(2)] vga_inv_stray [OF i(3)] vga_inv_stray [OF i(4)]
      vga_inv_stray [OF i(5)] vga_inv_stray [OF i(6)] clear_screen_eq [of s] \<open>length (vga s) = 2000\<close> by blast
qed

definition demo_screen :: vga_state where
  "demo_screen = \<lparr>inputs = \<lambda>_ _. 0x20, in_count = 0, outputs = [], serial_ready = True, rx_count = 0, tx_count = 0,
     vga = replicate 2000 0x0741, cursor_row = 24, cursor_col = 0, color = 0x0F, stray = []\<rparr>"

theorem console_stays_on_screen_witness: "vga_inv (print ''a\<newline>b'' demo_screen)"
proof -
  have "vga_inv demo_screen" by (simp add: vga_inv_def demo_screen_def vga_consts)
  from console_stays_on_screen [OF this, of _ "''a\<newline>b''"] show ?thesis by blast
qed

text \<open>
  C24: what printing shows. A text that ends before the last column of the line appears, in the current colour, in the
  cells from the cursor on, and changes no other cell; a newline on the last line moves every line up by
  one and clears the last.
\<close>

theorem print_shows_text:
  assumes "vga_inv s" and "cursor_col s + length str < VGA_WIDTH" and "CHR 0x0A \<notin> set str" and "NUL \<notin> set str"
  shows "vga (print str s) = take (cursor_row s * 80 + cursor_col s) (vga s) @ map (\<lambda>c. vga_entry c (color s)) str @
      drop (cursor_row s * 80 + cursor_col s + length str) (vga s) \<and>
    cursor_row (print str s) = cursor_row s \<and> cursor_col (print str s) = cursor_col s + length str \<and>
    (cursor_row s = 24 \<longrightarrow>
       vga (putchar CHR 0x0A s) = drop 80 (vga s) @ replicate 80 (vga_entry CHR '' '' (color s)) \<and>
       cursor_row (putchar CHR 0x0A s) = 24 \<and> cursor_col (putchar CHR 0x0A s) = 0)"
  using print_cells [OF _ _ assms(2-4)] newline_at_bottom [of s] assms(1) by (simp add: vga_inv_def)

theorem print_shows_text_witness:
  "take 3 (drop 1920 (vga (print ''ok'' demo_screen))) = [vga_entry CHR ''o'' 0x0F, vga_entry CHR ''k'' 0x0F, 0x0741] \<and>
   vga (putchar CHR 0x0A demo_screen) ! 1999 = vga_entry CHR '' '' 0x0F"
proof -
  have "vga_inv demo_screen" by (simp add: vga_inv_def demo_screen_def vga_consts)
  from print_shows_text [OF this, of "''ok''"] show ?thesis
    by (simp add: demo_screen_def vga_consts nth_append)
qed

section \<open>Numbers\<close>

lemma atoi_digits:
  assumes "0 \<le> k"
  shows "atoi (rev (dec_buf k)) = word_of_int k"
proof -
  have "chr0 (rev (dec_buf k)) \<noteq> CHR ''-''"
  proof (cases "rev (dec_buf k)")
    case (Cons c cs)
    then have "c \<in> set (dec_buf k)" by (metis list.set_intros(1) set_rev)
    then have "is_digit c" using dec_buf_digits by blast
    then show ?thesis by (auto simp: Cons is_digit_def schar_def)
  qed simp
  then show ?thesis
    using atoi_loop_dec_buf [OF assms] by (simp add: atoi_def)
qed

lemma sint_least: "sint (0x80000000 :: u32) = - 2147483648"
  by code_simp

lemma sint_minus:
  assumes "n \<noteq> (0x80000000 :: u32)"
  shows "sint (- n) = - sint n"
proof -
  have "sint n \<noteq> sint (0x80000000 :: u32)"
    using assms signed_word_eqI by blast
  then have "- 2147483648 < sint n"
    using sint_greater_eq [of n] by (simp add: sint_least)
  moreover have "sint n < 2147483648"
    using sint_less [of n] by simp
  moreover have "sint (- n) = sint (word_of_int (- sint n) :: u32)"
    by simp
  ultimately show ?thesis
    by (simp only: signed_of_int) (simp add: signed_take_bit_int_eq_self)
qed

lemma atoi_dec_string:
  "if n = 0x80000000 then dec_string n = ''-'' else atoi (dec_string n) = n"
proof (cases "n = 0x80000000")
  case True
  then show ?thesis
    by (simp add: dec_string_def dec_buf.simps sint_least)
next
  case False
  consider "n = 0" | "n \<noteq> 0" "0 \<le> sint n" | "sint n < 0" by fastforce
  then have "atoi (dec_string n) = n"
  proof cases
    case 1
    then show ?thesis
      by (simp add: dec_string_def atoi_def is_digit_def schar_def)
  next
    case 2
    then show ?thesis
      by (simp add: dec_string_def atoi_digits)
  next
    case 3
    then have "0 \<le> sint (- n)" using sint_minus [OF False] by simp
    from atoi_loop_dec_buf [OF this] 3 show ?thesis
      by (auto simp: dec_string_def atoi_def)
  qed
  with False show ?thesis by simp
qed

lemma dec_string_length: "length (dec_string n) \<le> 11"
proof -
  have "length (dec_buf (sint w)) \<le> 10" for w :: u32
    using sint_less [of w] by (intro dec_buf_length) simp
  from this [of n] this [of "- n"] show ?thesis
    by (simp add: dec_string_def)
qed

lemma print_hex_atoi_hex:
  "print_hex n s = print (hex_string n) s \<and> length (hex_string n) = 10 \<and> atoi_hex (hex_string n) = n"
  unfolding print_hex_string hex_string_def atoi_hex_def Let_def
  using atoi_hex_loop_string [of n] by (simp del: atoi_hex_loop.simps list.map)

text \<open>
  C25: printing and parsing numbers. \<open>print_int\<close> prints at most eleven characters, and \<open>atoi\<close>
  reads them back as the same \<^verbatim>\<open>int\<close>, for every value but the least, of which only the minus sign is printed.
  \<open>print_hex\<close> prints \<^verbatim>\<open>0x\<close> and eight digits, and \<open>atoi_hex\<close> reads them back as the same number.
\<close>

theorem print_int_atoi:
  fixes s :: "'a vga_state_scheme"
  shows "(print_int n s = print (dec_string n) s \<and> length (dec_string n) \<le> 11 \<and>
    (if n = 0x80000000 then dec_string n = ''-'' else atoi (dec_string n) = n)) \<and>
   print_hex n s = print (hex_string n) s \<and> length (hex_string n) = 10 \<and> atoi_hex (hex_string n) = n"
  using print_int_string atoi_dec_string dec_string_length print_hex_atoi_hex by blast

section \<open>The transmitter\<close>

lemma tx_bound:
  "inputs (tx c s) = inputs s \<and> in_count (tx c s) \<le> in_count s + Suc TX_SPIN_LIMIT \<and>
   (outputs (tx c s) = outputs s \<and> tx_count (tx c s) = tx_count s \<or>
    outputs (tx c s) = outputs s @ uart_bytes [c] \<and> tx_count (tx c s) = tx_count s + 1)"
proof -
  obtain free s' where w: "tx_wait 0 s = (free, s')" by fastforce
  obtain n where n: "s' = s\<lparr>in_count := n\<rparr>" using tx_wait_frame [OF w] by blast
  have "in_count s' \<le> in_count s + Suc TX_SPIN_LIMIT"
    using tx_wait_polls [OF _ w] by simp
  with w n show ?thesis
    by (auto simp: tx_def outb_def)
qed

text \<open>
  C26: sending a byte ends: after at most 100001 polls of the line status it has been written to the data
  register and counted, exactly once, or given up without any write. No assumption is made about the device.
\<close>

theorem tx_gives_up:
  "in_count (tx c s) \<le> in_count s + 100001 \<and>
   (outputs (tx c s) = outputs s \<and> tx_count (tx c s) = tx_count s \<or>
    outputs (tx c s) = outputs s @ [(0x3F8, of_char c)] \<and> tx_count (tx c s) = tx_count s + 1)"
  using tx_bound [of c s] by (simp add: TX_SPIN_LIMIT_def COM1_def REG_DATA_def)

lemma serial_write_char_out:
  assumes "uart_free s" and "serial_ready s"
  shows "outputs (serial_write_char c s) = outputs s @ uart_bytes (crlf [c]) \<and>
    tx_count (serial_write_char c s) = tx_count s + of_nat (length (crlf [c])) \<and>
    uart_free (serial_write_char c s) \<and> serial_ready (serial_write_char c s)"
proof -
  have "uart_free (s\<lparr>in_count := n, outputs := out, tx_count := k\<rparr>)" for n out k
    using assms(1) by (simp add: uart_free_def)
  then show ?thesis
    using assms by (auto simp: serial_write_char_def tx_free)
qed

text \<open>
  C27: with a UART that is present and takes its bytes, a string goes out complete and in order, with a
  carriage return before every newline, and every byte is counted.
\<close>

theorem serial_write_crlf:
  assumes "uart_free s" and "serial_ready s" and "NUL \<notin> set str"
  shows "outputs (serial_write str s) = outputs s @ map (\<lambda>c. (0x3F8, of_char c)) (crlf str) \<and>
    tx_count (serial_write str s) = tx_count s + of_nat (length (crlf str))"
proof -
  have "outputs (serial_write str s) = outputs s @ uart_bytes (crlf str) \<and>
      tx_count (serial_write str s) = tx_count s + of_nat (length (crlf str))"
    using assms
  proof (induction str arbitrary: s)
    case (Cons c str)
    note out = serial_write_char_out [OF Cons.prems(1,2), of c]
    with Cons.IH [of "serial_write_char c s"] Cons.prems(3) show ?case
      by (cases "c = CHR 0x0A") auto
  qed simp
  then show ?thesis
    by (simp add: COM1_def REG_DATA_def)
qed

theorem serial_write_crlf_witness:
  "map snd (outputs (serial_write ''a\<newline>'' demo_screen)) = [0x61, 0x0D, 0x0A]"
proof -
  have u: "uart_free demo_screen" "serial_ready demo_screen"
    by (simp_all add: uart_free_def demo_screen_def LSR_THR_EMPTY_def)
  have "crlf ''a\<newline>'' = [CHR ''a'', CHR 0x0D, CHR 0x0A]" by simp
  with serial_write_crlf [OF u, of "''a\<newline>''"] show ?thesis
    by (simp add: demo_screen_def)
qed

section \<open>The memory map\<close>

definition no_map :: memmap where
  "no_map = \<lparr>total_kb = 0, usable_kb = 0, highest = 0, regions = []\<rparr>"

lemma add_entries_sums:
  "total_kb (add_entries es mm) = total_kb mm + (\<Sum>(b, l, t) \<leftarrow> es. l div 1024)"
  "usable_kb (add_entries es mm) = usable_kb mm + (\<Sum>(b, l, t) \<leftarrow> es. if t = 1 then l div 1024 else 0)"
  by (induction es arbitrary: mm) (auto simp: add_entry_def Let_def add.assoc)

text \<open>Nothing is lost of entries that fit, and the sums of up to 1024 of them do not wrap.\<close>

lemma unat_low: "unat (w :: u64) < 2 ^ 32 \<Longrightarrow> unat (ucast w :: u32) = unat w"
  by (simp add: unsigned_ucast_eq take_bit_nat_eq_self)

lemma unat_sum_list: "unat (sum_list ws) = sum_list (map unat ws) mod 2 ^ 32" for ws :: "u32 list"
  by (induction ws) (simp_all add: unat_word_ariths mod_add_right_eq)

lemma sum_list_bound: "(\<forall>x \<in> set xs. x \<le> k) \<Longrightarrow> sum_list xs \<le> length xs * (k :: nat)"
  by (induction xs) auto

lemma unat_sizes:
  assumes "length es \<le> 1024" "list_all entry_fits es"
  shows "unat (\<Sum>(b, l, t) \<leftarrow> map low32 es. if P t then l div 1024 else 0) =
    (\<Sum>(b, l, t) \<leftarrow> es. if P t then unat l div 1024 else 0)"
proof -
  have eq: "map unat (map (\<lambda>(b, l, t). if P t then l div 1024 else 0) (map low32 es)) =
      map (\<lambda>(b, l, t). if P t then unat l div 1024 else 0) es"
    using assms(2) by (auto simp: low32_def entry_fits_def list_all_iff unat_low unat_div)
  have "sum_list (map (\<lambda>(b, l, t). if P t then unat l div 1024 else 0) es) \<le> length es * 4194303"
    using assms(2) sum_list_bound [of "map (\<lambda>(b, l, t). if P t then unat l div 1024 else 0) es" 4194303]
    by (fastforce simp: entry_fits_def list_all_iff)
  also have "\<dots> \<le> 1024 * 4194303" using assms(1) by (rule mult_le_mono1)
  finally have "sum_list (map (\<lambda>(b, l, t). if P t then unat l div 1024 else 0) es) < 2 ^ 32" by simp
  then show ?thesis
    unfolding unat_sum_list eq by (rule mod_less)
qed

lemma Max_insert_max: "Max (insert (max a b) (set xs)) = max a (Max (insert b (set xs)))" for a :: nat
  by (cases "xs = []") (simp_all add: max.assoc)

lemma unat_highest:
  assumes "list_all entry_fits es"
  shows "unat (highest (add_entries (map low32 es) mm)) =
    Max (set (unat (highest mm) # [unat b + unat l. (b, l, t) \<leftarrow> es, t = 1]))"
  using assms
proof (induction es arbitrary: mm)
  case (Cons e es)
  obtain b l t where e: "e = (b, l, t)" by (cases e)
  let ?mm = "add_entry (ucast b) (ucast l) t mm"
  have "unat (highest ?mm) = (if t = 1 then max (unat (highest mm)) (unat b + unat l) else unat (highest mm))"
    using Cons.prems
    by (auto simp: e entry_fits_def add_entry_highest unat_low unat_word_ariths max_def word_le_nat_alt)
  moreover have "finite (set [unat b + unat l. (b, l, t) \<leftarrow> es, t = 1])" by (rule finite_set)
  ultimately show ?case
    using Cons.IH [of ?mm] Cons.prems by (auto simp: e low32_def Max_insert_max simp del: set_concat)
qed simp

text \<open>An entry whose \<^verbatim>\<open>size\<close> field makes the cursor stand still.\<close>

lemma memory_init_loop_stuck:
  assumes "memory_init_loop m e map_end mm = Some y"
  shows "\<not> (e < map_end \<and> entry_size m e = 0xFFFFFFFC)"
proof (rule memory_init_loop.raw_induct
    [where P = "\<lambda>m e map_end mm y. \<not> (e < map_end \<and> entry_size m e = 0xFFFFFFFC)", OF _ assms])
  fix rec m and e map_end :: u32 and mm y
  assume IH: "\<And>m e map_end mm y. rec m e map_end mm = Some y \<Longrightarrow> \<not> (e < map_end \<and> entry_size m e = 0xFFFFFFFC)"
    and body: "(if e < map_end
      then rec m (e + entry_size m e + 4) map_end
             (add_entry (ucast (entry_addr m e)) (ucast (entry_len m e)) (entry_type m e) mm)
      else Some mm) = Some y"
  show "\<not> (e < map_end \<and> entry_size m e = 0xFFFFFFFC)"
  proof
    assume stuck: "e < map_end \<and> entry_size m e = 0xFFFFFFFC"
    then have e: "e + entry_size m e + 4 = e" by simp
    from stuck have "rec m e map_end (add_entry (ucast (entry_addr m e)) (ucast (entry_len m e)) (entry_type m e) mm) = Some y"
      using body unfolding e by (simp only: if_True)
    with IH stuck show False by blast
  qed
qed

text \<open>
  C28: reading the memory map. On a well-formed map (\<open>map_entries\<close>: the entries found by following the
  \<^verbatim>\<open>size\<close> fields, with 64-bit addresses and lengths) \<open>memory_init\<close> ends, and the region table holds the
  first 32 entries, with the low 32 bits of address and length. If the map has at most 1024 entries and all
  fit in 32 bits, the region table has their exact addresses and lengths, the counters are the exact total
  and usable sizes in KB, and \<open>highest\<close> is the exact end of the highest usable entry. An entry of size -4
  makes the loop stand still for ever.
\<close>

theorem memory_init_reads_map:
  fixes s :: "'a mem_layer_scheme"
  assumes "mbi_flags (mem s) mbi AND push_bit 6 1 \<noteq> 0" and "mmap s = no_map"
    and "map_entries (mem s) (mbi_mmap_addr (mem s) mbi) (mbi_mmap_addr (mem s) mbi + mbi_mmap_length (mem s) mbi) es"
  shows "\<exists>mm. memory_init mbi s = Some (s\<lparr>mmap := mm\<rparr>) \<and>
    regions mm = take 32 (map (\<lambda>(b, l, t). \<lparr>base = ucast b, len = ucast l, rtype = t\<rparr>) es) \<and>
    (list_all entry_fits es \<and> length es \<le> 1024 \<longrightarrow>
       map (\<lambda>r. (unat (base r), unat (len r), rtype r)) (regions mm) =
         take 32 (map (\<lambda>(b, l, t). (unat b, unat l, t)) es) \<and>
       unat (total_kb mm) = (\<Sum>(b, l, t) \<leftarrow> es. unat l div 1024) \<and>
       unat (usable_kb mm) = (\<Sum>(b, l, t) \<leftarrow> es. if t = 1 then unat l div 1024 else 0) \<and>
       unat (highest mm) = Max (set (0 # [unat b + unat l. (b, l, t) \<leftarrow> es, t = 1]))) \<and>
    (\<forall>m e map_end mm'. e < map_end \<and> entry_size m e = 0xFFFFFFFC \<longrightarrow> memory_init_loop m e map_end mm' = None)"
proof -
  let ?mm = "add_entries (map low32 es) no_map"
  have "memory_init mbi s = Some (s\<lparr>mmap := ?mm\<rparr>)"
    using assms memory_init_loop_fold [OF map_entries_low [OF assms(3)]] by (simp add: memory_init_def)
  moreover have r: "regions ?mm = take 32 (map (\<lambda>(b, l, t). \<lparr>base = ucast b, len = ucast l, rtype = t\<rparr>) es)"
    using add_entries_regions [of no_map "map low32 es"]
    by (simp add: no_map_def MAX_REGIONS_def low32_def comp_def case_prod_unfold)
  moreover have "map (\<lambda>r. (unat (base r), unat (len r), rtype r)) (regions ?mm) =
      take 32 (map (\<lambda>(b, l, t). (unat b, unat l, t)) es)" if "list_all entry_fits es"
  proof -
    have "map ((\<lambda>r. (unat (base r), unat (len r), rtype r)) \<circ> (\<lambda>(b, l, t). \<lparr>base = ucast b, len = ucast l, rtype = t\<rparr>)) es =
        map (\<lambda>(b, l, t). (unat b, unat l, t)) es"
      using that by (auto simp: list_all_iff entry_fits_def unat_low)
    then show ?thesis by (simp only: r take_map [symmetric] map_map)
  qed
  moreover have "unat (total_kb ?mm) = (\<Sum>(b, l, t) \<leftarrow> es. unat l div 1024) \<and>
      unat (usable_kb ?mm) = (\<Sum>(b, l, t) \<leftarrow> es. if t = 1 then unat l div 1024 else 0)"
    if "list_all entry_fits es" "length es \<le> 1024"
    using unat_sizes [OF that(2,1), of "\<lambda>_. True"] unat_sizes [OF that(2,1), of "\<lambda>t. t = 1"]
      add_entries_sums [of "map low32 es" no_map] by (simp add: no_map_def)
  moreover have "unat (highest ?mm) = Max (set (0 # [unat b + unat l. (b, l, t) \<leftarrow> es, t = 1]))"
    if "list_all entry_fits es"
    using unat_highest [OF that, of no_map] by (simp add: no_map_def)
  moreover have "memory_init_loop m e map_end mm' = None" if "e < map_end \<and> entry_size m e = 0xFFFFFFFC"
    for m e map_end mm'
    using memory_init_loop_stuck [of m e map_end mm'] that by (cases "memory_init_loop m e map_end mm'") auto
  ultimately show ?thesis
    by blast
qed

text \<open>A Multiboot information block at 0x1000 and a map of two entries at 0x2000.\<close>

definition demo_mbi :: mem where
  "demo_mbi = (let m = st32 (\<lambda>_. 0) 0x1000 0x40; m = st32 m 0x102C 48; m = st32 m 0x1030 0x2000;
     m = st32 m 0x2000 20; m = st32 m 0x2004 0; m = st32 m 0x200C 0x9F000; m = st32 m 0x2014 1;
     m = st32 m 0x2018 20; m = st32 m 0x201C 0x100000; m = st32 m 0x2024 0xF00000; m = st32 m 0x202C 1 in m)"

lemma demo_mbi:
  "mbi_flags demo_mbi 0x1000 = 0x40" "mbi_mmap_addr demo_mbi 0x1000 = 0x2000" "mbi_mmap_length demo_mbi 0x1000 = 48"
  "entry_list demo_mbi 0x2000 0x2030 [(0, 0x9F000, 1), (0x100000, 0xF00000, 1)]"
  by (simp_all add: demo_mbi_def Let_def mbi_flags_def mbi_mmap_addr_def mbi_mmap_length_def entry_size_def
      entry_addr_def entry_len_def entry_type_def mem_simps)

lemma demo_mbi_entries: "map_entries demo_mbi 0x2000 0x2030 [(0, 0x9F000, 1), (0x100000, 0xF00000, 1)]"
proof -
  have "ld32 (\<lambda>_. 0) a = 0" for a by (simp add: ld32_def)
  then show ?thesis
    by (simp add: demo_mbi_def Let_def entry_size_def entry_addr_def entry_len_def entry_type_def ld64_def mem_simps)
qed

theorem memory_init_reads_map_witness:
  "\<exists>mm. memory_init 0x1000 \<lparr>mem = demo_mbi, con = demo_screen, mmap = no_map\<rparr> =
      Some \<lparr>mem = demo_mbi, con = demo_screen, mmap = mm\<rparr> \<and> unat (usable_kb mm) = 15996 \<and>
    unat (highest mm) = 0x1000000"
proof -
  let ?s = "\<lparr>mem = demo_mbi, con = demo_screen, mmap = no_map\<rparr>" 
    and ?es = "[(0, 0x9F000, 1), (0x100000, 0xF00000, 1)] :: (u64 \<times> u64 \<times> u32) list"
  have "mbi_flags (mem ?s) 0x1000 AND push_bit 6 1 \<noteq> 0" "mmap ?s = no_map"
    "map_entries (mem ?s) (mbi_mmap_addr (mem ?s) 0x1000) (mbi_mmap_addr (mem ?s) 0x1000 + mbi_mmap_length (mem ?s) 0x1000) ?es"
    using demo_mbi demo_mbi_entries by simp_all
  from memory_init_reads_map [OF this] obtain mm where mm: "memory_init 0x1000 ?s = Some (?s\<lparr>mmap := mm\<rparr>)"
    "list_all entry_fits ?es \<and> length ?es \<le> 1024 \<longrightarrow>
       unat (usable_kb mm) = (\<Sum>(b, l, t) \<leftarrow> ?es. if t = 1 then unat l div 1024 else 0) \<and>
       unat (highest mm) = Max (set (0 # [unat b + unat l. (b, l, t) \<leftarrow> ?es, t = 1]))"
    by blast
  have "list_all entry_fits ?es" by (simp add: entry_fits_def)
  with mm show ?thesis
    by (intro exI [of _ mm]) simp
qed

end
