(* ===== verification/Pmm.thy ===== *)
theory Pmm
  imports Memmap
begin

text \<open>
  The physical frame allocator (\<^verbatim>\<open>pmm.c\<close>): one bit per 4 KB frame, set when the frame is in use.
  The bitmap is the list \<open>bitmap\<close> of its 32-bit words; \<open>bitmap_addr\<close> is the pointer itself,
  which is only printed. The linker's \<^verbatim>\<open>kernel_end\<close> is an argument of \<open>pmm_init\<close>.

  The specification is the set \<open>free_frames\<close> of free frame numbers. Under \<open>pmm_inv\<close> (the bitmap
  has its size, the bits past the last frame are set, the counter is the number of set bits)
  marking a frame removes it from the set or adds it, and \<open>pmm_alloc_frame\<close> takes the least
  free frame, or reports 0 when there is none. The locale \<open>frame_allocator\<close> is the contract the
  paging code and the heap rely on; it is interpreted here on the bitmap allocator.
\<close>

definition FRAME_SIZE :: u32 where "FRAME_SIZE = 4096"

record pmm_state =
  bitmap :: "u32 list"
  bitmap_addr :: u32
  total_frames :: u32
  used_frames :: u32
  bitmap_size :: u32

record pmm_layer = mem_layer +
  pmm :: pmm_state

section \<open>Bit helpers\<close>

definition frame_test :: "u32 \<Rightarrow> pmm_state \<Rightarrow> bool" where
  "frame_test frame p \<longleftrightarrow>
     drop_bit (unat (frame mod 32)) (bitmap p ! unat (frame div 32)) AND 1 \<noteq> 0"

definition frame_mark_used :: "u32 \<Rightarrow> pmm_state \<Rightarrow> pmm_state" where
  "frame_mark_used frame p =
     (if frame \<ge> total_frames p then p
      else if \<not> frame_test frame p
      then p\<lparr>bitmap := (bitmap p)[unat (frame div 32) :=
                bitmap p ! unat (frame div 32) OR push_bit (unat (frame mod 32)) 1],
             used_frames := used_frames p + 1\<rparr>
      else p)"

definition frame_mark_free :: "u32 \<Rightarrow> pmm_state \<Rightarrow> pmm_state" where
  "frame_mark_free frame p =
     (if frame \<ge> total_frames p then p
      else if frame_test frame p
      then p\<lparr>bitmap := (bitmap p)[unat (frame div 32) :=
                bitmap p ! unat (frame div 32) AND NOT (push_bit (unat (frame mod 32)) 1)],
             used_frames := used_frames p - 1\<rparr>
      else p)"

section \<open>Initialisation\<close>

text \<open>One usable region handed to the allocator, frame by frame.\<close>

definition pmm_free_region :: "region \<Rightarrow> pmm_state \<Rightarrow> pmm_state" where
  "pmm_free_region r p =
     (if rtype r \<noteq> 1 then p
      else let start_frame = base r div FRAME_SIZE;
               frame_count = len r div FRAME_SIZE
           in foldl (\<lambda>p f. frame_mark_free (start_frame + of_nat f) p) p [0..<unat frame_count])"

definition pmm_init :: "u32 \<Rightarrow> memmap \<Rightarrow> pmm_state" where
  "pmm_init kernel_end mm =
     (let total = highest mm div FRAME_SIZE;
          size = ((total + 31) div 32) * 4;
          addr = (kernel_end + FRAME_SIZE - 1) AND NOT (FRAME_SIZE - 1);
          p = \<lparr>bitmap = replicate (unat (size div 4)) 0xFFFFFFFF, bitmap_addr = addr,
               total_frames = total, used_frames = total, bitmap_size = size\<rparr>;
          p = foldl (\<lambda>p r. pmm_free_region r p) p (regions mm);
          last_reserved_frame = (addr + size) div FRAME_SIZE
      in foldl (\<lambda>p f. frame_mark_used (of_nat f) p) p [0..<Suc (unat last_reserved_frame)])"

section \<open>Allocation\<close>

text \<open>The scan over the words \<open>ws\<close>, with the inner scan over the 32 bits of a word.\<close>

fun alloc_scan :: "nat list \<Rightarrow> pmm_state \<Rightarrow> u32 \<times> pmm_state" where
  "alloc_scan [] p = (0, p)"
| "alloc_scan (w # ws) p =
     (if bitmap p ! w = 0xFFFFFFFF then alloc_scan ws p
      else case find (\<lambda>b. drop_bit b (bitmap p ! w) AND 1 = 0) [0..<32] of
             None \<Rightarrow> alloc_scan ws p
           | Some b \<Rightarrow>
               let frame = of_nat w * 32 + of_nat b
               in if frame \<ge> total_frames p then (0, p)
                  else (frame * FRAME_SIZE, frame_mark_used frame p))"

definition pmm_alloc_frame :: "pmm_state \<Rightarrow> u32 \<times> pmm_state" where
  "pmm_alloc_frame p = alloc_scan [0..<unat (bitmap_size p div 4)] p"

definition pmm_free_frame :: "u32 \<Rightarrow> pmm_state \<Rightarrow> pmm_state" where
  "pmm_free_frame addr p = frame_mark_free (addr div FRAME_SIZE) p"

definition pmm_total_frames :: "pmm_state \<Rightarrow> u32" where "pmm_total_frames p = total_frames p"
definition pmm_used_frames :: "pmm_state \<Rightarrow> u32" where "pmm_used_frames p = used_frames p"
definition pmm_free_frames :: "pmm_state \<Rightarrow> u32" where
  "pmm_free_frames p = total_frames p - used_frames p"
definition pmm_bitmap_addr :: "pmm_state \<Rightarrow> u32" where "pmm_bitmap_addr p = bitmap_addr p"
definition pmm_bitmap_size :: "pmm_state \<Rightarrow> u32" where "pmm_bitmap_size p = bitmap_size p"

section \<open>The set of free frames\<close>

definition frame_bit :: "pmm_state \<Rightarrow> nat \<Rightarrow> bool" where
  "frame_bit p n \<longleftrightarrow> bit (bitmap p ! (n div 32)) (n mod 32)"

definition free_frames :: "pmm_state \<Rightarrow> nat set" where
  "free_frames p = {n. n < unat (total_frames p) \<and> \<not> frame_bit p n}"

definition pmm_inv :: "pmm_state \<Rightarrow> bool" where
  "pmm_inv p \<longleftrightarrow>
     length (bitmap p) = (unat (total_frames p) + 31) div 32 \<and>
     unat (bitmap_size p) = 4 * length (bitmap p) \<and>
     unat (total_frames p) \<le> 2 ^ 20 \<and>
     (\<forall>n. unat (total_frames p) \<le> n \<and> n < 32 * length (bitmap p) \<longrightarrow> frame_bit p n) \<and>
     unat (used_frames p) + card (free_frames p) = unat (total_frames p)"

lemma finite_free_frames [simp, intro]: "finite (free_frames p)"
  by (simp add: free_frames_def)

lemma free_frames_less: "n \<in> free_frames p \<Longrightarrow> n < unat (total_frames p)"
  by (simp add: free_frames_def)

lemma and_1_eq_0_iff: "drop_bit b w AND 1 = 0 \<longleftrightarrow> \<not> bit (w :: u32) b"
  by (simp add: and_one_eq bit_iff_odd_drop_bit mod_2_eq_odd)

lemma frame_test_bit: "frame_test frame p \<longleftrightarrow> frame_bit p (unat frame)"
  by (simp add: frame_test_def frame_bit_def and_1_eq_0_iff unat_div unat_mod)

lemma bit_single: "bit (2 ^ k :: u32) j \<longleftrightarrow> j = k \<and> k < 32"
  by (auto simp: bit_simps)

text \<open>One bit of the bitmap, written with \<^verbatim>\<open>|=\<close> and \<^verbatim>\<open>&= ~\<close>.\<close>

lemma frame_bit_set:
  assumes "n < 32 * length (bitmap p)"
  shows "frame_bit (p\<lparr>bitmap := (bitmap p)[n div 32 := bitmap p ! (n div 32) OR push_bit (n mod 32) 1]\<rparr>) m
     \<longleftrightarrow> m = n \<or> frame_bit p m"
proof -
  have "n div 32 < length (bitmap p)" using assms by auto
  moreover have "m div 32 = n div 32 \<Longrightarrow> m mod 32 = n mod 32 \<Longrightarrow> m = n"
    by (metis mult_div_mod_eq)
  ultimately show ?thesis
    by (cases "m div 32 = n div 32") (auto simp: frame_bit_def bit_or_iff bit_single)
qed

lemma frame_bit_clear:
  assumes "n < 32 * length (bitmap p)"
  shows "frame_bit (p\<lparr>bitmap := (bitmap p)[n div 32 := bitmap p ! (n div 32) AND NOT (push_bit (n mod 32) 1)]\<rparr>) m
     \<longleftrightarrow> m \<noteq> n \<and> frame_bit p m"
proof -
  have "n div 32 < length (bitmap p)" using assms by auto
  moreover have "m div 32 = n div 32 \<Longrightarrow> m mod 32 = n mod 32 \<Longrightarrow> m = n"
    by (metis mult_div_mod_eq)
  ultimately show ?thesis
    by (cases "m div 32 = n div 32") (auto simp: frame_bit_def bit_and_iff bit_not_iff bit_single)
qed

lemma frame_bit_used [simp]: "frame_bit (p\<lparr>used_frames := u\<rparr>) = frame_bit p"
  by (simp add: frame_bit_def fun_eq_iff)

text \<open>A frame number below \<open>total_frames\<close> has its word and bit in the bitmap.\<close>

lemma pmm_inv_range: "pmm_inv p \<Longrightarrow> n < unat (total_frames p) \<Longrightarrow> n < 32 * length (bitmap p)"
  unfolding pmm_inv_def by linarith

lemma frame_mark_used_bit:
  assumes "pmm_inv p"
  shows "frame_bit (frame_mark_used f p) m \<longleftrightarrow> frame_bit p m \<or> (m = unat f \<and> f < total_frames p)"
proof (cases "f < total_frames p \<and> \<not> frame_bit p (unat f)")
  case True
  then have "unat f < 32 * length (bitmap p)"
    using assms by (intro pmm_inv_range) (auto simp: word_less_nat_alt)
  note bit = frame_bit_set [OF this, of m]
  have "frame_mark_used f p = p\<lparr>bitmap := (bitmap p)[unat f div 32 := bitmap p ! (unat f div 32) OR push_bit (unat f mod 32) 1]\<rparr>
      \<lparr>used_frames := used_frames p + 1\<rparr>"
    using True by (auto simp: frame_mark_used_def frame_test_bit unat_div unat_mod dest: leD)
  then show ?thesis
    using bit True by (simp only: frame_bit_used) blast
next
  case False
  then show ?thesis
    by (auto simp: frame_mark_used_def frame_test_bit not_le)
qed

lemma frame_mark_free_bit:
  assumes "pmm_inv p"
  shows "frame_bit (frame_mark_free f p) m \<longleftrightarrow> frame_bit p m \<and> \<not> (m = unat f \<and> f < total_frames p)"
proof (cases "f < total_frames p \<and> frame_bit p (unat f)")
  case True
  then have "unat f < 32 * length (bitmap p)"
    using assms by (intro pmm_inv_range) (auto simp: word_less_nat_alt)
  note bit = frame_bit_clear [OF this, of m]
  have "frame_mark_free f p = p\<lparr>bitmap := (bitmap p)[unat f div 32 := bitmap p ! (unat f div 32) AND NOT (push_bit (unat f mod 32) 1)]\<rparr>
      \<lparr>used_frames := used_frames p - 1\<rparr>"
    using True by (auto simp: frame_mark_free_def frame_test_bit unat_div unat_mod dest: leD)
  then show ?thesis
    using bit True by (simp only: frame_bit_used) blast
next
  case False
  then show ?thesis
    by (auto simp: frame_mark_free_def frame_test_bit not_le)
qed

lemma frame_mark_same [simp]:
  "total_frames (frame_mark_used f p) = total_frames p"
  "total_frames (frame_mark_free f p) = total_frames p"
  "bitmap_size (frame_mark_used f p) = bitmap_size p"
  "bitmap_size (frame_mark_free f p) = bitmap_size p"
  "bitmap_addr (frame_mark_used f p) = bitmap_addr p"
  "bitmap_addr (frame_mark_free f p) = bitmap_addr p"
  "length (bitmap (frame_mark_used f p)) = length (bitmap p)"
  "length (bitmap (frame_mark_free f p)) = length (bitmap p)"
  by (simp_all add: frame_mark_used_def frame_mark_free_def)

lemma free_frames_mark_used:
  "pmm_inv p \<Longrightarrow> free_frames (frame_mark_used f p) = free_frames p - {unat f}"
  by (auto simp: free_frames_def frame_mark_used_bit word_less_nat_alt)

lemma free_frames_mark_free:
  "pmm_inv p \<Longrightarrow> free_frames (frame_mark_free f p) =
     (if f < total_frames p then insert (unat f) (free_frames p) else free_frames p)"
  by (auto simp: free_frames_def frame_mark_free_bit word_less_nat_alt)

lemma used_frames_mark_used:
  "used_frames (frame_mark_used f p) =
     (if unat f \<in> free_frames p then used_frames p + 1 else used_frames p)"
  by (auto simp: frame_mark_used_def frame_test_bit free_frames_def word_less_nat_alt word_le_nat_alt)

lemma used_frames_mark_free:
  "used_frames (frame_mark_free f p) =
     (if f < total_frames p \<and> unat f \<notin> free_frames p then used_frames p - 1 else used_frames p)"
  by (auto simp: frame_mark_free_def frame_test_bit free_frames_def word_less_nat_alt word_le_nat_alt)

lemma pmm_inv_mark_used:
  assumes inv: "pmm_inv p"
  shows "pmm_inv (frame_mark_used f p)"
proof -
  have "unat (used_frames (frame_mark_used f p)) + card (free_frames p - {unat f}) = unat (total_frames p)"
  proof (cases "unat f \<in> free_frames p")
    case True
    then have "0 < card (free_frames p)" by (auto simp: card_gt_0_iff)
    moreover have "unat (used_frames p) + 1 < 2 ^ 32"
      using inv \<open>0 < card (free_frames p)\<close> by (auto simp: pmm_inv_def)
    ultimately show ?thesis
      using inv True by (simp add: used_frames_mark_used pmm_inv_def)
  next
    case False
    with inv show ?thesis by (simp add: used_frames_mark_used pmm_inv_def)
  qed
  with inv show ?thesis
    by (simp add: pmm_inv_def [of "frame_mark_used f p"] free_frames_mark_used frame_mark_used_bit)
      (simp add: pmm_inv_def)
qed

lemma pmm_inv_mark_free:
  assumes inv: "pmm_inv p"
  shows "pmm_inv (frame_mark_free f p)"
proof -
  have "unat (used_frames (frame_mark_free f p)) + card (free_frames (frame_mark_free f p)) =
      unat (total_frames p)"
  proof (cases "f < total_frames p \<and> unat f \<notin> free_frames p")
    case True
    then have "free_frames p \<subseteq> {..<unat (total_frames p)} - {unat f}"
      by (auto simp: free_frames_def)
    from card_mono [OF _ this] True have "card (free_frames p) < unat (total_frames p)"
      by (simp add: word_less_nat_alt) linarith
    then have "1 \<le> unat (used_frames p)"
      using inv by (simp add: pmm_inv_def)
    then have "unat (used_frames p - 1) = unat (used_frames p) - 1"
      by (simp add: unat_sub word_le_nat_alt)
    with True inv \<open>1 \<le> unat (used_frames p)\<close> show ?thesis
      by (simp add: used_frames_mark_free free_frames_mark_free) (simp add: pmm_inv_def)
  next
    case False
    with inv show ?thesis
      by (auto simp: used_frames_mark_free free_frames_mark_free insert_absorb pmm_inv_def)
  qed
  with inv show ?thesis
    by (auto simp: pmm_inv_def [of "frame_mark_free f p"] frame_mark_free_bit word_less_nat_alt)
      (simp_all add: pmm_inv_def)
qed

section \<open>First fit\<close>

lemma word_full_iff: "w = (0xFFFFFFFF :: u32) \<longleftrightarrow> (\<forall>b < 32. bit w b)"
proof -
  have m: "(0xFFFFFFFF :: u32) = mask 32" by (simp add: mask_eq_exp_minus_1)
  show ?thesis
    unfolding m by (auto intro!: bit_word_eqI simp: bit_simps)
qed

lemma find_upt_least:
  "b < n \<Longrightarrow> P b \<Longrightarrow> (\<And>c. c < b \<Longrightarrow> \<not> P c) \<Longrightarrow> find P [0..<n] = Some b"
  by (auto simp: find_Some_iff intro!: exI [of _ b])

lemma alloc_scan_first_fit:
  assumes inv: "pmm_inv p"
  shows "k \<le> length (bitmap p) \<Longrightarrow> \<forall>m < 32 * k. frame_bit p m \<Longrightarrow>
    alloc_scan [k..<length (bitmap p)] p =
      (if free_frames p = {} then (0, p)
       else (of_nat (Min (free_frames p)) * FRAME_SIZE, frame_mark_used (of_nat (Min (free_frames p))) p))"
proof (induction "length (bitmap p) - k" arbitrary: k)
  case 0
  then have "free_frames p = {}"
    using pmm_inv_range [OF inv] by (auto simp: free_frames_def)
  with 0 show ?case by simp
next
  case (Suc d)
  then have k: "k < length (bitmap p)" by simp
  then have cons: "[k..<length (bitmap p)] = k # [Suc k..<length (bitmap p)]"
    by (rule upt_conv_Cons)
  show ?case
  proof (cases "bitmap p ! k = 0xFFFFFFFF")
    case True
    have "frame_bit p m" if "m < 32 * Suc k" for m
    proof (cases "m < 32 * k")
      case False
      with that have "m div 32 = k" by (intro div_nat_eqI) auto
      with True show ?thesis by (simp add: frame_bit_def word_full_iff)
    qed (use Suc.prems in blast)
    then show ?thesis
      using Suc k True by (simp add: cons)
  next
    case False
    define b where "b = (LEAST b. \<not> bit (bitmap p ! k) b)"
    from False obtain c where c: "c < 32" "\<not> bit (bitmap p ! k) c"
      by (auto simp: word_full_iff)
    have b: "\<not> bit (bitmap p ! k) b" "b < 32"
      using LeastI [of "\<lambda>b. \<not> bit (bitmap p ! k) b" c] Least_le [of "\<lambda>b. \<not> bit (bitmap p ! k) b" c] c
      by (simp_all add: b_def)
    have least: "bit (bitmap p ! k) c" if "c < b" for c
      using not_less_Least [of c "\<lambda>b. \<not> bit (bitmap p ! k) b"] that by (auto simp: b_def)
    define f where "f = 32 * k + b"
    have fk: "f div 32 = k" "f mod 32 = b" using b by (simp_all add: f_def)
    have nf: "\<not> frame_bit p f" using b by (simp add: frame_bit_def fk)
    have below: "frame_bit p m" if "m < f" for m
    proof (cases "m < 32 * k")
      case False
      with that b have k: "m div 32 = k" by (intro div_nat_eqI) (auto simp: f_def)
      with that have "m mod 32 < b"
        using div_mult_mod_eq [of m 32] by (simp add: f_def)
      with k have "m div 32 = k \<and> m mod 32 < b" by simp
      then show ?thesis by (simp add: frame_bit_def least)
    qed (use Suc.prems in blast)
    have "f < unat (total_frames p)"
    proof (rule ccontr)
      assume "\<not> f < unat (total_frames p)"
      moreover have "f < 32 * length (bitmap p)" using k b by (simp add: f_def)
      ultimately show False using inv nf by (simp add: pmm_inv_def)
    qed
    with nf have free: "f \<in> free_frames p" by (simp add: free_frames_def)
    then have min: "Min (free_frames p) = f"
      using below by (intro Min_eqI) (force simp: free_frames_def not_less [symmetric])+
    have "find (\<lambda>b. drop_bit b (bitmap p ! k) AND 1 = 0) [0..<32] = Some b"
      using b least by (intro find_upt_least) (simp_all add: and_1_eq_0_iff)
    moreover have "of_nat k * 32 + of_nat b = (of_nat f :: u32)" by (simp add: f_def mult.commute)
    moreover have "\<not> total_frames p \<le> of_nat f"
      using \<open>f < unat (total_frames p)\<close> by (simp add: not_le of_nat_below)
    ultimately show ?thesis
      using False free min by (auto simp: cons Let_def)
  qed
qed

lemma pmm_alloc_first_fit:
  assumes "pmm_inv p"
  shows "pmm_alloc_frame p =
      (if free_frames p = {} then (0, p)
       else (of_nat (Min (free_frames p)) * FRAME_SIZE, frame_mark_used (of_nat (Min (free_frames p))) p))"
proof -
  have "unat (bitmap_size p div 4) = length (bitmap p)"
    using assms by (simp add: pmm_inv_def unat_div)
  then show ?thesis
    using alloc_scan_first_fit [OF assms, of 0] by (simp add: pmm_alloc_frame_def)
qed

section \<open>The allocator's contract\<close>

text \<open>The frame number of a physical address, and the address of a frame.\<close>

definition frame_no :: "u32 \<Rightarrow> nat" where
  "frame_no a = unat a div 4096"

definition frame_addr :: "nat \<Rightarrow> u32" where
  "frame_addr f = of_nat f * FRAME_SIZE"

lemma unat_frame_addr: "f < 2 ^ 20 \<Longrightarrow> unat (frame_addr f) = f * 4096"
proof -
  assume "f < 2 ^ 20"
  then have "f * 4096 < 2 ^ 32" by simp
  then have "unat (word_of_nat (f * 4096) :: u32) = f * 4096"
    by (rule unat_of_nat_small)
  then show ?thesis by (simp add: frame_addr_def FRAME_SIZE_def)
qed

lemma frame_no_addr [simp]: "f < 2 ^ 20 \<Longrightarrow> frame_no (frame_addr f) = f"
  by (simp add: frame_no_def unat_frame_addr)

lemma frame_no_less: "frame_no a < 2 ^ 20"
  using unat_u32_less [of a] by (simp add: frame_no_def less_mult_imp_div_less)

lemma frame_addr_no: "4096 dvd unat a \<Longrightarrow> frame_addr (frame_no a) = a"
  using unat_frame_addr [OF frame_no_less [of a]] by (simp add: word_unat_eq_iff frame_no_def)

locale frame_allocator =
  fixes alloc :: "'s \<Rightarrow> u32 \<times> 's"
    and free :: "u32 \<Rightarrow> 's \<Rightarrow> 's"
    and free_set :: "'s \<Rightarrow> nat set"
    and limit :: "'s \<Rightarrow> nat"
    and inv :: "'s \<Rightarrow> bool"
  assumes finite_free: "inv s \<Longrightarrow> finite (free_set s)"
    and free_less: "inv s \<Longrightarrow> f \<in> free_set s \<Longrightarrow> f < limit s"
    and limit_le: "inv s \<Longrightarrow> limit s \<le> 2 ^ 20"
    and inv_alloc: "inv s \<Longrightarrow> inv (snd (alloc s))"
    and inv_free: "inv s \<Longrightarrow> inv (free a s)"
    and limit_alloc: "inv s \<Longrightarrow> limit (snd (alloc s)) = limit s"
    and limit_free: "inv s \<Longrightarrow> limit (free a s) = limit s"
    and alloc_none: "inv s \<Longrightarrow> free_set s = {} \<Longrightarrow> alloc s = (0, s)"
    and alloc_least: "inv s \<Longrightarrow> free_set s \<noteq> {} \<Longrightarrow>
          fst (alloc s) = frame_addr (Min (free_set s)) \<and>
          free_set (snd (alloc s)) = free_set s - {Min (free_set s)}"
    and free_insert: "inv s \<Longrightarrow>
          free_set (free a s) = (if frame_no a < limit s then insert (frame_no a) (free_set s) else free_set s)"
begin

lemma alloc_cases:
  assumes "inv s" and "alloc s = (a, s')" and "a \<noteq> 0"
  shows "frame_no a \<in> free_set s" "a = frame_addr (frame_no a)" "4096 dvd unat a"
    "free_set s' = free_set s - {frame_no a}" "\<And>f. f \<in> free_set s \<Longrightarrow> frame_no a \<le> f"
proof -
  from assms have ne: "free_set s \<noteq> {}"
    by (metis alloc_none fst_conv)
  have fin: "finite (free_set s)" by (rule finite_free [OF assms(1)])
  have m: "Min (free_set s) \<in> free_set s" using ne fin by simp
  then have lt: "Min (free_set s) < 2 ^ 20"
    using free_less [OF assms(1)] limit_le [OF assms(1)] by fastforce
  from alloc_least [OF assms(1) ne] assms(2)
  have a: "a = frame_addr (Min (free_set s))" and s': "free_set s' = free_set s - {Min (free_set s)}"
    by simp_all
  have no: "frame_no a = Min (free_set s)" using a lt by simp
  show "frame_no a \<in> free_set s" using m no by simp
  show "a = frame_addr (frame_no a)" using a no by simp
  show "4096 dvd unat a" using a unat_frame_addr [OF lt] by simp
  show "free_set s' = free_set s - {frame_no a}" using s' no by simp
  show "\<And>f. f \<in> free_set s \<Longrightarrow> frame_no a \<le> f" using fin no by simp
qed

text \<open>While frame 0 is in use, 0 is returned exactly when memory is exhausted.\<close>

lemma alloc_zero_iff:
  assumes "inv s" and "0 \<notin> free_set s"
  shows "fst (alloc s) = 0 \<longleftrightarrow> free_set s = {}"
proof
  assume z: "fst (alloc s) = 0"
  show "free_set s = {}"
  proof (rule ccontr)
    assume ne: "free_set s \<noteq> {}"
    have m: "Min (free_set s) \<in> free_set s" using ne finite_free [OF assms(1)] by simp
    then have "Min (free_set s) < 2 ^ 20"
      using free_less [OF assms(1)] limit_le [OF assms(1)] by fastforce
    from unat_frame_addr [OF this] alloc_least [OF assms(1) ne] z
    have "Min (free_set s) = 0" by simp
    with m assms(2) show False by simp
  qed
qed (simp add: alloc_none assms)

text \<open>A free frame 0 is the least one, and its address is 0.\<close>

lemma alloc_frame_zero:
  assumes "inv s" and "0 \<in> free_set s"
  shows "fst (alloc s) = 0" "free_set (snd (alloc s)) = free_set s - {0}"
proof -
  have "Min (free_set s) = 0"
    using Min_le [OF finite_free [OF assms(1)] assms(2)] by simp
  then show "fst (alloc s) = 0" "free_set (snd (alloc s)) = free_set s - {0}"
    using alloc_least [OF assms(1)] assms(2) by (auto simp: frame_addr_def)
qed

lemma alloc_zero_cases: "inv s \<Longrightarrow> fst (alloc s) = 0 \<longleftrightarrow> free_set s = {} \<or> 0 \<in> free_set s"
  using alloc_zero_iff alloc_frame_zero(1) alloc_none by (cases "0 \<in> free_set s") auto

text \<open>Giving a frame straight back restores the free set.\<close>

lemma free_alloc:
  assumes "inv s" and "alloc s = (a, s')" and "a \<noteq> 0"
  shows "free_set (free a s') = free_set s"
proof -
  have "inv s'" "limit s' = limit s"
    using inv_alloc [OF assms(1)] limit_alloc [OF assms(1)] assms(2) by simp_all
  then show ?thesis
    using free_insert [of s' a] alloc_cases [OF assms] free_less [OF assms(1)] by (simp add: insert_absorb)
qed

end

lemma frame_no_div: "unat (a div FRAME_SIZE) = frame_no a"
  by (simp add: frame_no_def FRAME_SIZE_def unat_div)

interpretation fa: frame_allocator pmm_alloc_frame pmm_free_frame free_frames
  "\<lambda>p. unat (total_frames p)" pmm_inv
proof unfold_locales
  fix p :: pmm_state and a f
  assume inv: "pmm_inv p"
  show "finite (free_frames p)" by simp
  show "f \<in> free_frames p \<Longrightarrow> f < unat (total_frames p)" by (rule free_frames_less)
  show "unat (total_frames p) \<le> 2 ^ 20" using inv by (simp add: pmm_inv_def)
  show "pmm_inv (snd (pmm_alloc_frame p))"
    using inv by (simp add: pmm_alloc_first_fit pmm_inv_mark_used)
  show "pmm_inv (pmm_free_frame a p)"
    using inv by (simp add: pmm_free_frame_def pmm_inv_mark_free)
  show "unat (total_frames (snd (pmm_alloc_frame p))) = unat (total_frames p)"
    using inv by (simp add: pmm_alloc_first_fit)
  show "unat (total_frames (pmm_free_frame a p)) = unat (total_frames p)"
    by (simp add: pmm_free_frame_def)
  show "free_frames p = {} \<Longrightarrow> pmm_alloc_frame p = (0, p)"
    using inv by (simp add: pmm_alloc_first_fit)
  show "free_frames (pmm_free_frame a p) =
      (if frame_no a < unat (total_frames p) then insert (frame_no a) (free_frames p) else free_frames p)"
    using inv by (simp add: pmm_free_frame_def free_frames_mark_free frame_no_div word_less_nat_alt)
  assume ne: "free_frames p \<noteq> {}"
  then have "Min (free_frames p) < unat (total_frames p)"
    using Min_in [OF finite_free_frames ne] free_frames_less by blast
  then show "fst (pmm_alloc_frame p) = frame_addr (Min (free_frames p)) \<and>
      free_frames (snd (pmm_alloc_frame p)) = free_frames p - {Min (free_frames p)}"
    using inv ne by (simp add: pmm_alloc_first_fit frame_addr_def free_frames_mark_used unat_of_nat_below)
qed

section \<open>What initialisation leaves free\<close>

text \<open>The frames a usable region covers, rounded as \<^verbatim>\<open>pmm_init\<close> rounds them.\<close>

definition region_frames :: "region \<Rightarrow> nat set" where
  "region_frames r =
     (if rtype r = 1
      then {unat (base r) div 4096 ..< unat (base r) div 4096 + unat (len r) div 4096} else {})"

definition last_reserved :: "u32 \<Rightarrow> memmap \<Rightarrow> nat" where
  "last_reserved kernel_end mm =
     unat ((((kernel_end + FRAME_SIZE - 1) AND NOT (FRAME_SIZE - 1))
            + ((highest mm div FRAME_SIZE + 31) div 32) * 4) div FRAME_SIZE)"

lemma mark_free_foldl:
  assumes "pmm_inv p" and "unat start + n < 2 ^ 32"
  shows "pmm_inv (foldl (\<lambda>p f. frame_mark_free (start + of_nat f) p) p [0..<n]) \<and>
    total_frames (foldl (\<lambda>p f. frame_mark_free (start + of_nat f) p) p [0..<n]) = total_frames p \<and>
    free_frames (foldl (\<lambda>p f. frame_mark_free (start + of_nat f) p) p [0..<n]) =
      free_frames p \<union> {f. unat start \<le> f \<and> f < unat start + n \<and> f < unat (total_frames p)}"
  using assms(2)
proof (induction n)
  case 0
  with assms(1) show ?case by auto
next
  case (Suc n)
  define q where "q = foldl (\<lambda>p f. frame_mark_free (start + of_nat f) p) p [0..<n]"
  have q: "pmm_inv q" "total_frames q = total_frames p"
    "free_frames q = free_frames p \<union> {f. unat start \<le> f \<and> f < unat start + n \<and> f < unat (total_frames p)}"
    using Suc.IH Suc.prems unfolding q_def by simp_all
  have n: "unat (start + of_nat n) = unat start + n"
    using Suc.prems by (intro unat_add_small) simp
  have step: "foldl (\<lambda>p f. frame_mark_free (start + of_nat f) p) p [0..<Suc n] =
      frame_mark_free (start + of_nat n) q"
    unfolding q_def upt_Suc_append [OF le0] foldl_append foldl.simps by (rule refl)
  show ?case
    unfolding step using q interval_grow [of "unat start" n "unat (total_frames p)" "free_frames p"]
    by (simp only: pmm_inv_mark_free free_frames_mark_free word_less_nat_alt frame_mark_same n)
qed

lemma free_region:
  assumes "pmm_inv p"
  shows "pmm_inv (pmm_free_region r p) \<and> total_frames (pmm_free_region r p) = total_frames p \<and>
    free_frames (pmm_free_region r p) =
      free_frames p \<union> {f \<in> region_frames r. f < unat (total_frames p)}"
proof -
  define q where "q = foldl (\<lambda>p f. frame_mark_free (base r div FRAME_SIZE + of_nat f) p) p
      [0..<frame_no (len r)]"
  have "frame_no (base r) + frame_no (len r) < 2 ^ 32"
    using frame_no_less [of "base r"] frame_no_less [of "len r"] by simp
  then have q: "pmm_inv q" "total_frames q = total_frames p"
    "free_frames q = free_frames p \<union>
       {f. frame_no (base r) \<le> f \<and> f < frame_no (base r) + frame_no (len r) \<and> f < unat (total_frames p)}"
    using mark_free_foldl [OF assms, of "base r div FRAME_SIZE" "frame_no (len r)"]
    unfolding q_def frame_no_div by simp_all
  have "pmm_free_region r p = (if rtype r \<noteq> 1 then p else q)"
    by (simp add: pmm_free_region_def q_def frame_no_div)
  with q assms show ?thesis
    by (auto simp: region_frames_def frame_no_def)
qed

lemma free_regions:
  assumes "pmm_inv p"
  shows "pmm_inv (foldl (\<lambda>p r. pmm_free_region r p) p rs) \<and>
    total_frames (foldl (\<lambda>p r. pmm_free_region r p) p rs) = total_frames p \<and>
    free_frames (foldl (\<lambda>p r. pmm_free_region r p) p rs) =
      free_frames p \<union> {f. (\<exists>r \<in> set rs. f \<in> region_frames r) \<and> f < unat (total_frames p)}"
  using assms
proof (induction rs arbitrary: p)
  case (Cons r rs)
  from free_region [OF Cons.prems, of r] Cons.IH [of "pmm_free_region r p"]
  show ?case by auto
qed simp

lemma mark_used_foldl:
  assumes "pmm_inv p" and "n \<le> 2 ^ 32"
  shows "pmm_inv (foldl (\<lambda>p f. frame_mark_used (of_nat f) p) p [0..<n]) \<and>
    total_frames (foldl (\<lambda>p f. frame_mark_used (of_nat f) p) p [0..<n]) = total_frames p \<and>
    free_frames (foldl (\<lambda>p f. frame_mark_used (of_nat f) p) p [0..<n]) = free_frames p - {..<n}"
  using assms(2)
proof (induction n)
  case 0
  with assms(1) show ?case by simp
next
  case (Suc n)
  define q where "q = foldl (\<lambda>p f. frame_mark_used (of_nat f) p) p [0..<n]"
  have q: "pmm_inv q" "total_frames q = total_frames p" "free_frames q = free_frames p - {..<n}"
    using Suc.IH Suc.prems unfolding q_def by simp_all
  have n: "unat (word_of_nat n :: u32) = n"
    using Suc.prems by (intro unat_of_nat_small) simp
  have step: "foldl (\<lambda>p f. frame_mark_used (of_nat f) p) p [0..<Suc n] = frame_mark_used (of_nat n) q"
    unfolding q_def upt_Suc_append [OF le0] foldl_append foldl.simps by (rule refl)
  show ?case
    unfolding step using q interval_shrink [OF q(3)]
    by (simp only: pmm_inv_mark_used free_frames_mark_used frame_mark_same n)
qed

lemma pmm_init_start:
  fixes total addr :: u32
  assumes "unat total < 2 ^ 20"
  defines "sz \<equiv> ((total + 31) div 32) * 4"
  defines "p \<equiv> \<lparr>bitmap = replicate (unat (sz div 4)) 0xFFFFFFFF, bitmap_addr = addr,
                 total_frames = total, used_frames = total, bitmap_size = sz\<rparr>"
  shows "pmm_inv p \<and> free_frames p = {}"
proof -
  have full: "bit (0xFFFFFFFF :: u32) b" if "b < 32" for b
    using word_full_iff [THEN iffD1, OF refl] that by blast
  have words: "unat ((total + 31) div 32) = (unat total + 31) div 32"
    using assms(1) by (simp add: unat_div)
  then have "unat ((total + 31) div 32) * unat (4 :: u32) < 2 ^ 32"
    using assms(1) by simp
  then have sz: "unat sz = 4 * ((unat total + 31) div 32)"
    using words by (simp add: sz_def unat_word_ariths)
  then have "unat (sz div 4) = (unat total + 31) div 32"
    by (simp add: unat_div)
  moreover have "frame_bit p n" if "n < 32 * ((unat total + 31) div 32)" for n
    using that calculation full [of "n mod 32"]
    by (simp add: frame_bit_def p_def less_mult_imp_div_less mult.commute)
  ultimately show ?thesis
    using assms(1) sz by (auto simp: pmm_inv_def free_frames_def) (auto simp: p_def)
qed

lemma pmm_init_spec:
  "pmm_inv (pmm_init kernel_end mm) \<and>
   total_frames (pmm_init kernel_end mm) = highest mm div FRAME_SIZE \<and>
   free_frames (pmm_init kernel_end mm) =
     {f. f < frame_no (highest mm) \<and> (\<exists>r \<in> set (regions mm). f \<in> region_frames r) \<and>
         last_reserved kernel_end mm < f}"
proof -
  define total sz addr where "total = highest mm div FRAME_SIZE" and "sz = ((total + 31) div 32) * 4"
    and "addr = (kernel_end + FRAME_SIZE - 1) AND NOT (FRAME_SIZE - 1)"
  define p where "p = \<lparr>bitmap = replicate (unat (sz div 4)) 0xFFFFFFFF, bitmap_addr = addr,
                 total_frames = total, used_frames = total, bitmap_size = sz\<rparr>"
  define q where "q = foldl (\<lambda>p r. pmm_free_region r p) p (regions mm)"
  define n where "n = Suc (last_reserved kernel_end mm)"
  have init: "pmm_init kernel_end mm = foldl (\<lambda>p f. frame_mark_used (of_nat f) p) q [0..<n]"
    unfolding pmm_init_def Let_def n_def q_def p_def last_reserved_def total_def sz_def addr_def
    by (rule refl)
  have tot: "total_frames p = total" "unat total = frame_no (highest mm)"
    by (simp_all add: p_def total_def frame_no_div)
  have p: "pmm_inv p" "free_frames p = {}"
    using pmm_init_start [of total addr] frame_no_less [of "highest mm"] tot(2)
    by (simp_all add: p_def sz_def)
  note q = free_regions [OF p(1), of "regions mm", folded q_def]
  have "n \<le> 2 ^ 32"
    using unat_u32_less unfolding n_def last_reserved_def by (simp only: Suc_le_eq)
  then show ?thesis
    unfolding init using mark_used_foldl [of q n] q p tot
    by (auto simp: total_def n_def simp del: upt_Suc)
qed

section \<open>A concrete machine\<close>

text \<open>A machine with 16 MB of usable memory and a kernel that ends at 1 MB.\<close>

definition demo_map :: memmap where
  "demo_map = \<lparr>total_kb = 0x4000, usable_kb = 0x4000, highest = 0x1000000,
     regions = [\<lparr>base = 0, len = 0x1000000, rtype = 1\<rparr>]\<rparr>"

definition demo_pmm :: pmm_state where
  "demo_pmm = pmm_init 0x100000 demo_map"

lemma demo_pmm: "pmm_inv demo_pmm" "free_frames demo_pmm = {257..<4096}" "total_frames demo_pmm = 4096"
proof -
  have l: "last_reserved 0x100000 demo_map = 256"
    by (simp add: last_reserved_def demo_map_def FRAME_SIZE_def)
  note sp = pmm_init_spec [of "0x100000" demo_map, folded demo_pmm_def]
  show "pmm_inv demo_pmm" using sp by blast
  have h: "highest demo_map div FRAME_SIZE = 4096" "frame_no (highest demo_map) = 4096"
    by (simp_all add: demo_map_def FRAME_SIZE_def frame_no_def)
  then show "total_frames demo_pmm = 4096" using sp by simp
  have r: "(\<exists>r \<in> set (regions demo_map). f \<in> region_frames r) \<longleftrightarrow> f < 4096" for f
    by (simp add: demo_map_def region_frames_def)
  show "free_frames demo_pmm = {257..<4096}"
    using sp interval_from [of 4096 256] by (simp only: h l r) simp
qed

lemma pmm_free_frames_card: "pmm_inv p \<Longrightarrow> unat (pmm_free_frames p) = card (free_frames p)"
proof -
  assume inv: "pmm_inv p"
  then have u: "unat (used_frames p) + card (free_frames p) = unat (total_frames p)"
    by (simp add: pmm_inv_def)
  then have "used_frames p \<le> total_frames p" by (simp add: word_le_nat_alt)
  then have "unat (total_frames p - used_frames p) = unat (total_frames p) - unat (used_frames p)"
    by (rule unat_sub)
  with u show ?thesis by (simp add: pmm_free_frames_def)
qed

section \<open>Properties\<close>

text \<open>
  C5: whatever memory map it is given, \<open>pmm_init\<close> establishes the allocator's invariant; the free
  frames afterwards are exactly the frames of the usable regions (rounded as the code rounds
  them) that lie below the highest usable address and above the kernel and the bitmap, and the
  frame counters report their number.
\<close>

theorem pmm_init_correct:
  "pmm_inv (pmm_init kernel_end mm) \<and>
   free_frames (pmm_init kernel_end mm) =
     {f. f < frame_no (highest mm) \<and> (\<exists>r \<in> set (regions mm). f \<in> region_frames r) \<and>
         last_reserved kernel_end mm < f} \<and>
   unat (pmm_total_frames (pmm_init kernel_end mm)) = frame_no (highest mm) \<and>
   unat (pmm_free_frames (pmm_init kernel_end mm)) = card (free_frames (pmm_init kernel_end mm))"
  using pmm_init_spec [of kernel_end mm] pmm_free_frames_card
  by (simp add: pmm_total_frames_def frame_no_div)

text \<open>
  C4: allocation is first fit. With no free frame, 0 is returned and nothing changes; otherwise
  the address of the least free frame is returned, precisely that frame leaves the free set, the
  free counter drops by one, and the invariant is kept. So 0 is returned in two cases: no frame is
  free, or frame 0 is, whose address the caller cannot tell from a failure.
\<close>

theorem pmm_alloc_correct:
  assumes "pmm_inv p"
  shows "pmm_inv (snd (pmm_alloc_frame p)) \<and>
    (if free_frames p = {} then pmm_alloc_frame p = (0, p)
     else fst (pmm_alloc_frame p) = frame_addr (Min (free_frames p)) \<and>
          free_frames (snd (pmm_alloc_frame p)) = free_frames p - {Min (free_frames p)} \<and>
          unat (pmm_free_frames (snd (pmm_alloc_frame p))) + 1 = unat (pmm_free_frames p)) \<and>
    (fst (pmm_alloc_frame p) = 0 \<longleftrightarrow> free_frames p = {} \<or> 0 \<in> free_frames p)"
proof (cases "free_frames p = {}")
  case True
  with assms show ?thesis by (simp add: fa.alloc_none)
next
  case False
  then have "0 < card (free_frames p)" by (simp add: card_gt_0_iff)
  with False fa.alloc_least [OF assms False] fa.inv_alloc [OF assms] show ?thesis
    using pmm_free_frames_card [OF assms] pmm_free_frames_card [OF fa.inv_alloc [OF assms]]
      fa.alloc_zero_cases [OF assms] by simp
qed

theorem pmm_alloc_correct_witness:
  "fst (pmm_alloc_frame demo_pmm) = 0x101000 \<and> free_frames (snd (pmm_alloc_frame demo_pmm)) = {258..<4096}"
proof -
  have "Min {257..<4096 :: nat} = 257" by (rule Min_interval) simp
  moreover have "{257..<4096 :: nat} - {257} = {258..<4096}" by (rule interval_tail [of 257 4096, simplified])
  ultimately show ?thesis
    using pmm_alloc_correct [OF demo_pmm(1)] by (simp add: demo_pmm frame_addr_def FRAME_SIZE_def)
qed

text \<open>
  C6: freeing puts exactly the frame of the address back, ignores addresses beyond the last frame,
  does nothing at all on a frame that is free already (a double free cannot corrupt the counter),
  and undoes an allocation.
\<close>

theorem pmm_free_correct:
  assumes "pmm_inv p"
  shows "pmm_inv (pmm_free_frame a p) \<and>
    free_frames (pmm_free_frame a p) =
      (if frame_no a < unat (total_frames p) then insert (frame_no a) (free_frames p) else free_frames p) \<and>
    (frame_no a \<in> free_frames p \<longrightarrow> pmm_free_frame a p = p) \<and>
    (\<forall>b q. pmm_alloc_frame p = (b, q) \<and> b \<noteq> 0 \<longrightarrow>
       free_frames (pmm_free_frame b q) = free_frames p \<and> pmm_free_frames (pmm_free_frame b q) = pmm_free_frames p)"
proof -
  have "pmm_free_frame a p = p" if "frame_no a \<in> free_frames p"
    using that by (simp add: pmm_free_frame_def frame_mark_free_def frame_test_bit frame_no_div free_frames_def)
  moreover have "pmm_free_frames (pmm_free_frame b q) = pmm_free_frames p"
    "free_frames (pmm_free_frame b q) = free_frames p"
    if "pmm_alloc_frame p = (b, q)" "b \<noteq> 0" for b q
  proof -
    have q: "pmm_inv q" using fa.inv_alloc [OF assms] that(1) by simp
    show eq: "free_frames (pmm_free_frame b q) = free_frames p"
      by (rule fa.free_alloc [OF assms that])
    with pmm_free_frames_card [OF assms] pmm_free_frames_card [OF fa.inv_free [OF q], of b]
    show "pmm_free_frames (pmm_free_frame b q) = pmm_free_frames p"
      by (simp add: word_unat_eq_iff)
  qed
  ultimately show ?thesis
    by (intro conjI allI impI fa.inv_free [OF assms] fa.free_insert [OF assms]) (blast+)
qed

theorem pmm_free_correct_witness:
  "free_frames (pmm_free_frame 0x50000 demo_pmm) = insert 80 {257..<4096} \<and>
   pmm_free_frame 0x200000 demo_pmm = demo_pmm"
  using pmm_free_correct [OF demo_pmm(1), of "0x50000"] pmm_free_correct [OF demo_pmm(1), of "0x200000"]
  by (simp add: demo_pmm frame_no_def)

end
