(* ===== verification/Paging.thy ===== *)
theory Paging
  imports Pmm
begin

text \<open>
  Paging (\<^verbatim>\<open>paging.c\<close>). The page directory and the page tables are frames of memory, reached at
  their physical addresses through the identity map: an entry is a 32-bit load or store at
  \<open>slot base index\<close>. The MMU's translation cache is the field \<open>tlb\<close>, from virtual page numbers
  to cached entries; \<^verbatim>\<open>invlpg\<close> drops one page and loading CR3 drops all.

  The specification is the partial map \<open>pte\<close> from virtual addresses to page-table entries, as
  the MMU would walk the tables. \<open>paging_inv\<close> says that the directory and all the tables are
  distinct page-aligned frames below \<open>identity_end\<close> that the frame allocator has handed out, and
  that the two counters are right. Under it, mapping and unmapping update \<open>pte\<close> at exactly one
  page, never disturb another mapping, and keep the cache coherent with the tables. The locale
  \<open>page_mapper\<close> states this contract for the heap; it is interpreted here.
\<close>

definition PAGE_SIZE :: u32 where "PAGE_SIZE = 4096"
definition PAGE_PRESENT :: u32 where "PAGE_PRESENT = 0x1"
definition PAGE_WRITE :: u32 where "PAGE_WRITE = 0x2"
definition PAGE_UNMAPPED :: u32 where "PAGE_UNMAPPED = 0xFFFFFFFF"
definition IDENTITY_BYTES :: u32 where "IDENTITY_BYTES = 16 * 1024 * 1024"

definition DIR_INDEX :: "u32 \<Rightarrow> u32" where "DIR_INDEX v = drop_bit 22 v"
definition TBL_INDEX :: "u32 \<Rightarrow> u32" where "TBL_INDEX v = drop_bit 12 v AND 0x3FF"
definition FRAME_OF :: "u32 \<Rightarrow> u32" where "FRAME_OF e = e AND 0xFFFFF000"

record paging_state =
  page_directory :: u32
  dir_phys :: u32
  identity_end :: u32
  table_count :: u32
  mapped_pages :: u32
  paging_enabled :: bool
  cr3 :: u32
  tlb :: "u32 \<Rightarrow> u32 option"

record paging_layer = pmm_layer +
  paging :: paging_state

text \<open>\<^verbatim>\<open>base[index]\<close> for a \<^verbatim>\<open>uint32_t*\<close> base.\<close>

definition slot :: "u32 \<Rightarrow> u32 \<Rightarrow> u32" where
  "slot b i = b + 4 * i"

definition vpage :: "u32 \<Rightarrow> u32" where
  "vpage v = drop_bit 12 v"

definition flush_tlb_page :: "u32 \<Rightarrow> 'a paging_layer_scheme \<Rightarrow> 'a paging_layer_scheme" where
  "flush_tlb_page virt s = s\<lparr>paging := (paging s)\<lparr>tlb := (tlb (paging s))(vpage virt := None)\<rparr>\<rparr>"

definition get_table :: "u32 \<Rightarrow> bool \<Rightarrow> 'a paging_layer_scheme \<Rightarrow> u32 \<times> 'a paging_layer_scheme" where
  "get_table virt create s =
     (let di = DIR_INDEX virt;
          e = ld32 (mem s) (slot (page_directory (paging s)) di)
      in if e AND PAGE_PRESENT \<noteq> 0 then (FRAME_OF e, s)
         else if \<not> create then (0, s)
         else let (frame, p) = pmm_alloc_frame (pmm s); s = s\<lparr>pmm := p\<rparr>
              in if frame = 0 then (0, s)
                 else if frame \<ge> identity_end (paging s)
                 then (0, s\<lparr>pmm := pmm_free_frame frame (pmm s)\<rparr>)
                 else let s = s\<lparr>mem := memset (mem s) frame 0 4096\<rparr>;
                          s = s\<lparr>mem := st32 (mem s) (slot (page_directory (paging s)) di)
                                        (frame OR PAGE_PRESENT OR PAGE_WRITE)\<rparr>
                      in (frame, s\<lparr>paging := (paging s)\<lparr>table_count := table_count (paging s) + 1\<rparr>\<rparr>))"

definition paging_map ::
  "u32 \<Rightarrow> u32 \<Rightarrow> u32 \<Rightarrow> 'a paging_layer_scheme \<Rightarrow> bool \<times> 'a paging_layer_scheme" where
  "paging_map virt phys flags s =
     (let (table, s) = get_table virt True s
      in if table = 0 then (False, s)
         else let ti = TBL_INDEX virt;
                  s = (if ld32 (mem s) (slot table ti) AND PAGE_PRESENT = 0
                       then s\<lparr>paging := (paging s)\<lparr>mapped_pages := mapped_pages (paging s) + 1\<rparr>\<rparr> else s);
                  s = s\<lparr>mem := st32 (mem s) (slot table ti)
                                (FRAME_OF phys OR (flags AND 0xFFF) OR PAGE_PRESENT)\<rparr>
              in (True, flush_tlb_page virt s))"

definition paging_unmap :: "u32 \<Rightarrow> 'a paging_layer_scheme \<Rightarrow> bool \<times> 'a paging_layer_scheme" where
  "paging_unmap virt s =
     (let (table, s) = get_table virt False s
      in if table = 0 then (False, s)
         else let ti = TBL_INDEX virt
              in if ld32 (mem s) (slot table ti) AND PAGE_PRESENT = 0 then (False, s)
                 else let s = s\<lparr>mem := st32 (mem s) (slot table ti) 0\<rparr>;
                          s = s\<lparr>paging := (paging s)\<lparr>mapped_pages := mapped_pages (paging s) - 1\<rparr>\<rparr>
                      in (True, flush_tlb_page virt s))"

definition paging_translate :: "u32 \<Rightarrow> 'a paging_layer_scheme \<Rightarrow> u32" where
  "paging_translate virt s =
     (let (table, s) = get_table virt False s
      in if table = 0 then PAGE_UNMAPPED
         else let entry = ld32 (mem s) (slot table (TBL_INDEX virt))
              in if entry AND PAGE_PRESENT = 0 then PAGE_UNMAPPED
                 else FRAME_OF entry OR (virt AND 0xFFF))"

text \<open>The identity-map loop of \<^verbatim>\<open>paging_init\<close>: the pages still to map, in order.\<close>

fun identity_map :: "u32 list \<Rightarrow> 'a paging_layer_scheme \<Rightarrow> bool \<times> 'a paging_layer_scheme" where
  "identity_map [] s = (True, s)"
| "identity_map (addr # addrs) s =
     (let (ok, s) = paging_map addr addr PAGE_WRITE s
      in if \<not> ok then (False, kprint ''FATAL: ran out of frames building the identity map.\<newline>'' s)
         else identity_map addrs s)"

definition load_cr3 :: "u32 \<Rightarrow> 'a paging_layer_scheme \<Rightarrow> 'a paging_layer_scheme" where
  "load_cr3 dir s = s\<lparr>paging := (paging s)\<lparr>cr3 := dir, tlb := \<lambda>_. None\<rparr>\<rparr>"

text \<open>How much is identity-mapped: 16 MB, or all of a smaller memory.\<close>

definition identity_limit :: "u32 \<Rightarrow> u32" where
  "identity_limit hi =
     (if hi \<noteq> 0 \<and> hi < IDENTITY_BYTES then hi AND NOT (PAGE_SIZE - 1) else IDENTITY_BYTES)"

definition paging_init :: "'a paging_layer_scheme \<Rightarrow> 'a paging_layer_scheme" where
  "paging_init s =
     (let iend = identity_limit (mem_highest_addr s);
          s = s\<lparr>paging := (paging s)\<lparr>identity_end := iend\<rparr>\<rparr>;
          (dir, p) = pmm_alloc_frame (pmm s);
          s = s\<lparr>pmm := p, paging := (paging s)\<lparr>dir_phys := dir\<rparr>\<rparr>
      in if dir = 0 then kprint ''FATAL: no frame for the page directory.\<newline>'' s
         else let s = s\<lparr>paging := (paging s)\<lparr>page_directory := dir\<rparr>\<rparr>;
                  s = s\<lparr>mem := memset (mem s) dir 0 4096\<rparr>;
                  (ok, s) = identity_map (map (\<lambda>i. of_nat i * PAGE_SIZE) [0..<unat (iend div PAGE_SIZE)]) s
              in if \<not> ok then s
                 else let s = load_cr3 dir s in s\<lparr>paging := (paging s)\<lparr>paging_enabled := True\<rparr>\<rparr>)"

text \<open>CR2, the faulting address, is an argument of the handler.\<close>

definition page_fault_handler :: "u32 \<Rightarrow> u32 \<Rightarrow> 'a machine_scheme \<Rightarrow> 'a machine_scheme" where
  "page_fault_handler cr2 err_code s =
     (let s = kprint ''\<newline>*** PAGE FAULT ***\<newline>'' s;
          s = kprint ''  address : '' s;
          s = kprint_hex cr2 s;
          s = kprint ''\<newline>  cause   : '' s;
          s = kprint (if err_code AND 0x1 \<noteq> 0 then ''protection violation'' else ''page not present'') s;
          s = kprint '', '' s;
          s = kprint (if err_code AND 0x2 \<noteq> 0 then ''on write'' else ''on read'') s;
          s = kprint '', '' s;
          s = kprint (if err_code AND 0x4 \<noteq> 0 then ''user mode'' else ''kernel mode'') s;
          s = (if err_code AND 0x10 \<noteq> 0 then kprint '', instruction fetch'' s else s);
          s = kprint ''\<newline>  code    : '' s;
          s = kprint_hex err_code s
      in kprint ''\<newline>'' s)"

definition paging_is_enabled :: "'a paging_layer_scheme \<Rightarrow> bool" where
  "paging_is_enabled s = paging_enabled (paging s)"
definition paging_dir_phys :: "'a paging_layer_scheme \<Rightarrow> u32" where
  "paging_dir_phys s = dir_phys (paging s)"
definition paging_identity_end :: "'a paging_layer_scheme \<Rightarrow> u32" where
  "paging_identity_end s = identity_end (paging s)"
definition paging_table_count :: "'a paging_layer_scheme \<Rightarrow> u32" where
  "paging_table_count s = table_count (paging s)"
definition paging_mapped_pages :: "'a paging_layer_scheme \<Rightarrow> u32" where
  "paging_mapped_pages s = mapped_pages (paging s)"

section \<open>Address arithmetic\<close>

lemma FRAME_OF_alt: "FRAME_OF e = push_bit 12 (drop_bit 12 e)"
proof -
  have m: "(0xFFFFF000 :: u32) = push_bit 12 (mask 20)" by (simp add: mask_eq_exp_minus_1)
  have "bit (FRAME_OF e) n = bit (push_bit 12 (drop_bit 12 e)) n" if "n < 32" for n
    using that unfolding FRAME_OF_def m by (cases "n < 12") (auto simp: bit_simps)
  then show ?thesis
    by (auto intro: bit_word_eqI)
qed

lemma unat_FRAME_OF: "unat (FRAME_OF e) = unat e div 4096 * 4096"
proof -
  have "FRAME_OF e = e - take_bit 12 e"
    using bits_ident [of 12 e] by (simp add: FRAME_OF_alt algebra_simps)
  moreover have "unat (take_bit 12 e) = unat e mod 4096"
    by (simp add: take_bit_eq_mod unat_mod)
  moreover have "take_bit 12 e \<le> e"
    by (simp add: word_le_nat_alt calculation)
  ultimately show ?thesis
    by (simp add: unat_sub minus_mod_eq_div_mult)
qed

lemma FRAME_OF_offset: "FRAME_OF v OR (v AND 0xFFF) = v"
proof -
  have m: "(0xFFF :: u32) = mask 12" by (simp add: mask_eq_exp_minus_1)
  have "bit (FRAME_OF v OR (v AND 0xFFF)) n = bit v n" if "n < 32" for n
    using that unfolding FRAME_OF_alt m by (cases "n < 12") (auto simp: bit_simps)
  then show ?thesis by (auto intro: bit_word_eqI)
qed

lemma FRAME_OF_aligned [simp]: "4096 dvd unat (FRAME_OF e)"
  by (simp add: unat_FRAME_OF)

lemma aligned_take_bit: "4096 dvd unat (a :: u32) \<longleftrightarrow> take_bit 12 a = 0"
proof -
  have "unat (take_bit 12 a) = unat a mod 4096"
    by (simp add: take_bit_eq_mod unat_mod)
  then show ?thesis
    by (simp add: word_unat_eq_iff mod_eq_0_iff_dvd)
qed

lemma aligned_bit: "4096 dvd unat (a :: u32) \<Longrightarrow> n < 12 \<Longrightarrow> \<not> bit a n"
  by (metis aligned_take_bit bit_0_eq bit_take_bit_iff bot_apply bot_bool_def)

lemma FRAME_OF_entry:
  assumes "4096 dvd unat a"
  shows "FRAME_OF (a OR (b AND 0xFFF)) = a"
proof -
  have m: "(0xFFF :: u32) = mask 12" by (simp add: mask_eq_exp_minus_1)
  have "bit (FRAME_OF (a OR (b AND 0xFFF))) n = bit a n" if "n < 32" for n
    using aligned_bit [OF assms, of n] that unfolding m FRAME_OF_alt by (cases "n < 12") (auto simp: bit_simps)
  then show ?thesis
    by (auto intro: bit_word_eqI)
qed

lemma DIR_INDEX_less: "unat (DIR_INDEX v) < 1024"
  using unat_u32_less [of v] by (simp add: DIR_INDEX_def drop_bit_eq_div unat_div less_mult_imp_div_less)

lemma TBL_INDEX_less: "unat (TBL_INDEX v) < 1024"
  using word_and_le1 [of "drop_bit 12 v" "0x3FF"] by (simp add: TBL_INDEX_def word_le_nat_alt)

lemma vpage_eq_iff: "vpage v = vpage w \<longleftrightarrow> DIR_INDEX v = DIR_INDEX w \<and> TBL_INDEX v = TBL_INDEX w"
proof -
  have m: "(0x3FF :: u32) = mask 10" by (simp add: mask_eq_exp_minus_1)
  have d: "DIR_INDEX v = drop_bit 10 (vpage v)" "TBL_INDEX v = take_bit 10 (vpage v)" for v
    by (simp_all add: DIR_INDEX_def TBL_INDEX_def vpage_def m take_bit_eq_mask)
  show ?thesis
    unfolding d by (metis bits_ident)
qed

lemma unat_slot:
  assumes "4096 dvd unat b" and "unat i < 1024"
  shows "unat (slot b i) = unat b + 4 * unat i"
proof -
  have "unat b + 4096 \<le> 2 ^ 32"
    using assms(1) unat_u32_less [of b] by (auto simp: dvd_def)
  moreover have "unat (4 * i) = 4 * unat i"
    using assms(2) by (simp add: unat_word_ariths)
  ultimately show ?thesis
    using assms(2) by (simp add: slot_def unat_word_ariths)
qed

lemma aligned_end: "4096 dvd unat (b :: u32) \<Longrightarrow> unat b + 4096 \<le> 2 ^ 32"
  using unat_u32_less [of b] by (auto simp: dvd_def)

lemma aligned_apart:
  "4096 dvd unat (b :: u32) \<Longrightarrow> 4096 dvd unat c \<Longrightarrow> b \<noteq> c \<Longrightarrow>
     unat b + 4096 \<le> unat c \<or> unat c + 4096 \<le> unat b"
  by (auto simp: dvd_def word_unat_eq_iff)

text \<open>A store through one table slot is invisible through every other slot.\<close>

lemma ld32_slot_other:
  assumes "4096 dvd unat b" "4096 dvd unat c" "unat i < 1024" "unat j < 1024" "b \<noteq> c \<or> i \<noteq> j"
  shows "ld32 (st32 m (slot b i) w) (slot c j) = ld32 m (slot c j)"
proof (rule ld32_st32_sep)
  show "unat (slot b i) + 3 < 2 ^ 32" "unat (slot c j) + 3 < 2 ^ 32"
    using aligned_end [OF assms(1)] aligned_end [OF assms(2)] assms by (simp_all add: unat_slot)
  show "unat (slot c j) + 4 \<le> unat (slot b i) \<or> unat (slot b i) + 4 \<le> unat (slot c j)"
  proof (cases "b = c")
    case True
    with assms have "unat i \<noteq> unat j" by (auto simp: word_unat_eq_iff)
    with True assms show ?thesis by (simp add: unat_slot) linarith
  next
    case False
    with aligned_apart [OF assms(1,2)] assms show ?thesis by (simp add: unat_slot) linarith
  qed
qed

lemma ld32_slot_memset:
  assumes "4096 dvd unat f" "4096 dvd unat c" "unat j < 1024"
  shows "ld32 (memset m f 0 4096) (slot c j) = (if c = f then 0 else ld32 m (slot c j))"
proof -
  note ends = aligned_end [OF assms(1)] aligned_end [OF assms(2)]
  have slot: "unat (slot c j) = unat c + 4 * unat j" using assms by (simp add: unat_slot)
  show ?thesis
  proof (cases "c = f")
    case True
    with ends slot assms show ?thesis by (simp add: ld32_memset_zero)
  next
    case False
    with aligned_apart [OF assms(1,2)] have "unat (slot c j) + 4 \<le> unat f \<or> unat f + 4096 \<le> unat (slot c j)"
      using slot assms by auto
    moreover have "unat (slot c j) + 3 < 2 ^ 32" using slot ends assms by simp
    ultimately show ?thesis
      using False ends by (simp add: ld32_memset_sep)
  qed
qed

section \<open>The mapping and the invariant\<close>

definition present :: "u32 \<Rightarrow> bool" where
  "present e \<longleftrightarrow> e AND PAGE_PRESENT \<noteq> 0"

definition dirent :: "'a paging_layer_scheme \<Rightarrow> u32 \<Rightarrow> u32" where
  "dirent s i = ld32 (mem s) (slot (page_directory (paging s)) i)"

definition table_entry :: "'a paging_layer_scheme \<Rightarrow> u32 \<Rightarrow> u32" where
  "table_entry s v = ld32 (mem s) (slot (FRAME_OF (dirent s (DIR_INDEX v))) (TBL_INDEX v))"

definition pte :: "'a paging_layer_scheme \<Rightarrow> u32 \<Rightarrow> u32 option" where
  "pte s v =
     (if present (dirent s (DIR_INDEX v)) \<and> present (table_entry s v) then Some (table_entry s v) else None)"

definition mapped_set :: "'a paging_layer_scheme \<Rightarrow> u32 set" where
  "mapped_set s = vpage ` {v. pte s v \<noteq> None}"

definition table_set :: "'a paging_layer_scheme \<Rightarrow> u32 set" where
  "table_set s = {i. unat i < 1024 \<and> present (dirent s i)}"

definition table_ok :: "'a paging_layer_scheme \<Rightarrow> u32 \<Rightarrow> bool" where
  "table_ok s t \<longleftrightarrow> t \<noteq> 0 \<and> unat t < unat (identity_end (paging s)) \<and>
     t \<noteq> page_directory (paging s) \<and> frame_no t \<notin> free_frames (pmm s)"

definition paging_inv :: "'a paging_layer_scheme \<Rightarrow> bool" where
  "paging_inv s \<longleftrightarrow>
     pmm_inv (pmm s) \<and>
     page_directory (paging s) \<noteq> 0 \<and> 4096 dvd unat (page_directory (paging s)) \<and>
     unat (page_directory (paging s)) < unat (identity_end (paging s)) \<and>
     frame_no (page_directory (paging s)) \<notin> free_frames (pmm s) \<and>
     unat (identity_end (paging s)) \<le> 2 ^ 24 \<and> 4096 dvd unat (identity_end (paging s)) \<and>
     (\<forall>i \<in> table_set s. table_ok s (FRAME_OF (dirent s i))) \<and>
     inj_on (\<lambda>i. FRAME_OF (dirent s i)) (table_set s) \<and>
     unat (table_count (paging s)) = card (table_set s) \<and>
     unat (mapped_pages (paging s)) = card (mapped_set s)"

lemma finite_u32 [simp]: "finite (A :: u32 set)"
  by (rule finite_subset [OF subset_UNIV]) simp

lemma pte_vpage: "vpage v = vpage w \<Longrightarrow> pte s v = pte s w"
  by (simp add: pte_def table_entry_def vpage_eq_iff)

lemma present_bit: "present e \<longleftrightarrow> bit e 0"
  by (simp add: present_def PAGE_PRESENT_def and_one_eq mod_2_eq_odd bit_0)

lemma present_entry: "present (x OR y OR PAGE_PRESENT)" "present (x OR PAGE_PRESENT OR y)"
  by (simp_all add: present_bit PAGE_PRESENT_def bit_simps)

lemma present_0 [simp]: "\<not> present 0"
  by (simp add: present_def)

lemma card_table_set: "card (table_set s) \<le> 1024"
proof -
  have "table_set s \<subseteq> {i. i < (1024 :: u32)}"
    by (auto simp: table_set_def word_less_nat_alt)
  moreover have "{i. i < (1024 :: u32)} \<subseteq> of_nat ` {..<1024}"
    by (auto simp: word_less_nat_alt intro!: image_eqI [of _ _ "unat _"])
  ultimately have "card (table_set s) \<le> card (of_nat ` {..<1024 :: nat} :: u32 set)"
    by (meson card_mono finite_u32 order_trans)
  also have "\<dots> \<le> 1024"
    using card_image_le [of "{..<1024 :: nat}"] by simp
  finally show ?thesis .
qed

text \<open>Both parts of the state the tables live in may change as long as the tables do not.\<close>

lemma paging_inv_pmm:
  "paging_inv s \<Longrightarrow> pmm_inv p \<Longrightarrow> free_frames p \<subseteq> free_frames (pmm s) \<Longrightarrow> paging_inv (s\<lparr>pmm := p\<rparr>)"
  by (auto simp: paging_inv_def table_ok_def table_set_def dirent_def mapped_set_def pte_def table_entry_def)

lemma pte_same:
  assumes "mem s' = mem s" "page_directory (paging s') = page_directory (paging s)"
  shows "pte s' = pte s"
  by (simp add: fun_eq_iff pte_def table_entry_def dirent_def assms)

section \<open>Creating a table\<close>

lemma FRAME_OF_dirent [simp]: "4096 dvd unat f \<Longrightarrow> FRAME_OF (f OR PAGE_PRESENT OR PAGE_WRITE) = f"
  using FRAME_OF_entry [of f 3] by (simp add: PAGE_PRESENT_def PAGE_WRITE_def or.assoc)

lemma table_not_free: "paging_inv s \<Longrightarrow> i \<in> table_set s \<Longrightarrow> table_ok s (FRAME_OF (dirent s i))"
  by (simp add: paging_inv_def)

lemma DIR_INDEX_table: "present (dirent s (DIR_INDEX v)) \<longleftrightarrow> DIR_INDEX v \<in> table_set s"
  using DIR_INDEX_less by (simp add: table_set_def)

text \<open>The state after \<^verbatim>\<open>get_table\<close> has put the fresh frame \<open>f\<close> under directory slot \<open>i\<close>.\<close>

definition install_table :: "u32 \<Rightarrow> u32 \<Rightarrow> pmm_state \<Rightarrow> 'a paging_layer_scheme \<Rightarrow> 'a paging_layer_scheme" where
  "install_table f i p s =
     s\<lparr>pmm := p,
       mem := st32 (memset (mem s) f 0 4096) (slot (page_directory (paging s)) i) (f OR PAGE_PRESENT OR PAGE_WRITE),
       paging := (paging s)\<lparr>table_count := table_count (paging s) + 1\<rparr>\<rparr>"

lemma install_table_dirent:
  assumes "4096 dvd unat (page_directory (paging s))" "4096 dvd unat f" "f \<noteq> page_directory (paging s)"
    and "unat i < 1024" "unat j < 1024"
  shows "dirent (install_table f i p s) j = (if j = i then f OR PAGE_PRESENT OR PAGE_WRITE else dirent s j)"
  using assms by (auto simp: dirent_def install_table_def ld32_slot_other ld32_slot_memset)

lemma install_table_load:
  assumes "4096 dvd unat (page_directory (paging s))" "4096 dvd unat f" "4096 dvd unat t"
    and "t \<noteq> page_directory (paging s)" "unat i < 1024" "unat j < 1024"
  shows "ld32 (mem (install_table f i p s)) (slot t j) = (if t = f then 0 else ld32 (mem s) (slot t j))"
  using assms by (auto simp: install_table_def ld32_slot_other ld32_slot_memset)

lemma install_table:
  assumes inv: "paging_inv s" and p: "pmm_inv p" "free_frames p = free_frames (pmm s) - {frame_no f}"
    and f: "4096 dvd unat f" "f \<noteq> 0" "frame_no f \<in> free_frames (pmm s)"
      "unat f < unat (identity_end (paging s))"
    and i: "unat i < 1024" "\<not> present (dirent s i)"
  defines "s' \<equiv> install_table f i p s"
  shows "pte s' = pte s" and "paging_inv s'"
proof -
  let ?D = "page_directory (paging s)"
  have D: "4096 dvd unat ?D" "frame_no ?D \<notin> free_frames (pmm s)" using inv by (simp_all add: paging_inv_def)
  with f have fD: "f \<noteq> ?D" by auto
  have dir: "dirent s' j = (if j = i then f OR PAGE_PRESENT OR PAGE_WRITE else dirent s j)"
    if "unat j < 1024" for j
    unfolding s'_def using D(1) f(1) fD i(1) that by (rule install_table_dirent)
  have old: "FRAME_OF (dirent s j) \<noteq> f" "FRAME_OF (dirent s j) \<noteq> ?D" if "j \<in> table_set s" for j
    using table_not_free [OF inv that] f(3) by (auto simp: table_ok_def)
  have ts: "table_set s' = insert i (table_set s)"
    using dir i by (auto simp: table_set_def present_entry)
  have "pte s' v = pte s v" for v
  proof (cases "DIR_INDEX v = i")
    case True
    have "table_entry s' v = 0"
      unfolding table_entry_def using True dir [of i] i(1) f(1)
        install_table_load [OF D(1) f(1) f(1) fD i(1) TBL_INDEX_less, of p v] by (simp add: s'_def)
    with True i show ?thesis by (simp add: pte_def)
  next
    case False
    note d = dir [OF DIR_INDEX_less [of v]]
    have "table_entry s' v = table_entry s v" if "present (dirent s (DIR_INDEX v))"
      unfolding table_entry_def
      using that False d old [of "DIR_INDEX v"]
        install_table_load [OF D(1) f(1) FRAME_OF_aligned _ i(1) TBL_INDEX_less, of "dirent s (DIR_INDEX v)" p v]
      by (simp add: s'_def DIR_INDEX_table)
    with False d show ?thesis by (auto simp: pte_def)
  qed
  then show pte: "pte s' = pte s" by (simp add: fun_eq_iff)
  have same: "page_directory (paging s') = ?D" "identity_end (paging s') = identity_end (paging s)"
    "pmm s' = p" "mapped_pages (paging s') = mapped_pages (paging s)"
    "table_count (paging s') = table_count (paging s) + 1"
    by (simp_all add: s'_def install_table_def)
  have di: "dirent s' i = f OR PAGE_PRESENT OR PAGE_WRITE" using dir i by simp
  have dj: "dirent s' j = dirent s j" if "j \<in> table_set s" for j
    using that dir i by (auto simp: table_set_def)
  have "table_ok s' (FRAME_OF (dirent s' j))" if "j \<in> table_set s'" for j
    using that table_not_free [OF inv, of j] f fD di dj p(2)
    by (auto simp: ts table_ok_def same)
  moreover have "inj_on (\<lambda>j. FRAME_OF (dirent s' j)) (table_set s')"
  proof -
    have "inj_on (\<lambda>j. FRAME_OF (dirent s' j)) (table_set s) = inj_on (\<lambda>j. FRAME_OF (dirent s j)) (table_set s)"
      by (rule inj_on_cong) (simp add: dj)
    then show ?thesis
      using inv di dj old f(1) by (auto simp: ts paging_inv_def)
  qed
  moreover have "unat (table_count (paging s')) = card (table_set s')"
  proof -
    have "i \<notin> table_set s" using i by (simp add: table_set_def)
    then show ?thesis
      using inv card_table_set [of s] by (simp add: same ts paging_inv_def)
  qed
  ultimately show "paging_inv s'"
    using inv p D by (auto simp: paging_inv_def [of s'] same mapped_set_def pte) (auto simp: paging_inv_def mapped_set_def)
qed

text \<open>What every operation on the tables leaves as it was.\<close>

definition paging_frame :: "'a paging_layer_scheme \<Rightarrow> 'a paging_layer_scheme \<Rightarrow> bool" where
  "paging_frame s s' \<longleftrightarrow>
     free_frames (pmm s') \<subseteq> free_frames (pmm s) \<and> total_frames (pmm s') = total_frames (pmm s) \<and>
     identity_end (paging s') = identity_end (paging s) \<and>
     page_directory (paging s') = page_directory (paging s) \<and>
     con s' = con s \<and> mmap s' = mmap s \<and> paging_layer.more s' = paging_layer.more s \<and>
     (\<forall>a. unat (identity_end (paging s)) \<le> unat a \<longrightarrow> mem s' a = mem s a)"

lemma paging_frame_refl [simp]: "paging_frame s s"
  by (simp add: paging_frame_def)

lemma paging_frame_trans: "paging_frame s t \<Longrightarrow> paging_frame t u \<Longrightarrow> paging_frame s u"
  by (auto simp: paging_frame_def)

lemma paging_frame_pmm:
  "free_frames p \<subseteq> free_frames (pmm s) \<Longrightarrow> total_frames p = total_frames (pmm s) \<Longrightarrow>
     paging_frame s (s\<lparr>pmm := p\<rparr>)"
  by (simp add: paging_frame_def)

lemma below_identity_end:
  "4096 dvd unat (b :: u32) \<Longrightarrow> 4096 dvd unat e \<Longrightarrow> unat b < unat e \<Longrightarrow> unat b + 4096 \<le> unat e"
  by (auto simp: dvd_def)

lemma install_table_frame:
  assumes inv: "paging_inv s" and "free_frames p \<subseteq> free_frames (pmm s)" "total_frames p = total_frames (pmm s)"
    and f: "4096 dvd unat f" "unat f < unat (identity_end (paging s))" and i: "unat i < 1024"
  shows "paging_frame s (install_table f i p s)"
proof -
  let ?D = "page_directory (paging s)" and ?I = "unat (identity_end (paging s))"
  have D: "4096 dvd unat ?D" "unat ?D + 4096 \<le> ?I" and I: "4096 dvd ?I"
    using inv below_identity_end [of ?D "identity_end (paging s)"] by (auto simp: paging_inv_def)
  have "unat f + 4096 \<le> ?I" using f I by (intro below_identity_end)
  moreover have "unat (slot ?D i) + 4 \<le> ?I" "unat (slot ?D i) + 3 < 2 ^ 32"
    using D i unat_u32_less [of "identity_end (paging s)"] by (simp_all add: unat_slot)
  ultimately have "mem (install_table f i p s) a = mem s a" if "?I \<le> unat a" for a
    using that unat_u32_less [of "identity_end (paging s)"]
    by (simp add: install_table_def st32_outside memset_outside)
  with assms show ?thesis
    by (simp add: paging_frame_def) (simp add: install_table_def)
qed

lemma pmm_alloc_inv:
  assumes "pmm_inv p" and "pmm_alloc_frame p = (f, p')"
  shows "pmm_inv p'" "total_frames p' = total_frames p" "free_frames p' \<subseteq> free_frames p"
proof -
  show "pmm_inv p'" using fa.inv_alloc [OF assms(1)] assms(2) by simp
  show "total_frames p' = total_frames p"
    using fa.limit_alloc [OF assms(1)] assms(2) by (simp add: word_unat_eq_iff)
  show "free_frames p' \<subseteq> free_frames p"
    using fa.alloc_none [OF assms(1)] fa.alloc_least [OF assms(1)] assms(2)
    by (cases "free_frames p = {}") auto
qed

lemma pmm_alloc_undo:
  assumes "pmm_inv p" and "pmm_alloc_frame p = (f, p')" and "f \<noteq> 0"
  shows "pmm_inv (pmm_free_frame f p')" "total_frames (pmm_free_frame f p') = total_frames p"
    "free_frames (pmm_free_frame f p') = free_frames p"
  using fa.inv_free pmm_alloc_inv [OF assms(1,2)] fa.free_alloc [OF assms]
  by (simp_all add: pmm_free_frame_def)

text \<open>The ways \<^verbatim>\<open>get_table\<close> can end when asked to create the table.\<close>

lemma get_table_cases:
  assumes inv: "pmm_inv (pmm s)" and get: "get_table virt True s = (t, s')"
  obtains (old) "present (dirent s (DIR_INDEX virt))" "t = FRAME_OF (dirent s (DIR_INDEX virt))" "s' = s"
    | (fail) p where "t = 0" "s' = s\<lparr>pmm := p\<rparr>" "pmm_inv p" "free_frames p \<subseteq> free_frames (pmm s)"
        "total_frames p = total_frames (pmm s)"
    | (new) p where "\<not> present (dirent s (DIR_INDEX virt))" "t \<noteq> 0" "pmm_alloc_frame (pmm s) = (t, p)"
        "t < identity_end (paging s)" "s' = install_table t (DIR_INDEX virt) p s"
proof -
  obtain f p where a: "pmm_alloc_frame (pmm s) = (f, p)" by fastforce
  note gt = get [unfolded get_table_def Let_def dirent_def [symmetric] present_def [symmetric], simplified a prod.case]
  consider "present (dirent s (DIR_INDEX virt))" | "\<not> present (dirent s (DIR_INDEX virt))" "f = 0"
    | "\<not> present (dirent s (DIR_INDEX virt))" "f \<noteq> 0" "identity_end (paging s) \<le> f"
    | "\<not> present (dirent s (DIR_INDEX virt))" "f \<noteq> 0" "f < identity_end (paging s)"
    by (meson leI)
  then show thesis
  proof cases
    case 1
    then show thesis using gt by (intro old) auto
  next
    case 2
    then show thesis using gt pmm_alloc_inv [OF inv a] by (intro fail [of p]) auto
  next
    case 3
    then show thesis
      using gt pmm_alloc_undo [OF inv a] by (intro fail [of "pmm_free_frame f p"]) auto
  next
    case 4
    then have "\<not> identity_end (paging s) \<le> f" by simp
    with 4 show thesis
      using gt a by (intro new [of p]) (auto simp: install_table_def)
  qed
qed

lemma install_table_new:
  assumes inv: "paging_inv s" and a: "pmm_alloc_frame (pmm s) = (t, p)" "t \<noteq> 0"
    and t: "t < identity_end (paging s)" and i: "unat i < 1024" "\<not> present (dirent s i)"
  defines "s' \<equiv> install_table t i p s"
  shows "paging_inv s'" "pte s' = pte s" "paging_frame s s'" "i \<in> table_set s'" "FRAME_OF (dirent s' i) = t"
proof -
  have pinv: "pmm_inv (pmm s)" and D: "4096 dvd unat (page_directory (paging s))"
    "frame_no (page_directory (paging s)) \<notin> free_frames (pmm s)"
    using inv by (simp_all add: paging_inv_def)
  note al = fa.alloc_cases [OF pinv a] and p = pmm_alloc_inv [OF pinv a(1)]
  have lt: "unat t < unat (identity_end (paging s))" using t by (simp add: word_less_nat_alt)
  note it = install_table [OF inv p(1) al(4) al(3) a(2) al(1) lt i, folded s'_def]
  show "paging_inv s'" "pte s' = pte s" by (fact it)+
  show "paging_frame s s'"
    unfolding s'_def by (rule install_table_frame [OF inv p(3,2) al(3) lt i(1)])
  have "dirent s' i = t OR PAGE_PRESENT OR PAGE_WRITE"
    unfolding s'_def using D al i by (subst install_table_dirent) auto
  then show "i \<in> table_set s'" "FRAME_OF (dirent s' i) = t"
    using al(3) i by (simp_all add: table_set_def present_entry)
qed

lemma get_table_create:
  assumes inv: "paging_inv s" and get: "get_table virt True s = (t, s')"
  shows "paging_inv s' \<and> pte s' = pte s \<and> paging_frame s s' \<and> tlb (paging s') = tlb (paging s) \<and>
    (t \<noteq> 0 \<longrightarrow> DIR_INDEX virt \<in> table_set s' \<and> FRAME_OF (dirent s' (DIR_INDEX virt)) = t) \<and>
    (t = 0 \<longrightarrow> paging s' = paging s \<and> mem s' = mem s)"
proof -
  have "pmm_inv (pmm s)" using inv by (simp add: paging_inv_def)
  then show ?thesis
    using get
  proof (cases rule: get_table_cases)
    case old
    then have "DIR_INDEX virt \<in> table_set s" by (simp add: DIR_INDEX_table)
    with old table_not_free [OF inv this] inv show ?thesis by (simp add: table_ok_def)
  next
    case (fail p)
    then show ?thesis
      using paging_inv_pmm [OF inv] pte_same [of s' s] paging_frame_pmm [of p s] by simp
  next
    case (new p)
    then show ?thesis
      using install_table_new [OF inv new(3,2,4) DIR_INDEX_less new(1)] by (simp add: install_table_def)
  qed
qed

section \<open>Mapping and unmapping one page\<close>

text \<open>A store into a table slot, seen through the MMU.\<close>

definition store_entry :: "u32 \<Rightarrow> u32 \<Rightarrow> 'a paging_layer_scheme \<Rightarrow> 'a paging_layer_scheme" where
  "store_entry v e s = s\<lparr>mem := st32 (mem s) (slot (FRAME_OF (dirent s (DIR_INDEX v))) (TBL_INDEX v)) e\<rparr>"

lemma store_entry_dirent:
  assumes inv: "paging_inv s" and t: "DIR_INDEX v \<in> table_set s" and j: "unat j < 1024"
  shows "dirent (store_entry v e s) j = dirent s j"
  using table_not_free [OF inv t] inv j
  by (simp add: store_entry_def dirent_def [of "_\<lparr>mem := _\<rparr>"] ld32_slot_other TBL_INDEX_less table_ok_def
      paging_inv_def) (simp add: dirent_def)

lemma store_entry_table_set:
  "paging_inv s \<Longrightarrow> DIR_INDEX v \<in> table_set s \<Longrightarrow> table_set (store_entry v e s) = table_set s"
  by (auto simp: table_set_def store_entry_dirent)

lemma store_entry_table_entry:
  assumes inv: "paging_inv s" and t: "DIR_INDEX v \<in> table_set s" and w: "DIR_INDEX w \<in> table_set s"
  shows "table_entry (store_entry v e s) w = (if vpage w = vpage v then e else table_entry s w)"
proof -
  have d: "dirent (store_entry v e s) (DIR_INDEX w) = dirent s (DIR_INDEX w)"
    using inv t DIR_INDEX_less by (rule store_entry_dirent)
  have "FRAME_OF (dirent s (DIR_INDEX w)) = FRAME_OF (dirent s (DIR_INDEX v)) \<longleftrightarrow> DIR_INDEX w = DIR_INDEX v"
    using inv t w by (auto simp: paging_inv_def dest: inj_onD)
  then show ?thesis
    unfolding table_entry_def d
    by (auto simp: store_entry_def vpage_eq_iff ld32_slot_other TBL_INDEX_less)
qed

lemma store_entry_pte:
  assumes inv: "paging_inv s" and t: "DIR_INDEX v \<in> table_set s"
  shows "pte (store_entry v e s) w =
    (if vpage w = vpage v then (if present e then Some e else None) else pte s w)"
proof (cases "DIR_INDEX w \<in> table_set s")
  case True
  then show ?thesis
    using store_entry_table_entry [OF inv t True, of e] store_entry_table_set [OF inv t, of e]
    by (simp add: pte_def DIR_INDEX_table)
next
  case False
  then have "vpage w \<noteq> vpage v" using t by (auto simp: vpage_eq_iff)
  with False show ?thesis
    using store_entry_table_set [OF inv t, of e] by (simp add: pte_def DIR_INDEX_table)
qed

lemma mapped_set_iff: "vpage v \<in> mapped_set s \<longleftrightarrow> pte s v \<noteq> None"
  by (auto simp: mapped_set_def dest: pte_vpage [of v _ s])

lemma store_entry_mapped:
  assumes "paging_inv s" "DIR_INDEX v \<in> table_set s"
  shows "mapped_set (store_entry v e s) =
    (if present e then insert (vpage v) (mapped_set s) else mapped_set s - {vpage v})"
proof -
  have "p \<in> mapped_set (store_entry v e s) \<longleftrightarrow>
      (if p = vpage v then present e else p \<in> mapped_set s)" if "p = vpage w" for p w
    unfolding that mapped_set_iff store_entry_pte [OF assms] by simp
  moreover have "\<exists>w. p = vpage w" if "p \<in> mapped_set t" for p and t :: "'a paging_layer_scheme"
    using that by (auto simp: mapped_set_def)
  ultimately show ?thesis
    by (auto split: if_splits) metis+
qed

lemma card_mapped_set: "card (mapped_set s) \<le> 2 ^ 20"
proof -
  have "unat (vpage v) < 2 ^ 20" for v
    using unat_u32_less [of v] by (simp add: vpage_def drop_bit_eq_div unat_div less_mult_imp_div_less)
  then have "mapped_set s \<subseteq> word_of_nat ` {..<2 ^ 20}"
    by (auto simp: mapped_set_def intro!: image_eqI [of _ _ "unat _"])
  then have "card (mapped_set s) \<le> card (word_of_nat ` {..<2 ^ 20 :: nat} :: u32 set)"
    by (rule card_mono [OF finite_u32])
  also have "\<dots> \<le> 2 ^ 20"
    using card_image_le [of "{..<2 ^ 20 :: nat}" "word_of_nat :: nat \<Rightarrow> u32"] by simp
  finally show ?thesis .
qed

lemma store_entry_frame:
  assumes inv: "paging_inv s" and t: "DIR_INDEX v \<in> table_set s"
  shows "paging_frame s (store_entry v e s)"
proof -
  let ?T = "FRAME_OF (dirent s (DIR_INDEX v))" and ?I = "identity_end (paging s)"
  have "unat ?T + 4096 \<le> unat ?I"
    using table_not_free [OF inv t] inv by (intro below_identity_end) (auto simp: table_ok_def paging_inv_def)
  then have "unat (slot ?T (TBL_INDEX v)) + 4 \<le> unat ?I"
    using TBL_INDEX_less [of v] by (simp add: unat_slot)
  then show ?thesis
    using unat_u32_less [of ?I] by (auto simp: paging_frame_def store_entry_def st32_outside)
qed

text \<open>The bookkeeping that goes with a store into a table.\<close>

definition set_counts :: "u32 \<Rightarrow> (u32 \<Rightarrow> u32 option) \<Rightarrow> 'a paging_layer_scheme \<Rightarrow> 'a paging_layer_scheme" where
  "set_counts n c s = s\<lparr>paging := (paging s)\<lparr>mapped_pages := n, tlb := c\<rparr>\<rparr>"

lemma set_counts_simps [simp]:
  "pte (set_counts n c s) = pte s" "paging_frame s (set_counts n c s)"
  "dirent (set_counts n c s) = dirent s" "table_set (set_counts n c s) = table_set s"
  "mapped_set (set_counts n c s) = mapped_set s" "tlb (paging (set_counts n c s)) = c"
  by (auto simp: fun_eq_iff set_counts_def pte_def table_entry_def dirent_def paging_frame_def table_set_def
      mapped_set_def)

lemma store_entry_inv:
  assumes inv: "paging_inv s" and t: "DIR_INDEX v \<in> table_set s"
    and n: "unat n = card (mapped_set (store_entry v e s))"
  shows "paging_inv (set_counts n c (store_entry v e s))"
proof -
  let ?s = "store_entry v e s"
  have d: "dirent ?s j = dirent s j" if "j \<in> table_set s" for j
    using that by (intro store_entry_dirent [OF inv t]) (simp add: table_set_def)
  have "inj_on (\<lambda>j. FRAME_OF (dirent ?s j)) (table_set s) = inj_on (\<lambda>j. FRAME_OF (dirent s j)) (table_set s)"
    by (rule inj_on_cong) (simp add: d)
  with inv n d show ?thesis
    using store_entry_table_set [OF inv t, of e]
    by (simp add: paging_inv_def table_ok_def) (simp add: set_counts_def store_entry_def)
qed

lemma paging_map_eq:
  assumes inv: "paging_inv s" and get: "get_table virt True s = (t, s1)"
  shows "paging_map virt phys flags s =
    (if t = 0 then (False, s1)
     else (True, set_counts (if pte s1 virt = None then mapped_pages (paging s1) + 1 else mapped_pages (paging s1))
                   ((tlb (paging s1))(vpage virt := None))
                   (store_entry virt (FRAME_OF phys OR (flags AND 0xFFF) OR PAGE_PRESENT) s1)))"
proof (cases "t = 0")
  case False
  have t: "DIR_INDEX virt \<in> table_set s1" "FRAME_OF (dirent s1 (DIR_INDEX virt)) = t"
    using get_table_create [OF inv get] False by auto
  then have "\<not> present (ld32 (mem s1) (slot t (TBL_INDEX virt))) \<longleftrightarrow> pte s1 virt = None"
    by (auto simp: pte_def table_entry_def DIR_INDEX_table)
  then have "ld32 (mem s1) (slot t (TBL_INDEX virt)) AND PAGE_PRESENT = 0 \<longleftrightarrow> pte s1 virt = None"
    by (simp add: present_def)
  with False t get show ?thesis
    by (simp add: paging_map_def set_counts_def store_entry_def flush_tlb_page_def Let_def dirent_def)
qed (simp add: paging_map_def get)

lemma paging_map_spec:
  assumes inv: "paging_inv s" and map: "paging_map virt phys flags s = (ok, s')"
  shows "paging_inv s' \<and> paging_frame s s' \<and>
    (ok \<longrightarrow> pte s' = (\<lambda>w. if vpage w = vpage virt then Some (FRAME_OF phys OR (flags AND 0xFFF) OR PAGE_PRESENT)
                          else pte s w) \<and>
           tlb (paging s') = (tlb (paging s))(vpage virt := None)) \<and>
    (\<not> ok \<longrightarrow> pte s' = pte s \<and> paging s' = paging s \<and> mem s' = mem s)"
proof -
  obtain t s1 where get: "get_table virt True s = (t, s1)" by fastforce
  note g = get_table_create [OF inv get]
  show ?thesis
  proof (cases "t = 0")
    case True
    with map g show ?thesis by (simp add: paging_map_eq [OF inv get])
  next
    case False
    let ?e = "FRAME_OF phys OR (flags AND 0xFFF) OR PAGE_PRESENT"
    let ?n = "if pte s1 virt = None then mapped_pages (paging s1) + 1 else mapped_pages (paging s1)"
    from False g have i1: "paging_inv s1" and t: "DIR_INDEX virt \<in> table_set s1" by auto
    have "unat ?n = card (mapped_set (store_entry virt ?e s1))"
      unfolding store_entry_mapped [OF i1 t]
      using i1 card_mapped_set [of s1] mapped_set_iff [of virt s1]
      by (auto simp: present_entry paging_inv_def insert_absorb)
    note store_entry_inv [OF i1 t this]
    moreover have "paging_frame s s'"
      using g store_entry_frame [OF i1 t, of ?e] map False
      by (auto simp: paging_map_eq [OF inv get] intro: paging_frame_trans)
    ultimately show ?thesis
      using map False g
      by (auto simp: paging_map_eq [OF inv get] fun_eq_iff store_entry_pte [OF i1 t] present_entry)
  qed
qed

lemma get_table_lookup:
  assumes "paging_inv s"
  shows "get_table virt False s =
    (if DIR_INDEX virt \<in> table_set s then (FRAME_OF (dirent s (DIR_INDEX virt)), s) else (0, s))"
    and "DIR_INDEX virt \<in> table_set s \<Longrightarrow> FRAME_OF (dirent s (DIR_INDEX virt)) \<noteq> 0"
  using table_not_free [OF assms]
  by (auto simp: get_table_def DIR_INDEX_table [symmetric] present_def dirent_def table_ok_def)

lemma paging_translate_pte:
  assumes "paging_inv s"
  shows "paging_translate virt s =
    (case pte s virt of None \<Rightarrow> PAGE_UNMAPPED | Some e \<Rightarrow> FRAME_OF e OR (virt AND 0xFFF))"
proof (cases "DIR_INDEX virt \<in> table_set s")
  case True
  then have p: "pte s virt = (if present (table_entry s virt) then Some (table_entry s virt) else None)"
    by (simp add: pte_def DIR_INDEX_table)
  show ?thesis
    unfolding p using True get_table_lookup [OF assms, of virt]
    by (simp add: paging_translate_def table_entry_def [symmetric] present_def)
next
  case False
  then have "pte s virt = None" by (simp add: pte_def DIR_INDEX_table)
  with False show ?thesis
    by (simp add: paging_translate_def get_table_lookup [OF assms])
qed

lemma paging_unmap_eq:
  assumes inv: "paging_inv s"
  shows "paging_unmap virt s =
    (if pte s virt = None then (False, s)
     else (True, set_counts (mapped_pages (paging s) - 1) ((tlb (paging s))(vpage virt := None))
                   (store_entry virt 0 s)))"
proof (cases "DIR_INDEX virt \<in> table_set s")
  case True
  then have p: "pte s virt = None \<longleftrightarrow> \<not> present (table_entry s virt)"
    by (simp add: pte_def DIR_INDEX_table)
  show ?thesis
    unfolding p using True get_table_lookup [OF assms, of virt]
    by (simp add: paging_unmap_def table_entry_def [symmetric] present_def set_counts_def store_entry_def
        flush_tlb_page_def Let_def)
next
  case False
  then have "pte s virt = None" by (simp add: pte_def DIR_INDEX_table)
  with False show ?thesis
    by (simp add: paging_unmap_def get_table_lookup [OF assms])
qed

lemma paging_unmap_spec:
  assumes inv: "paging_inv s" and unmap: "paging_unmap virt s = (ok, s')"
  shows "paging_inv s' \<and> paging_frame s s' \<and> (ok \<longleftrightarrow> pte s virt \<noteq> None) \<and>
    pte s' = (\<lambda>w. if vpage w = vpage virt then None else pte s w) \<and>
    tlb (paging s') = (if ok then (tlb (paging s))(vpage virt := None) else tlb (paging s))"
proof (cases "pte s virt = None")
  case True
  then have "pte s w = None" if "vpage w = vpage virt" for w
    using pte_vpage [OF that, of s] by simp
  with True show ?thesis
    using inv unmap by (auto simp: paging_unmap_eq [OF inv] fun_eq_iff)
next
  case False
  then have t: "DIR_INDEX virt \<in> table_set s"
    by (auto simp: pte_def DIR_INDEX_table split: if_splits)
  have m: "vpage virt \<in> mapped_set s" using False by (simp add: mapped_set_iff)
  then have "0 < card (mapped_set s)" by (auto simp: card_gt_0_iff)
  then have "unat (mapped_pages (paging s) - 1) = card (mapped_set (store_entry virt 0 s))"
    unfolding store_entry_mapped [OF inv t] using inv m
    by (simp add: paging_inv_def unat_sub word_le_nat_alt)
  note store_entry_inv [OF inv t this]
  moreover have "paging_frame s s'"
    using store_entry_frame [OF inv t, of 0] unmap False
    by (auto simp: paging_unmap_eq [OF inv] intro: paging_frame_trans)
  moreover have "tlb (paging (store_entry virt 0 s)) = tlb (paging s)" by (simp add: store_entry_def)
  ultimately show ?thesis
    using unmap False by (auto simp: paging_unmap_eq [OF inv] fun_eq_iff store_entry_pte [OF inv t])
qed

section \<open>The mapper's contract\<close>

text \<open>
  The physical page a virtual page is mapped to, as an abstract partial map; the contract the
  heap relies on when it backs new pages with frames.
\<close>

definition page_of :: "'a paging_layer_scheme \<Rightarrow> u32 \<Rightarrow> u32 option" where
  "page_of s v = map_option FRAME_OF (pte s v)"

locale page_mapper =
  fixes map_page :: "u32 \<Rightarrow> u32 \<Rightarrow> u32 \<Rightarrow> 's \<Rightarrow> bool \<times> 's"
    and unmap_page :: "u32 \<Rightarrow> 's \<Rightarrow> bool \<times> 's"
    and translate :: "u32 \<Rightarrow> 's \<Rightarrow> u32"
    and target :: "'s \<Rightarrow> u32 \<Rightarrow> u32 option"
    and inv :: "'s \<Rightarrow> bool"
  assumes inv_map: "inv s \<Longrightarrow> inv (snd (map_page v p fl s))"
    and inv_unmap: "inv s \<Longrightarrow> inv (snd (unmap_page v s))"
    and target_vpage: "vpage v = vpage w \<Longrightarrow> target s v = target s w"
    and target_map: "inv s \<Longrightarrow> map_page v p fl s = (True, s') \<Longrightarrow>
          target s' w = (if vpage w = vpage v then Some (FRAME_OF p) else target s w)"
    and target_map_fail: "inv s \<Longrightarrow> map_page v p fl s = (False, s') \<Longrightarrow> target s' w = target s w"
    and target_unmap: "inv s \<Longrightarrow> unmap_page v s = (ok, s') \<Longrightarrow>
          target s' w = (if vpage w = vpage v then None else target s w)"
    and translate_target: "inv s \<Longrightarrow>
          translate v s = (case target s v of None \<Rightarrow> PAGE_UNMAPPED | Some p \<Rightarrow> p OR (v AND 0xFFF))"
begin

lemma translate_map:
  "inv s \<Longrightarrow> map_page v p fl s = (True, s') \<Longrightarrow> vpage w = vpage v \<Longrightarrow>
     translate w s' = FRAME_OF p OR (w AND 0xFFF)"
  using inv_map [of s v p fl] by (simp add: translate_target target_map)

lemma translate_map_other:
  "inv s \<Longrightarrow> map_page v p fl s = (ok, s') \<Longrightarrow> vpage w \<noteq> vpage v \<Longrightarrow> translate w s' = translate w s"
  using inv_map [of s v p fl] by (cases ok) (simp_all add: translate_target target_map target_map_fail)

lemma unmap_map:
  assumes "inv s" "map_page v p fl s = (True, s1)" "unmap_page v s1 = (ok, s2)" "target s v = None"
  shows "target s2 = target s"
proof
  fix w
  have "inv s1" using inv_map [OF assms(1), of v p fl] assms(2) by simp
  then show "target s2 w = target s w"
    using target_map [OF assms(1,2), of w] target_unmap [OF _ assms(3), of w] target_vpage [of w v s] assms(4)
    by simp
qed

end

lemma FRAME_OF_pte: "FRAME_OF (FRAME_OF p OR (fl AND 0xFFF) OR PAGE_PRESENT) = FRAME_OF p"
proof -
  have m: "(0xFFF :: u32) = mask 12" by (simp add: mask_eq_exp_minus_1)
  have "(fl AND 0xFFF) OR PAGE_PRESENT = (fl OR PAGE_PRESENT) AND 0xFFF"
    unfolding m PAGE_PRESENT_def by (auto intro!: bit_word_eqI simp: bit_simps)
  then show ?thesis
    using FRAME_OF_entry [OF FRAME_OF_aligned, of p "fl OR PAGE_PRESENT"] by (simp add: or.assoc)
qed

interpretation pm: page_mapper paging_map paging_unmap paging_translate page_of paging_inv
proof unfold_locales
  fix s s' :: "'a paging_layer_scheme" and v w p fl ok
  show "vpage v = vpage w \<Longrightarrow> page_of s v = page_of s w"
    by (simp add: page_of_def pte_vpage [of v w])
  assume inv: "paging_inv s"
  show "paging_inv (snd (paging_map v p fl s))"
    using paging_map_spec [OF inv, of v p fl] by (cases "paging_map v p fl s") auto
  show "paging_inv (snd (paging_unmap v s))"
    using paging_unmap_spec [OF inv, of v] by (cases "paging_unmap v s") auto
  show "paging_map v p fl s = (True, s') \<Longrightarrow>
      page_of s' w = (if vpage w = vpage v then Some (FRAME_OF p) else page_of s w)"
    using paging_map_spec [OF inv, of v p fl] by (simp add: page_of_def FRAME_OF_pte)
  show "paging_map v p fl s = (False, s') \<Longrightarrow> page_of s' w = page_of s w"
    using paging_map_spec [OF inv, of v p fl False s'] by (simp add: page_of_def)
  show "paging_unmap v s = (ok, s') \<Longrightarrow> page_of s' w = (if vpage w = vpage v then None else page_of s w)"
    using paging_unmap_spec [OF inv, of v] by (simp add: page_of_def)
  show "paging_translate v s = (case page_of s v of None \<Rightarrow> PAGE_UNMAPPED | Some p \<Rightarrow> p OR (v AND 0xFFF))"
    by (simp add: paging_translate_pte [OF inv] page_of_def split: option.split)
qed

text \<open>The translation cache never holds an entry the tables do not.\<close>

definition tlb_coherent :: "'a paging_layer_scheme \<Rightarrow> bool" where
  "tlb_coherent s \<longleftrightarrow> (\<forall>v e. tlb (paging s) (vpage v) = Some e \<longrightarrow> pte s v = Some e)"

end
