(* ===== verification/Paging_Init.thy ===== *)
theory Paging_Init
  imports Paging
begin

text \<open>
  When the paging code succeeds. A page table can only be created from a free frame below
  \<open>identity_end\<close>; \<open>low_free\<close> is the set of those. As long as one is left (or the table exists
  already) a page can be mapped, and mapping takes at most the least free frame. From this,
  \<open>paging_init\<close> is shown to build the identity map and to switch paging on whenever enough low
  frames are free: every address below \<open>identity_end\<close> then translates to itself.
\<close>

definition low_free :: "'a paging_layer_scheme \<Rightarrow> nat set" where
  "low_free s = {f \<in> free_frames (pmm s). f * 4096 < unat (identity_end (paging s))}"

lemma finite_low_free [simp]: "finite (low_free s)"
  by (simp add: low_free_def)

lemma get_table_success:
  assumes inv: "paging_inv s" and nz: "0 \<notin> free_frames (pmm s)"
    and ex: "DIR_INDEX v \<in> table_set s \<or> low_free s \<noteq> {}"
    and get: "get_table v True s = (t, s')"
  shows "t \<noteq> 0" "table_set s' = insert (DIR_INDEX v) (table_set s)"
    "free_frames (pmm s') = (if DIR_INDEX v \<in> table_set s then free_frames (pmm s)
       else free_frames (pmm s) - {Min (free_frames (pmm s))})"
proof -
  let ?F = "free_frames (pmm s)"
  have pinv: "pmm_inv (pmm s)" using inv by (simp add: paging_inv_def)
  have "t \<noteq> 0 \<and> table_set s' = insert (DIR_INDEX v) (table_set s) \<and>
    free_frames (pmm s') = (if DIR_INDEX v \<in> table_set s then ?F else ?F - {Min ?F})"
  proof (cases "DIR_INDEX v \<in> table_set s")
    case True
    then show ?thesis
      using get table_not_free [OF inv True]
      by (auto simp: get_table_def DIR_INDEX_table [symmetric] present_def dirent_def table_ok_def insert_absorb)
  next
    case False
    with ex obtain f where f: "f \<in> ?F" "f * 4096 < unat (identity_end (paging s))"
      by (auto simp: low_free_def)
    obtain a p where al: "pmm_alloc_frame (pmm s) = (a, p)" by fastforce
    have ne: "?F \<noteq> {}" using f by auto
    have a: "a \<noteq> 0" using fa.alloc_zero_iff [OF pinv nz] al ne by simp
    note c = fa.alloc_cases [OF pinv al a]
    have min: "frame_no a = Min ?F"
      using c(1,5) by (intro Min_eqI [symmetric]) auto
    have "unat a = frame_no a * 4096" using c(3) by (simp add: frame_no_def)
    then have lt: "a < identity_end (paging s)"
      using c(5) [OF f(1)] f(2) by (simp add: word_less_nat_alt)
    have np: "\<not> present (dirent s (DIR_INDEX v))" using False by (simp add: DIR_INDEX_table)
    have s': "s' = install_table a (DIR_INDEX v) p s" "t = a"
      using get al a lt [unfolded not_le [symmetric]] np by (auto simp: get_table_def dirent_def present_def install_table_def Let_def)
    have D: "frame_no (page_directory (paging s)) \<notin> ?F" "4096 dvd unat (page_directory (paging s))"
      using inv by (simp_all add: paging_inv_def)
    have "dirent s' j = (if j = DIR_INDEX v then a OR PAGE_PRESENT OR PAGE_WRITE else dirent s j)"
      if "unat j < 1024" for j
      unfolding s'(1) using D c(1,3) DIR_INDEX_less that by (intro install_table_dirent) auto
    then have "table_set s' = insert (DIR_INDEX v) (table_set s)"
      using DIR_INDEX_less by (auto simp: table_set_def present_entry)
    moreover have "free_frames (pmm s') = ?F - {Min ?F}"
      using c(4) min by (simp add: s'(1) install_table_def)
    ultimately show ?thesis using False a s'(2) by simp
  qed
  then show "t \<noteq> 0" "table_set s' = insert (DIR_INDEX v) (table_set s)"
    "free_frames (pmm s') = (if DIR_INDEX v \<in> table_set s then ?F else ?F - {Min ?F})"
    by blast+
qed

lemma paging_map_success:
  assumes inv: "paging_inv s" and nz: "0 \<notin> free_frames (pmm s)"
    and ex: "DIR_INDEX v \<in> table_set s \<or> low_free s \<noteq> {}"
  obtains s' where "paging_map v p fl s = (True, s')"
    "table_set s' = insert (DIR_INDEX v) (table_set s)"
    "free_frames (pmm s') = (if DIR_INDEX v \<in> table_set s then free_frames (pmm s)
       else free_frames (pmm s) - {Min (free_frames (pmm s))})"
proof -
  obtain t s1 where get: "get_table v True s = (t, s1)" by fastforce
  note g = get_table_success [OF inv nz ex get] and c = get_table_create [OF inv get]
  let ?s = "snd (paging_map v p fl s)"
  have "paging_map v p fl s = (True, ?s)"
    using g(1) by (simp add: paging_map_eq [OF inv get])
  moreover have "table_set ?s = table_set s1"
    using g(1) c by (simp add: paging_map_eq [OF inv get] store_entry_table_set)
  moreover have "pmm ?s = pmm s1"
    using g(1) by (simp add: paging_map_eq [OF inv get] set_counts_def store_entry_def)
  ultimately show thesis
    using that g(2,3) by metis
qed

lemma paging_map_low_free:
  assumes "paging_frame s s'" and "free_frames (pmm s') = (if b then free_frames (pmm s)
       else free_frames (pmm s) - {Min (free_frames (pmm s))})"
  shows "card (low_free s) \<le> card (low_free s') + (if b then 0 else 1)"
proof (cases b)
  case True
  with assms show ?thesis by (simp add: low_free_def paging_frame_def)
next
  case False
  with assms have "low_free s - {Min (free_frames (pmm s))} \<subseteq> low_free s'"
    by (auto simp: low_free_def paging_frame_def)
  then have "card (low_free s - {Min (free_frames (pmm s))}) \<le> card (low_free s')"
    by (rule card_mono [OF finite_low_free])
  then show ?thesis
    using False diff_card_le_card_Diff [of "{Min (free_frames (pmm s))}" "low_free s"] by simp
qed

lemma identity_map_success:
  assumes "paging_inv s" "0 \<notin> free_frames (pmm s)"
    and "card (DIR_INDEX ` set addrs - table_set s) \<le> card (low_free s)"
  shows "\<exists>s'. identity_map addrs s = (True, s') \<and> paging_inv s' \<and> paging_frame s s' \<and>
    (\<forall>v. page_of s' v = (if \<exists>a \<in> set addrs. vpage a = vpage v then Some (FRAME_OF v) else page_of s v)) \<and>
    card (low_free s) \<le> card (low_free s') + card (DIR_INDEX ` set addrs - table_set s)"
  using assms
proof (induction addrs arbitrary: s)
  case (Cons a addrs)
  let ?n = "\<lambda>as s. card (DIR_INDEX ` set as - table_set s)"
  have ex: "DIR_INDEX a \<in> table_set s \<or> low_free s \<noteq> {}"
  proof (rule ccontr)
    assume neg: "\<not> ?thesis"
    then have "DIR_INDEX ` set (a # addrs) - table_set s = {}"
      using Cons.prems(3) by simp
    with neg show False by auto
  qed
  obtain s1 where m: "paging_map a a PAGE_WRITE s = (True, s1)"
    and ts: "table_set s1 = insert (DIR_INDEX a) (table_set s)"
    and ff: "free_frames (pmm s1) = (if DIR_INDEX a \<in> table_set s then free_frames (pmm s)
       else free_frames (pmm s) - {Min (free_frames (pmm s))})"
    using paging_map_success [OF Cons.prems(1,2) ex] by metis
  note sp = paging_map_spec [OF Cons.prems(1) m]
  have low: "card (low_free s) \<le> card (low_free s1) + (if DIR_INDEX a \<in> table_set s then 0 else 1)"
    using sp ff by (intro paging_map_low_free) auto
  have "DIR_INDEX ` set (a # addrs) - table_set s =
      (if DIR_INDEX a \<in> table_set s then {} else {DIR_INDEX a}) \<union> (DIR_INDEX ` set addrs - table_set s1)"
    unfolding ts by auto
  then have n: "?n (a # addrs) s = (if DIR_INDEX a \<in> table_set s then 0 else 1) + ?n addrs s1"
    by (simp add: ts card_insert_if)
  moreover have "0 \<notin> free_frames (pmm s1)" using ff Cons.prems(2) by auto
  ultimately obtain s' where s': "identity_map addrs s1 = (True, s')" "paging_inv s'" "paging_frame s1 s'"
    "\<forall>v. page_of s' v = (if \<exists>a \<in> set addrs. vpage a = vpage v then Some (FRAME_OF v) else page_of s1 v)"
    "card (low_free s1) \<le> card (low_free s') + ?n addrs s1"
    using Cons.IH [of s1] Cons.prems(3) sp low by auto
  have "page_of s1 v = (if vpage v = vpage a then Some (FRAME_OF v) else page_of s v)" for v
    using pm.target_map [OF Cons.prems(1) m, of v] by (simp add: FRAME_OF_alt vpage_def)
  with s'(4) have "\<forall>v. page_of s' v =
      (if \<exists>a' \<in> set (a # addrs). vpage a' = vpage v then Some (FRAME_OF v) else page_of s v)"
    by simp
  moreover have "identity_map (a # addrs) s = (True, s')" using m s'(1) by simp
  moreover have "paging_frame s s'" using sp s'(3) paging_frame_trans by blast
  moreover have "card (low_free s) \<le> card (low_free s') + ?n (a # addrs) s" using low s'(5) n by linarith
  ultimately show ?case using s'(2) by blast
qed simp

section \<open>paging_init\<close>

lemma identity_limit_bounds:
  "4096 dvd unat (identity_limit hi)" "unat (identity_limit hi) \<le> 2 ^ 24"
proof -
  have m: "NOT (PAGE_SIZE - 1) = 0xFFFFF000" by (simp add: PAGE_SIZE_def)
  have "FRAME_OF hi \<le> hi" by (simp add: FRAME_OF_def word_and_le2)
  then show "unat (identity_limit hi) \<le> 2 ^ 24"
    unfolding identity_limit_def m FRAME_OF_def [symmetric]
    by (simp add: IDENTITY_BYTES_def word_le_nat_alt word_less_nat_alt)
  show "4096 dvd unat (identity_limit hi)"
    unfolding identity_limit_def m FRAME_OF_def [symmetric] by (simp add: IDENTITY_BYTES_def)
qed

text \<open>A freshly zeroed directory describes no mapping at all.\<close>

lemma empty_directory:
  assumes pmm: "pmm_inv p" and d: "d \<noteq> 0" "4096 dvd unat d" "frame_no d \<notin> free_frames p"
      "unat d < unat (identity_end q)" "unat (identity_end q) \<le> 2 ^ 24" "4096 dvd unat (identity_end q)"
    and q: "page_directory q = d" "table_count q = 0" "mapped_pages q = 0"
    and s: "s' = s\<lparr>pmm := p, paging := q, mem := memset (mem s) d 0 4096\<rparr>"
  shows "paging_inv s'" "pte s' v = None" "table_set s' = {}"
proof -
  have "dirent s' i = 0" if "unat i < 1024" for i
    using that d(2) by (simp add: s dirent_def q ld32_slot_memset)
  then show ts: "table_set s' = {}" by (auto simp: table_set_def)
  then show pte: "pte s' v = None" for v by (simp add: pte_def DIR_INDEX_table)
  then have "mapped_set s' = {}" by (simp add: mapped_set_def)
  with ts assms show "paging_inv s'" by (simp add: paging_inv_def)
qed

definition identity_pages :: "u32 \<Rightarrow> u32 list" where
  "identity_pages iend = map (\<lambda>i. of_nat i * PAGE_SIZE) [0..<unat (iend div PAGE_SIZE)]"

lemma unat_identity_page:
  assumes "i < unat (iend div PAGE_SIZE)"
  shows "unat (of_nat i * PAGE_SIZE) = i * 4096" "i * 4096 < unat iend"
proof -
  have i: "i < unat iend div 4096" using assms by (simp add: PAGE_SIZE_def unat_div)
  then show lt: "i * 4096 < unat iend" by linarith
  then have "i * 4096 < 2 ^ 32" using unat_u32_less [of iend] by simp
  then have "unat (word_of_nat (i * 4096) :: u32) = i * 4096" by (rule unat_of_nat_small)
  then show "unat (of_nat i * PAGE_SIZE) = i * 4096" by (simp add: PAGE_SIZE_def)
qed

lemma vpage_unat: "vpage v = vpage w \<longleftrightarrow> unat v div 4096 = unat w div 4096"
  by (simp add: vpage_def drop_bit_eq_div word_unat_eq_iff unat_div)

lemma identity_pages_cover:
  assumes "4096 dvd unat iend"
  shows "(\<exists>a \<in> set (identity_pages iend). vpage a = vpage v) \<longleftrightarrow> v < iend"
proof
  assume "\<exists>a \<in> set (identity_pages iend). vpage a = vpage v"
  then obtain i where i: "i < unat (iend div PAGE_SIZE)" "vpage (of_nat i * PAGE_SIZE) = vpage v"
    by (auto simp: identity_pages_def)
  then have "unat v div 4096 = i" using unat_identity_page(1) [OF i(1)] by (simp add: vpage_unat)
  moreover have "i < unat iend div 4096" using i(1) by (simp add: PAGE_SIZE_def unat_div)
  ultimately have "unat v div 4096 < unat iend div 4096" by simp
  then have "unat v < unat iend" by (metis div_le_mono leD leI)
  then show "v < iend" by (simp add: word_less_nat_alt)
next
  assume "v < iend"
  define i where "i = unat v div 4096"
  have "i < unat (iend div PAGE_SIZE)"
    using \<open>v < iend\<close> assms by (auto simp: i_def PAGE_SIZE_def unat_div word_less_nat_alt dvd_def less_mult_imp_div_less mult.commute)
  moreover from this have "vpage (of_nat i * PAGE_SIZE) = vpage v"
    using unat_identity_page(1) by (simp add: vpage_unat i_def)
  ultimately show "\<exists>a \<in> set (identity_pages iend). vpage a = vpage v"
    by (force simp: identity_pages_def)
qed

lemma identity_tables:
  assumes "unat iend \<le> 2 ^ 24"
  shows "card (DIR_INDEX ` set (identity_pages iend)) \<le> 4"
proof -
  have "DIR_INDEX a \<in> {0, 1, 2, 3}" if "a \<in> set (identity_pages iend)" for a
  proof -
    from that have "unat a < 2 ^ 24"
      using unat_identity_page assms by (fastforce simp: identity_pages_def)
    then have "unat (DIR_INDEX a) < 4"
      by (simp add: DIR_INDEX_def drop_bit_eq_div unat_div less_mult_imp_div_less)
    then have "unat (DIR_INDEX a) \<in> {0, 1, 2, 3}" by auto
    then show ?thesis by (auto simp: word_unat_eq_iff)
  qed
  then have "card (DIR_INDEX ` set (identity_pages iend)) \<le> card {0, 1, 2, 3 :: u32}"
    by (intro card_mono) auto
  then show ?thesis by simp
qed

lemma paging_init_correct:
  fixes s :: "'a paging_layer_scheme"
  defines "iend \<equiv> identity_limit (mem_highest_addr s)"
  assumes pmm: "pmm_inv (pmm s)" "0 \<notin> free_frames (pmm s)"
    and init: "table_count (paging s) = 0" "mapped_pages (paging s) = 0"
    and enough: "5 \<le> card {f \<in> free_frames (pmm s). f * 4096 < unat iend}"
  shows "paging_inv (paging_init s)" "paging_enabled (paging (paging_init s))"
    "cr3 (paging (paging_init s)) = page_directory (paging (paging_init s))"
    "tlb (paging (paging_init s)) = (\<lambda>_. None)" "identity_end (paging (paging_init s)) = iend"
    "page_of (paging_init s) v = (if v < iend then Some (FRAME_OF v) else None)"
    "card {f \<in> free_frames (pmm s). f * 4096 < unat iend} \<le> card (low_free (paging_init s)) + 5"
    "0 \<notin> free_frames (pmm (paging_init s))" "con (paging_init s) = con s"
    "mmap (paging_init s) = mmap s" "paging_layer.more (paging_init s) = paging_layer.more s"
    "total_frames (pmm (paging_init s)) = total_frames (pmm s)"
proof -
  let ?low = "{f \<in> free_frames (pmm s). f * 4096 < unat iend}"
  note iend = identity_limit_bounds [of "mem_highest_addr s", folded iend_def]
  obtain d p where al: "pmm_alloc_frame (pmm s) = (d, p)" by fastforce
  have ne: "?low \<noteq> {}" using enough by (metis card.empty le_zero_eq zero_neq_numeral)
  then have "free_frames (pmm s) \<noteq> {}" by auto
  then have d: "d \<noteq> 0" using fa.alloc_zero_iff [OF pmm] al by simp
  note c = fa.alloc_cases [OF pmm(1) al d] and p = pmm_alloc_inv [OF pmm(1) al]
  have dl: "unat d < unat iend"
    using ne c(5) c(3) by (fastforce simp: frame_no_def dvd_div_mult_self)
  define q where "q = (paging s)\<lparr>identity_end := iend, dir_phys := d, page_directory := d\<rparr>"
  define s1 where "s1 = s\<lparr>pmm := p, paging := q, mem := memset (mem s) d 0 4096\<rparr>"
  have q: "page_directory q = d" "table_count q = 0" "mapped_pages q = 0" "identity_end q = iend"
    using init by (simp_all add: q_def)
  note s1 = empty_directory [OF p(1) d c(3) _ _ _ _ q(1-3) s1_def, unfolded q(4), OF _ dl iend(2,1)]
  have nf: "frame_no d \<notin> free_frames p" using c(4) by simp
  have "low_free s1 = ?low - {frame_no d}"
    by (auto simp: low_free_def s1_def q c(4))
  then have low: "4 \<le> card (low_free s1)" "card ?low \<le> card (low_free s1) + 1"
    using enough diff_card_le_card_Diff [of "{frame_no d}" ?low] by simp_all
  obtain s2 where s2: "identity_map (identity_pages iend) s1 = (True, s2)" "paging_inv s2" "paging_frame s1 s2"
    "\<forall>v. page_of s2 v = (if v < iend then Some (FRAME_OF v) else page_of s1 v)"
    "card (low_free s1) \<le> card (low_free s2) + card (DIR_INDEX ` set (identity_pages iend))"
    using identity_map_success [OF s1(1) [OF nf], of "identity_pages iend"] identity_tables [OF iend(2)] low(1)
      s1(3) [OF nf] p(3) pmm(2) identity_pages_cover [OF iend(1)] by (auto simp: s1_def)
  have fin: "paging_init s = (load_cr3 d s2)\<lparr>paging := (paging (load_cr3 d s2))\<lparr>paging_enabled := True\<rparr>\<rparr>"
    using al d s2(1) unfolding paging_init_def iend_def [symmetric] identity_pages_def [symmetric]
    by (simp add: Let_def s1_def q_def)
  have pg: "pte (paging_init s) = pte s2" "page_directory (paging s2) = d" "identity_end (paging s2) = iend"
    using s2(3) by (simp_all add: fin load_cr3_def pte_def table_entry_def dirent_def fun_eq_iff paging_frame_def
        s1_def q)
  show "paging_inv (paging_init s)"
    using s2(2) by (simp add: fin load_cr3_def paging_inv_def table_ok_def table_set_def dirent_def mapped_set_def
        pte_def table_entry_def)
  show "paging_enabled (paging (paging_init s))" "tlb (paging (paging_init s)) = (\<lambda>_. None)"
    "cr3 (paging (paging_init s)) = page_directory (paging (paging_init s))"
    "identity_end (paging (paging_init s)) = iend"
    using pg by (simp_all add: fin load_cr3_def)
  show "page_of (paging_init s) v = (if v < iend then Some (FRAME_OF v) else None)"
    using s2(4) s1(2) [OF nf] by (simp add: page_of_def pg)
  have "low_free (paging_init s) = low_free s2"
    by (simp add: fin load_cr3_def low_free_def)
  then show "card ?low \<le> card (low_free (paging_init s)) + 5"
    using s2(5) low(2) identity_tables [OF iend(2)] by simp
  show "0 \<notin> free_frames (pmm (paging_init s))"
    using s2(3) p(3) pmm(2) by (auto simp: fin load_cr3_def paging_frame_def s1_def)
  show "con (paging_init s) = con s" "mmap (paging_init s) = mmap s"
    "paging_layer.more (paging_init s) = paging_layer.more s"
    "total_frames (pmm (paging_init s)) = total_frames (pmm s)"
    using s2(3) p(2) by (simp_all add: fin load_cr3_def paging_frame_def s1_def)
qed

end
