(* ===== verification/Heap.thy ===== *)
theory Heap
  imports Paging_Init
begin

text \<open>
  The kernel heap (\<^verbatim>\<open>heap.c\<close>): a first-fit free list of blocks in virtual memory, each preceded by
  a 16-byte header \<open>magic, size, next, free\<close>. The headers are read and written in the byte
  memory at their addresses, exactly where the code puts them. The loops follow the \<^verbatim>\<open>next\<close>
  pointers found in memory, so on a corrupted heap they need not end: they are
  \<^theory_text>\<open>partial_function\<close>s, and every operation built on them returns \<open>None\<close> when its loop does
  not return. The theory \<open>Heap_Refine\<close> shows that on a well-formed heap they do return.
\<close>

definition HEAP_START :: u32 where "HEAP_START = 0xC0000000"
definition HEAP_INITIAL :: u32 where "HEAP_INITIAL = 64 * 1024"
definition HEAP_MAX :: u32 where "HEAP_MAX = 4 * 1024 * 1024"
definition BLOCK_MAGIC :: u32 where "BLOCK_MAGIC = 0x4A415256"
definition MIN_SPLIT :: u32 where "MIN_SPLIT = 16"
definition HDR :: u32 where "HDR = 16"  \<comment> \<open>\<^verbatim>\<open>sizeof(block_t)\<close>\<close>

lemmas heap_consts = HEAP_START_def HEAP_INITIAL_def HEAP_MAX_def MIN_SPLIT_def HDR_def PAGE_SIZE_def

record heap_state =
  head :: u32
  brk :: u32
  heap_ready :: bool

record heap_layer = paging_layer +
  heap :: heap_state

section \<open>Block headers\<close>

definition blk_magic :: "mem \<Rightarrow> u32 \<Rightarrow> u32" where "blk_magic m b = ld32 m b"
definition blk_size :: "mem \<Rightarrow> u32 \<Rightarrow> u32" where "blk_size m b = ld32 m (b + 4)"
definition blk_next :: "mem \<Rightarrow> u32 \<Rightarrow> u32" where "blk_next m b = ld32 m (b + 8)"
definition blk_free :: "mem \<Rightarrow> u32 \<Rightarrow> u32" where "blk_free m b = ld32 m (b + 12)"

definition set_magic :: "u32 \<Rightarrow> u32 \<Rightarrow> mem \<Rightarrow> mem" where "set_magic b w m = st32 m b w"
definition set_size :: "u32 \<Rightarrow> u32 \<Rightarrow> mem \<Rightarrow> mem" where "set_size b w m = st32 m (b + 4) w"
definition set_next :: "u32 \<Rightarrow> u32 \<Rightarrow> mem \<Rightarrow> mem" where "set_next b w m = st32 m (b + 8) w"
definition set_free :: "u32 \<Rightarrow> u32 \<Rightarrow> mem \<Rightarrow> mem" where "set_free b w m = st32 m (b + 12) w"

lemmas blk_defs = blk_magic_def blk_size_def blk_next_def blk_free_def
lemmas set_defs = set_magic_def set_size_def set_next_def set_free_def

definition align8 :: "u32 \<Rightarrow> u32" where
  "align8 n = (n + 7) AND NOT 7"

section \<open>Growing the mapping\<close>

fun grow_pages :: "u32 list \<Rightarrow> 'a heap_layer_scheme \<Rightarrow> bool \<times> 'a heap_layer_scheme" where
  "grow_pages [] s = (True, s)"
| "grow_pages (off # offs) s =
     (let (frame, p) = pmm_alloc_frame (pmm s); s = s\<lparr>pmm := p\<rparr>
      in if frame = 0 then (False, s)
         else let (ok, s) = paging_map (brk (heap s) + off) frame PAGE_WRITE s
              in if \<not> ok then (False, s\<lparr>pmm := pmm_free_frame frame (pmm s)\<rparr>)
                 else grow_pages offs s)"

definition page_round :: "u32 \<Rightarrow> u32" where
  "page_round bytes = (bytes + PAGE_SIZE - 1) AND NOT (PAGE_SIZE - 1)"

definition grow_mapping :: "u32 \<Rightarrow> 'a heap_layer_scheme \<Rightarrow> bool \<times> 'a heap_layer_scheme" where
  "grow_mapping bytes s =
     (let bytes = page_round bytes
      in if brk (heap s) + bytes > HEAP_START + HEAP_MAX then (False, s)
         else let (ok, s) = grow_pages (map (\<lambda>i. of_nat i * PAGE_SIZE) [0..<unat (bytes div PAGE_SIZE)]) s
              in if \<not> ok then (False, s)
                 else (True, s\<lparr>heap := (heap s)\<lparr>brk := brk (heap s) + bytes\<rparr>\<rparr>))"

section \<open>Coalescing\<close>

partial_function (option) coalesce_loop :: "u32 \<Rightarrow> mem \<Rightarrow> mem option" where
  "coalesce_loop b m =
     (if b \<noteq> 0 \<and> blk_next m b \<noteq> 0
      then if blk_free m b \<noteq> 0 \<and> blk_free m (blk_next m b) \<noteq> 0 \<and> b + HDR + blk_size m b = blk_next m b
           then coalesce_loop b
                  (let m = set_size b (blk_size m b + (HDR + blk_size m (blk_next m b))) m
                   in set_next b (blk_next m (blk_next m b)) m)
           else coalesce_loop (blk_next m b) m
      else Some m)"

definition coalesce :: "'a heap_layer_scheme \<Rightarrow> 'a heap_layer_scheme option" where
  "coalesce s = do { m \<leftarrow> coalesce_loop (head (heap s)) (mem s); Some (s\<lparr>mem := m\<rparr>) }"

section \<open>Initialisation and extension\<close>

definition write_free_block :: "u32 \<Rightarrow> u32 \<Rightarrow> u32 \<Rightarrow> mem \<Rightarrow> mem" where
  "write_free_block b sz nxt m = set_free b 1 (set_next b nxt (set_size b sz (set_magic b BLOCK_MAGIC m)))"

definition heap_init :: "'a heap_layer_scheme \<Rightarrow> 'a heap_layer_scheme" where
  "heap_init s =
     (let s = s\<lparr>heap := (heap s)\<lparr>brk := HEAP_START\<rparr>\<rparr>;
          (ok, s) = grow_mapping HEAP_INITIAL s
      in if \<not> ok then kprint ''FATAL: could not map the kernel heap.\<newline>'' s
         else let s = s\<lparr>heap := (heap s)\<lparr>head := HEAP_START\<rparr>\<rparr>;
                  s = s\<lparr>mem := write_free_block HEAP_START (brk (heap s) - HEAP_START - HDR) 0 (mem s)\<rparr>
              in s\<lparr>heap := (heap s)\<lparr>heap_ready := True\<rparr>\<rparr>)"

partial_function (option) find_tail :: "mem \<Rightarrow> u32 \<Rightarrow> u32 option" where
  "find_tail m t = (if blk_next m t \<noteq> 0 then find_tail m (blk_next m t) else Some t)"

definition extend_heap :: "u32 \<Rightarrow> 'a heap_layer_scheme \<Rightarrow> (bool \<times> 'a heap_layer_scheme) option" where
  "extend_heap payload s =
     (let want = payload + HDR;
          want = (if want < PAGE_SIZE * 4 then PAGE_SIZE * 4 else want);
          old_brk = brk (heap s);
          (ok, s) = grow_mapping want s
      in if \<not> ok then Some (False, s)
         else do {
           let s = s\<lparr>mem := write_free_block old_brk (brk (heap s) - old_brk - HDR) 0 (mem s)\<rparr>;
           tail \<leftarrow> find_tail (mem s) (head (heap s));
           let s = s\<lparr>mem := set_next tail old_brk (mem s)\<rparr>;
           s \<leftarrow> coalesce s;
           Some (True, s)
         })"

section \<open>Allocation\<close>

text \<open>One pass of \<^verbatim>\<open>kmalloc\<close> over the list; the result is the pointer, or \<open>None\<close> if nothing fits.\<close>

definition kmalloc_take :: "u32 \<Rightarrow> u32 \<Rightarrow> mem \<Rightarrow> mem" where
  "kmalloc_take sz b m =
     (let m = (if blk_size m b \<ge> sz + HDR + MIN_SPLIT
               then let rest = b + HDR + sz;
                        m = write_free_block rest (blk_size m b - sz - HDR) (blk_next m b) m
                    in set_next b rest (set_size b sz m)
               else m)
      in set_free b 0 m)"

partial_function (option) kmalloc_scan :: "u32 \<Rightarrow> u32 \<Rightarrow> mem \<Rightarrow> (u32 option \<times> mem) option" where
  "kmalloc_scan sz b m =
     (if b = 0 then Some (None, m)
      else if blk_free m b = 0 \<or> blk_size m b < sz then kmalloc_scan sz (blk_next m b) m
      else Some (Some (b + HDR), kmalloc_take sz b m))"

fun kmalloc_attempts :: "nat \<Rightarrow> u32 \<Rightarrow> 'a heap_layer_scheme \<Rightarrow> (u32 \<times> 'a heap_layer_scheme) option" where
  "kmalloc_attempts 0 sz s = Some (0, s)"
| "kmalloc_attempts (Suc n) sz s =
     do {
       (r, m) \<leftarrow> kmalloc_scan sz (head (heap s)) (mem s);
       case r of
         Some p \<Rightarrow> Some (p, s\<lparr>mem := m\<rparr>)
       | None \<Rightarrow> do {
           (ok, s) \<leftarrow> extend_heap sz s;
           if \<not> ok then Some (0, s) else kmalloc_attempts n sz s
         }
     }"

definition kmalloc :: "u32 \<Rightarrow> 'a heap_layer_scheme \<Rightarrow> (u32 \<times> 'a heap_layer_scheme) option" where
  "kmalloc sz s =
     (if \<not> heap_ready (heap s) \<or> sz = 0 then Some (0, s) else kmalloc_attempts 2 (align8 sz) s)"

definition kfree :: "u32 \<Rightarrow> 'a heap_layer_scheme \<Rightarrow> (bool \<times> 'a heap_layer_scheme) option" where
  "kfree addr s =
     (if addr = 0 then Some (False, s)
      else if addr < HEAP_START + HDR \<or> addr \<ge> brk (heap s)
      then Some (False, kprint '' is outside the heap\<newline>'' (kprint_hex addr (kprint ''kfree: '' s)))
      else let b = addr - HDR
           in if blk_magic (mem s) b \<noteq> BLOCK_MAGIC
              then Some (False, kprint ''\<newline>'' (kprint_hex addr
                     (kprint ''kfree: bad pointer (no block header) at '' s)))
              else if blk_free (mem s) b \<noteq> 0
              then Some (False, kprint ''\<newline>'' (kprint_hex addr (kprint ''kfree: double free at '' s)))
              else do {
                s \<leftarrow> coalesce (s\<lparr>mem := set_free b 1 (mem s)\<rparr>);
                Some (True, s)
              })"

section \<open>Statistics\<close>

definition heap_size :: "'a heap_layer_scheme \<Rightarrow> u32" where
  "heap_size s = brk (heap s) - HEAP_START"
definition heap_break :: "'a heap_layer_scheme \<Rightarrow> u32" where
  "heap_break s = brk (heap s)"

partial_function (option) heap_used_loop :: "mem \<Rightarrow> u32 \<Rightarrow> u32 \<Rightarrow> u32 option" where
  "heap_used_loop m b used =
     (if b = 0 then Some used
      else heap_used_loop m (blk_next m b)
             (if blk_free m b = 0 then used + HDR + blk_size m b else used + HDR))"

definition heap_used :: "'a heap_layer_scheme \<Rightarrow> u32 option" where
  "heap_used s = heap_used_loop (mem s) (head (heap s)) 0"

definition heap_free :: "'a heap_layer_scheme \<Rightarrow> u32 option" where
  "heap_free s = map_option (\<lambda>u. heap_size s - u) (heap_used s)"

partial_function (option) heap_blocks_loop :: "mem \<Rightarrow> u32 \<Rightarrow> u32 \<Rightarrow> u32 option" where
  "heap_blocks_loop m b n = (if b = 0 then Some n else heap_blocks_loop m (blk_next m b) (n + 1))"

definition heap_blocks :: "'a heap_layer_scheme \<Rightarrow> u32 option" where
  "heap_blocks s = heap_blocks_loop (mem s) (head (heap s)) 0"

partial_function (option) heap_free_blocks_loop :: "mem \<Rightarrow> u32 \<Rightarrow> u32 \<Rightarrow> u32 option" where
  "heap_free_blocks_loop m b n =
     (if b = 0 then Some n
      else heap_free_blocks_loop m (blk_next m b) (if blk_free m b \<noteq> 0 then n + 1 else n))"

definition heap_free_blocks :: "'a heap_layer_scheme \<Rightarrow> u32 option" where
  "heap_free_blocks s = heap_free_blocks_loop (mem s) (head (heap s)) 0"

text \<open>\<open>heap_dump_loop left b s\<close>: print up to \<open>left\<close> more blocks; also returns how many are left.\<close>

fun heap_dump_loop :: "nat \<Rightarrow> u32 \<Rightarrow> 'a heap_layer_scheme \<Rightarrow> nat \<times> 'a heap_layer_scheme" where
  "heap_dump_loop 0 b s = (0, s)"
| "heap_dump_loop (Suc left) b s =
     (if b = 0 then (Suc left, s)
      else let nxt = blk_next (mem s) b; sz = blk_size (mem s) b; fr = blk_free (mem s) b;
               s = kprint ''  '' s;
               s = kprint_hex b s;
               s = kprint ''  '' s;
               s = kprint_int sz s;
               s = kprint (if fr \<noteq> 0 then '' bytes  FREE\<newline>'' else '' bytes  USED\<newline>'') s
           in heap_dump_loop left nxt s)"

definition heap_dump :: "'a heap_layer_scheme \<Rightarrow> 'a heap_layer_scheme" where
  "heap_dump s =
     (let (left, s) = heap_dump_loop 16 (head (heap s)) (kprint ''Heap blocks (address, payload, state):\<newline>'' s)
      in if left = 0 then kprint ''  ... (list truncated)\<newline>'' s else s)"

end
