(* ===== verification/Heap_List.thy ===== *)
theory Heap_List
  imports Heap
begin

text \<open>
  The heap as a list of blocks. \<open>chain m p bs\<close> says that the headers found in memory from
  pointer \<open>p\<close> on spell the list \<open>bs\<close> of blocks (address, payload size, free flag); \<open>tiled lo bs
  hi\<close> says that these blocks lie end to end from address \<open>lo\<close> to \<open>hi\<close> with payloads that are
  multiples of 8. The list operations \<open>first_fit\<close>, \<open>merge\<close>, \<open>free_at\<close> are the specification of
  the pointer code; this theory shows that each loop of \<^verbatim>\<open>heap.c\<close>, run on a memory that
  represents a tiled list, returns, performs exactly the list operation, and writes nothing
  outside the segment it was given and nothing inside the payload of an allocated block.
\<close>

type_synonym hblock = "u32 \<times> u32 \<times> bool"

fun chain :: "mem \<Rightarrow> u32 \<Rightarrow> hblock list \<Rightarrow> bool" where
  "chain m p [] \<longleftrightarrow> p = 0"
| "chain m p ((a, n, f) # bs) \<longleftrightarrow>
     p = a \<and> blk_magic m a = BLOCK_MAGIC \<and> blk_size m a = n \<and> (blk_free m a \<noteq> 0 \<longleftrightarrow> f) \<and>
     chain m (blk_next m a) bs"

fun tiled :: "nat \<Rightarrow> hblock list \<Rightarrow> nat \<Rightarrow> bool" where
  "tiled lo [] hi \<longleftrightarrow> lo = hi"
| "tiled lo ((a, n, f) # bs) hi \<longleftrightarrow>
     unat a = lo \<and> 0 < lo \<and> 8 dvd unat n \<and> tiled (lo + 16 + unat n) bs hi"

section \<open>List operations\<close>

fun first_fit :: "u32 \<Rightarrow> hblock list \<Rightarrow> u32 option \<times> hblock list" where
  "first_fit sz [] = (None, [])"
| "first_fit sz ((a, n, f) # bs) =
     (if \<not> f \<or> n < sz then (let (r, bs') = first_fit sz bs in (r, (a, n, f) # bs'))
      else if n \<ge> sz + HDR + MIN_SPLIT
      then (Some (a + HDR), (a, sz, False) # (a + HDR + sz, n - sz - HDR, True) # bs)
      else (Some (a + HDR), (a, n, False) # bs))"

fun merge :: "hblock list \<Rightarrow> hblock list" where
  "merge [] = []"
| "merge [b] = [b]"
| "merge ((a, n, f) # (a', n', f') # bs) =
     (if f \<and> f' then merge ((a, n + (HDR + n'), True) # bs) else (a, n, f) # merge ((a', n', f') # bs))"

definition free_at :: "u32 \<Rightarrow> hblock list \<Rightarrow> hblock list" where
  "free_at b bs = map (\<lambda>(a, n, f). (a, n, f \<or> a = b)) bs"

text \<open>The bytes of allocated payloads, and the blocks no two neighbours of which are free.\<close>

definition payload :: "u32 \<Rightarrow> u32 \<Rightarrow> nat set" where
  "payload a n = {unat a + 16 ..< unat a + 16 + unat n}"

definition used_bytes :: "hblock list \<Rightarrow> nat set" where
  "used_bytes bs = (\<Union>(a, n, f) \<in> set bs. if f then {} else payload a n)"

fun coalesced :: "hblock list \<Rightarrow> bool" where
  "coalesced ((a, n, f) # (a', n', f') # bs) \<longleftrightarrow> \<not> (f \<and> f') \<and> coalesced ((a', n', f') # bs)"
| "coalesced _ \<longleftrightarrow> True"

lemma used_bytes_simps [simp]:
  "used_bytes [] = {}"
  "used_bytes ((a, n, f) # bs) = (if f then {} else payload a n) \<union> used_bytes bs"
  by (auto simp: used_bytes_def)

section \<open>Tiled lists\<close>

lemma tiled_le: "tiled lo bs hi \<Longrightarrow> lo \<le> hi"
  by (induction lo bs hi rule: tiled.induct) auto

lemma tiled_append: "tiled lo (as @ bs) hi \<longleftrightarrow> (\<exists>mid. tiled lo as mid \<and> tiled mid bs hi)"
  by (induction lo as hi rule: tiled.induct) auto

lemma tiled_member:
  "tiled lo bs hi \<Longrightarrow> (a, n, f) \<in> set bs \<Longrightarrow> lo \<le> unat a \<and> unat a + 16 + unat n \<le> hi"
proof (induction lo bs hi rule: tiled.induct)
  case (2 lo a' n' f' bs hi)
  then show ?case using tiled_le by fastforce
qed simp

lemma tiled_used_bytes: "tiled lo bs hi \<Longrightarrow> used_bytes bs \<subseteq> {lo ..< hi}"
  using tiled_member by (fastforce simp: used_bytes_def payload_def split: if_splits)

lemma tiled_distinct:
  "tiled lo bs hi \<Longrightarrow> (a, n, f) \<in> set bs \<Longrightarrow> (a, n', f') \<in> set bs \<Longrightarrow> n = n' \<and> f = f'"
proof (induction lo bs hi rule: tiled.induct)
  case (2 lo b k g bs hi)
  have "unat x \<noteq> lo" if "(x, y, z) \<in> set bs" for x y z
    using tiled_member [of "lo + 16 + unat k" bs hi x y z] 2 that by auto
  with 2 show ?case by auto
qed simp

lemma tiled_overlap:
  assumes "tiled lo bs hi" "(a, n, f) \<in> set bs" "(a', n', f') \<in> set bs" "a \<noteq> a'"
  shows "unat a + 16 + unat n \<le> unat a' \<or> unat a' + 16 + unat n' \<le> unat a"
  using assms
proof (induction lo bs hi rule: tiled.induct)
  case (2 lo b k g bs hi)
  have "lo + 16 + unat k \<le> unat x" if "(x, y, z) \<in> set bs" for x y z
    using tiled_member [of "lo + 16 + unat k" bs hi x y z] 2 that by auto
  with 2 show ?case by auto
qed simp

section \<open>Headers in memory\<close>

text \<open>Writing a header field changes that field only; all four lie in the 16 bytes from \<open>b\<close>.\<close>

lemma header_fields [simp]:
  assumes "unat b + 16 \<le> 2 ^ 32"
  shows "blk_magic (set_magic b w m) b = w" "blk_size (set_magic b w m) b = blk_size m b"
    "blk_next (set_magic b w m) b = blk_next m b" "blk_free (set_magic b w m) b = blk_free m b"
    "blk_magic (set_size b w m) b = blk_magic m b" "blk_size (set_size b w m) b = w"
    "blk_next (set_size b w m) b = blk_next m b" "blk_free (set_size b w m) b = blk_free m b"
    "blk_magic (set_next b w m) b = blk_magic m b" "blk_size (set_next b w m) b = blk_size m b"
    "blk_next (set_next b w m) b = w" "blk_free (set_next b w m) b = blk_free m b"
    "blk_magic (set_free b w m) b = blk_magic m b" "blk_size (set_free b w m) b = blk_size m b"
    "blk_next (set_free b w m) b = blk_next m b" "blk_free (set_free b w m) b = w"
  using assms by (simp_all add: blk_defs set_defs ld32_st32_sep)

lemma set_outside [simp]:
  assumes "unat b + 16 \<le> 2 ^ 32" "unat x < unat b \<or> unat b + 16 \<le> unat x"
  shows "set_magic b w m x = m x" "set_size b w m x = m x" "set_next b w m x = m x" "set_free b w m x = m x"
  using assms by (auto simp: set_defs st32_outside)

lemma header_cong:
  assumes "unat b + 16 \<le> 2 ^ 32" "\<And>x. unat b \<le> unat x \<Longrightarrow> unat x < unat b + 16 \<Longrightarrow> m' x = m x"
  shows "blk_magic m' b = blk_magic m b" "blk_size m' b = blk_size m b"
    "blk_next m' b = blk_next m b" "blk_free m' b = blk_free m b"
  using assms by (auto simp: blk_defs intro!: ld32_cong)

lemma chain_cong:
  assumes "tiled lo bs hi" "hi \<le> 2 ^ 32" "\<And>x. lo \<le> unat x \<Longrightarrow> unat x < hi \<Longrightarrow> m' x = m x"
  shows "chain m' p bs = chain m p bs"
  using assms
proof (induction lo bs hi arbitrary: p rule: tiled.induct)
  case (2 lo a n f bs hi)
  have le: "lo + 16 + unat n \<le> hi" using 2 by (auto dest: tiled_le)
  have "blk_magic m' a = blk_magic m a" "blk_size m' a = blk_size m a"
    "blk_next m' a = blk_next m a" "blk_free m' a = blk_free m a"
    using 2 le by (intro header_cong; simp)+
  moreover have "chain m' q bs = chain m q bs" for q
    using 2 by auto
  ultimately show ?case by auto
qed simp

lemma chain_head: "chain m p ((a, n, f) # bs) \<Longrightarrow> p = a"
  by simp

lemma chain_start: "tiled lo bs hi \<Longrightarrow> chain m p bs \<Longrightarrow> p = (case bs of [] \<Rightarrow> 0 | (a, _) # _ \<Rightarrow> a)"
  by (cases bs) auto

lemma tiled_nonnull: "tiled lo ((a, n, f) # bs) hi \<Longrightarrow> a \<noteq> 0"
  by auto

text \<open>Two memories that agree outside a segment, and on the allocated payloads inside it.\<close>

definition agree_outside :: "nat \<Rightarrow> hblock list \<Rightarrow> nat \<Rightarrow> mem \<Rightarrow> mem \<Rightarrow> bool" where
  "agree_outside lo bs hi m m' \<longleftrightarrow>
     (\<forall>x. unat x < lo \<or> hi \<le> unat x \<or> unat x \<in> used_bytes bs \<longrightarrow> m' x = m x)"

lemma agree_refl [simp]: "agree_outside lo bs hi m m"
  by (simp add: agree_outside_def)

lemma agree_trans:
  "agree_outside lo bs hi m m' \<Longrightarrow> agree_outside lo bs' hi m' m'' \<Longrightarrow> used_bytes bs \<subseteq> used_bytes bs' \<Longrightarrow>
     agree_outside lo bs hi m m''"
  by (auto simp: agree_outside_def)

text \<open>A change confined to the rest of the list leaves the first block alone.\<close>

lemma agree_tail:
  assumes "tiled lo ((a, n, f) # bs) hi" "agree_outside (lo + 16 + unat n) bs hi m m'"
  shows "agree_outside lo ((a, n, f) # bs) hi m m'"
  using assms by (auto simp: agree_outside_def payload_def split: if_splits)

lemma chain_tail:
  assumes "tiled lo ((a, n, f) # bs) hi" "hi \<le> 2 ^ 32" "chain m a ((a, n, f) # bs)"
    and "agree_outside (lo + 16 + unat n) bs hi m m'" "chain m' (blk_next m a) bs'"
  shows "chain m' a ((a, n, f) # bs')"
proof -
  have "unat a + 16 \<le> 2 ^ 32" using assms(1,2) by (auto dest: tiled_le)
  then have "blk_magic m' a = blk_magic m a" "blk_size m' a = blk_size m a"
    "blk_next m' a = blk_next m a" "blk_free m' a = blk_free m a"
    using assms(1,4) by (intro header_cong; auto simp: agree_outside_def)+
  with assms(3,5) show ?thesis by simp
qed

section \<open>Coalescing\<close>

lemma unat_merged:
  assumes "tiled lo ((a, n, f) # (a', n', f') # bs) hi" "hi \<le> 2 ^ 32"
  shows "unat (n + (HDR + n')) = unat n + 16 + unat n'" "a + HDR + n = a'"
proof -
  have le: "unat a + 16 + unat n + 16 + unat n' \<le> 2 ^ 32" "0 < unat a"
    using assms by (auto dest: tiled_le)
  then show "unat (n + (HDR + n')) = unat n + 16 + unat n'"
    by (simp add: HDR_def unat_word_ariths)
  show "a + HDR + n = a'"
    using assms(1) le by (simp add: HDR_def word_unat_eq_iff unat_word_ariths)
qed

lemma tiled_merge: "tiled lo bs hi \<Longrightarrow> hi \<le> 2 ^ 32 \<Longrightarrow> tiled lo (merge bs) hi"
proof (induction bs arbitrary: lo rule: merge.induct)
  case (3 a n f a' n' f' bs)
  show ?case
  proof (cases "f \<and> f'")
    case True
    with 3 unat_merged [OF "3.prems"] show ?thesis by (auto simp: algebra_simps)
  next
    case False
    with 3 show ?thesis by auto
  qed
qed simp_all

lemma used_bytes_merge [simp]: "used_bytes (merge bs) = used_bytes bs"
  by (induction bs rule: merge.induct) auto

lemma coalesced_merge: "coalesced (merge bs)"
proof -
  have "coalesced (merge bs) \<and> (\<forall>a n f bs'. bs = (a, n, f) # bs' \<longrightarrow> (\<exists>n' bs''. merge bs = (a, n', f) # bs''))"
  proof (induction bs rule: merge.induct)
    case (3 a n f a' n' f' bs)
    show ?case
    proof (cases "f \<and> f'")
      case True
      with 3 show ?thesis by auto
    next
      case False
      with 3 obtain k bs'' where "merge ((a', n', f') # bs) = (a', k, f') # bs''" "coalesced ((a', k, f') # bs'')"
        by auto
      with False show ?thesis by auto
    qed
  qed auto
  then show ?thesis by blast
qed

text \<open>The body of the loop: the first block swallows the second.\<close>

lemma swallow_refines:
  assumes t: "tiled lo ((a, n, True) # (a', n', True) # bs) hi" and hi: "hi \<le> 2 ^ 32"
    and c: "chain m a ((a, n, True) # (a', n', True) # bs)"
  defines "m1 \<equiv> (let m = set_size a (blk_size m a + (HDR + blk_size m (blk_next m a))) m
                 in set_next a (blk_next m (blk_next m a)) m)"
  shows "tiled lo ((a, n + (HDR + n'), True) # bs) hi" "chain m1 a ((a, n + (HDR + n'), True) # bs)"
    "agree_outside lo ((a, n, True) # (a', n', True) # bs) hi m m1"
proof -
  have le: "unat a + 16 + unat n + 16 + unat n' \<le> hi" and a': "unat a' = unat a + 16 + unat n"
    and lo: "unat a = lo" and tbs: "tiled (lo + 16 + unat n + 16 + unat n') bs hi"
    using t by (auto dest: tiled_le)
  show "tiled lo ((a, n + (HDR + n'), True) # bs) hi"
    using t unat_merged(1) [OF t hi] by (auto simp: algebra_simps)
  have a16: "unat a + 16 \<le> 2 ^ 32" "unat a' + 16 \<le> 2 ^ 32" using le a' hi by auto
  have cm: "blk_size m a = n" "blk_next m a = a'" "blk_size m a' = n'" "blk_magic m a = BLOCK_MAGIC"
    "blk_free m a \<noteq> 0" "chain m (blk_next m a') bs"
    using c by auto
  have "blk_next (set_size a (n + (HDR + n')) m) a' = blk_next m a'"
    using a16 a' by (intro header_cong) auto
  then have m1: "m1 = set_next a (blk_next m a') (set_size a (n + (HDR + n')) m)"
    using a16 by (simp add: m1_def cm)
  have out: "m1 x = m x" if "unat x < unat a \<or> unat a + 16 \<le> unat x" for x
    using that a16 by (simp add: m1)
  have "chain m1 (blk_next m a') bs = chain m (blk_next m a') bs"
    using tbs hi out lo by (intro chain_cong [OF tbs]) auto
  then show "chain m1 a ((a, n + (HDR + n'), True) # bs)"
    using cm a16 by (simp add: m1)
  show "agree_outside lo ((a, n, True) # (a', n', True) # bs) hi m m1"
    unfolding agree_outside_def using tiled_used_bytes [OF tbs] lo le by (auto intro!: out)
qed

lemma coalesce_loop_unfold:
  assumes "tiled lo ((a, n, f) # (a', n', f') # bs) hi" "hi \<le> 2 ^ 32"
    and "chain m a ((a, n, f) # (a', n', f') # bs)"
  shows "coalesce_loop a m =
    (if f \<and> f' then coalesce_loop a
       (let m = set_size a (blk_size m a + (HDR + blk_size m (blk_next m a))) m
        in set_next a (blk_next m (blk_next m a)) m)
     else coalesce_loop a' m)"
  using assms unat_merged(2) [OF assms(1,2)] tiled_nonnull [OF assms(1)]
  by (subst coalesce_loop.simps) auto

lemma coalesce_loop_refines:
  "tiled lo bs hi \<Longrightarrow> hi \<le> 2 ^ 32 \<Longrightarrow> chain m p bs \<Longrightarrow>
     \<exists>m'. coalesce_loop p m = Some m' \<and> chain m' p (merge bs) \<and> agree_outside lo bs hi m m'"
proof (induction bs arbitrary: lo m p rule: merge.induct)
  case 1
  then show ?case by (subst coalesce_loop.simps) simp
next
  case (2 b)
  then show ?case by (cases b) (subst coalesce_loop.simps, simp)
next
  case (3 a n f a' n' f' bs)
  have p: "p = a" "blk_next m a = a'" using "3.prems"(3) by auto
  note unfold = coalesce_loop_unfold [OF "3.prems" [unfolded p(1)]]
  show ?case
  proof (cases "f \<and> f'")
    case True
    then have ft: "f = True" "f' = True" by simp_all
    note sw = swallow_refines [OF "3.prems" [unfolded p(1) ft]]
    from "3.IH"(1) [OF True sw(1) "3.prems"(2) sw(2)] obtain m' where
      m': "coalesce_loop a m = Some m'" "chain m' a (merge ((a, n + (HDR + n'), True) # bs))"
      "agree_outside lo ((a, n, True) # (a', n', True) # bs) hi m m'"
      using unfold ft agree_trans [OF sw(3)] by auto
    with ft p(1) show ?thesis by auto
  next
    case False
    have tl: "tiled (lo + 16 + unat n) ((a', n', f') # bs) hi" using "3.prems"(1) by simp
    have ch: "chain m a' ((a', n', f') # bs)" using "3.prems"(3) by simp
    from "3.IH"(2) [OF False tl "3.prems"(2) ch] obtain m' where
      m': "coalesce_loop a' m = Some m'" "chain m' a' (merge ((a', n', f') # bs))"
      "agree_outside (lo + 16 + unat n) ((a', n', f') # bs) hi m m'" by blast
    have "chain m' a ((a, n, f) # merge ((a', n', f') # bs))"
      using chain_tail [OF "3.prems"(1,2) _ m'(3)] m'(2) "3.prems"(3) p by auto
    moreover have "agree_outside lo ((a, n, f) # (a', n', f') # bs) hi m m'"
      using agree_tail [OF "3.prems"(1) m'(3)] .
    ultimately show ?thesis
      using m'(1) False unfold p(1) by auto
  qed
qed

section \<open>First fit\<close>

lemma write_free_block_fields:
  assumes "unat b + 16 \<le> 2 ^ 32"
  shows "blk_magic (write_free_block b k q m) b = BLOCK_MAGIC" "blk_size (write_free_block b k q m) b = k"
    "blk_next (write_free_block b k q m) b = q" "blk_free (write_free_block b k q m) b = 1"
    "unat x < unat b \<or> unat b + 16 \<le> unat x \<Longrightarrow> write_free_block b k q m x = m x"
  using assms by (simp_all add: write_free_block_def)

text \<open>Splitting a block that is large enough: the arithmetic of the two parts.\<close>

lemma split_sizes:
  assumes "tiled lo ((a, n, f) # bs) hi" "hi \<le> 2 ^ 32" "32 \<le> lo" "sz \<le> n"
  shows "sz + HDR + MIN_SPLIT \<le> n \<longleftrightarrow> unat sz + 32 \<le> unat n"
    and "unat sz + 32 \<le> unat n \<Longrightarrow> unat (n - sz - HDR) = unat n - unat sz - 16"
    and "unat sz + 32 \<le> unat n \<Longrightarrow> unat (a + HDR + sz) = unat a + 16 + unat sz"
proof -
  have n: "unat a + 16 + unat n \<le> hi" "unat a = lo" using assms(1) by (auto dest: tiled_le)
  have sz: "unat sz \<le> unat n" using assms(4) by (simp add: word_le_nat_alt)
  have "unat (sz + HDR + MIN_SPLIT) = unat sz + 32"
    using n sz assms(2,3) by (simp add: HDR_def MIN_SPLIT_def unat_word_ariths)
  then show "sz + HDR + MIN_SPLIT \<le> n \<longleftrightarrow> unat sz + 32 \<le> unat n"
    by (simp add: word_le_nat_alt)
  show "unat (n - sz - HDR) = unat n - unat sz - 16" if "unat sz + 32 \<le> unat n"
    using that sz by (simp add: HDR_def unat_sub word_le_nat_alt)
  show "unat (a + HDR + sz) = unat a + 16 + unat sz" if "unat sz + 32 \<le> unat n"
    using that n assms(2) by (simp add: HDR_def unat_word_ariths)
qed

lemma kmalloc_take_refines:
  assumes t: "tiled lo ((a, n, True) # bs) hi" and hi: "hi \<le> 2 ^ 32" "32 \<le> lo" and sz: "sz \<le> n"
    and c: "chain m a ((a, n, True) # bs)"
  shows "chain (kmalloc_take sz a m) a (snd (first_fit sz ((a, n, True) # bs)))"
    "agree_outside lo ((a, n, True) # bs) hi m (kmalloc_take sz a m)"
proof -
  have le: "unat a + 16 + unat n \<le> hi" and lo: "unat a = lo" and tbs: "tiled (lo + 16 + unat n) bs hi"
    using t by (auto dest: tiled_le)
  note sp = split_sizes [OF t hi sz]
  have cm: "blk_size m a = n" "blk_magic m a = BLOCK_MAGIC" "chain m (blk_next m a) bs" using c by auto
  have a16: "unat a + 16 \<le> 2 ^ 32" using le hi by simp
  have nsz: "\<not> n < sz" using sz by simp
  have "chain (kmalloc_take sz a m) a (snd (first_fit sz ((a, n, True) # bs))) \<and>
    (\<forall>x. unat x < lo \<or> lo + 16 + unat n \<le> unat x \<longrightarrow> kmalloc_take sz a m x = m x)"
  proof (cases "unat sz + 32 \<le> unat n")
    case True
    let ?r = "a + HDR + sz"
    define m1 where "m1 = write_free_block ?r (n - sz - HDR) (blk_next m a) m"
    define m2 where "m2 = set_free a 0 (set_next a ?r (set_size a sz m1))"
    have r: "unat ?r = unat a + 16 + unat sz" using sp(3) True by simp
    then have r16: "unat ?r + 16 \<le> 2 ^ 32" using le hi True by simp
    have take: "kmalloc_take sz a m = m2"
      using True sp(1) cm by (simp add: kmalloc_take_def m2_def m1_def Let_def)
    have m1a: "blk_magic m1 a = BLOCK_MAGIC"
      using a16 r cm by (subst header_cong(1) [of a m1 m]) (auto simp: m1_def write_free_block_fields(5) [OF r16])
    have m2m1: "m2 x = m1 x" if "unat x < unat a \<or> unat a + 16 \<le> unat x" for x
      using that a16 by (simp add: m2_def)
    have hr: "blk_magic m2 ?r = BLOCK_MAGIC" "blk_size m2 ?r = n - sz - HDR"
      "blk_next m2 ?r = blk_next m a" "blk_free m2 ?r = 1"
      using header_cong [of ?r m2 m1] m2m1 r r16 write_free_block_fields(1-4) [OF r16, of "n - sz - HDR" "blk_next m a" m]
      by (simp_all add: m1_def [symmetric])
    have out: "m2 x = m x" if "unat x < unat a \<or> unat ?r + 16 \<le> unat x" for x
      using that m2m1 [of x] r by (auto simp: m1_def write_free_block_fields(5) [OF r16])
    have "chain m2 (blk_next m a) bs"
      using cm(3) chain_cong [OF tbs hi(1), of m2 m "blk_next m a"] out r lo True by simp
    then have "chain m2 a ((a, sz, False) # (?r, n - sz - HDR, True) # bs)"
      using a16 m1a hr by (simp add: m2_def)
    moreover have "sz + HDR + MIN_SPLIT \<le> n" using sp(1) True by simp
    ultimately show ?thesis
      using nsz out r lo True by (auto simp: take)
  next
    case False
    then have take: "kmalloc_take sz a m = set_free a 0 m" using sp(1) cm by (simp add: kmalloc_take_def)
    have "chain (set_free a 0 m) (blk_next m a) bs"
      using cm(3) chain_cong [OF tbs hi(1), of "set_free a 0 m" m "blk_next m a"] a16 lo by simp
    with False sp(1) nsz cm a16 lo show ?thesis by (auto simp: take)
  qed
  then show "chain (kmalloc_take sz a m) a (snd (first_fit sz ((a, n, True) # bs)))"
    "agree_outside lo ((a, n, True) # bs) hi m (kmalloc_take sz a m)"
    using tiled_used_bytes [OF tbs] le lo by (auto simp: agree_outside_def)
qed

lemma kmalloc_scan_refines:
  "tiled lo bs hi \<Longrightarrow> hi \<le> 2 ^ 32 \<Longrightarrow> 32 \<le> lo \<Longrightarrow> chain m p bs \<Longrightarrow>
     \<exists>m'. kmalloc_scan sz p m = Some (fst (first_fit sz bs), m') \<and> chain m' p (snd (first_fit sz bs)) \<and>
       agree_outside lo bs hi m m'"
proof (induction bs arbitrary: lo p)
  case Nil
  then show ?case by (subst kmalloc_scan.simps) simp
next
  case (Cons b bs)
  obtain a n f where b: "b = (a, n, f)" by (cases b)
  note prems = Cons.prems [unfolded b]
  have p: "p = a" "a \<noteq> 0" using prems by auto
  show ?case
  proof (cases "\<not> f \<or> n < sz")
    case True
    have "tiled (lo + 16 + unat n) bs hi" "chain m (blk_next m a) bs" using prems by auto
    from Cons.IH [OF this(1) prems(2) _ this(2)] prems(3) obtain m' where
      m': "kmalloc_scan sz (blk_next m a) m = Some (fst (first_fit sz bs), m')"
      "chain m' (blk_next m a) (snd (first_fit sz bs))" "agree_outside (lo + 16 + unat n) bs hi m m'" by auto
    have "kmalloc_scan sz a m = kmalloc_scan sz (blk_next m a) m"
      using True p prems(4) by (subst kmalloc_scan.simps) auto
    then show ?thesis
      using True m' p(1) b chain_tail [OF prems(1,2) _ m'(3,2)] agree_tail [OF prems(1) m'(3)] prems(4)
      by (auto split: prod.split)
  next
    case False
    then have f: "f = True" and sz: "sz \<le> n" by auto
    have "kmalloc_scan sz a m = Some (Some (a + HDR), kmalloc_take sz a m)"
      using False p prems(4) by (subst kmalloc_scan.simps) auto
    then show ?thesis
      using kmalloc_take_refines [OF prems(1) [unfolded f] prems(2,3) sz] prems(4) f False p(1) b by auto
  qed
qed

text \<open>What first fit does to the list: the tiling stays, and only the chosen block changes.\<close>

lemma tiled_first_fit:
  "tiled lo bs hi \<Longrightarrow> hi \<le> 2 ^ 32 \<Longrightarrow> 32 \<le> lo \<Longrightarrow> 8 dvd unat sz \<Longrightarrow> tiled lo (snd (first_fit sz bs)) hi"
proof (induction bs arbitrary: lo)
  case (Cons b bs)
  obtain a n f where b: "b = (a, n, f)" by (cases b)
  show ?case
  proof (cases "\<not> f \<or> n < sz")
    case True
    with Cons b show ?thesis by (auto split: prod.split)
  next
    case False
    then have "sz \<le> n" by auto
    note sp = split_sizes [OF Cons.prems(1) [unfolded b] Cons.prems(2,3) this]
    show ?thesis
      using False Cons.prems sp b by (auto simp: algebra_simps dvd_diff_nat)
  qed
qed simp

lemma first_fit_None: "fst (first_fit sz bs) = None \<longleftrightarrow> (\<forall>(a, n, f) \<in> set bs. f \<longrightarrow> n < sz)"
  by (induction sz bs rule: first_fit.induct) (auto split: prod.split)

lemma first_fit_unchanged: "fst (first_fit sz bs) = None \<Longrightarrow> snd (first_fit sz bs) = bs"
  by (induction sz bs rule: first_fit.induct) (auto split: prod.splits if_splits)

text \<open>The block handed out: it was free and big enough, and is now in use.\<close>

lemma first_fit_Some:
  "tiled lo bs hi \<Longrightarrow> fst (first_fit sz bs) = Some q \<Longrightarrow>
    \<exists>a n k. (a, n, True) \<in> set bs \<and> q = a + HDR \<and> sz \<le> k \<and> k \<le> n \<and>
      (a, k, False) \<in> set (snd (first_fit sz bs)) \<and>
      used_bytes (snd (first_fit sz bs)) = payload a k \<union> used_bytes bs"
proof (induction bs arbitrary: lo)
  case (Cons b bs)
  obtain a n f where b: "b = (a, n, f)" by (cases b)
  show ?case
  proof (cases "\<not> f \<or> n < sz")
    case True
    with Cons.prems b have "tiled (lo + 16 + unat n) bs hi" "fst (first_fit sz bs) = Some q"
      by (auto split: prod.splits)
    from Cons.IH [OF this] obtain a' n' k where
      "(a', n', True) \<in> set bs" "q = a' + HDR" "sz \<le> k" "k \<le> n'"
      "(a', k, False) \<in> set (snd (first_fit sz bs))"
      "used_bytes (snd (first_fit sz bs)) = payload a' k \<union> used_bytes bs"
      by blast
    moreover have "first_fit sz (b # bs) = (fst (first_fit sz bs), (a, n, f) # snd (first_fit sz bs))"
      using True b by (simp add: case_prod_beta)
    ultimately show ?thesis
      by (intro exI [of _ a'] exI [of _ n'] exI [of _ k]) (simp add: b Un_left_commute)
  next
    case False
    then have "sz \<le> n" by auto
    with False b Cons.prems(2) show ?thesis
      by (cases "sz + HDR + MIN_SPLIT \<le> n") auto
  qed
qed simp

lemma coalesced_Cons: "coalesced ((a, n, f) # bs) \<longleftrightarrow> (bs \<noteq> [] \<longrightarrow> \<not> (f \<and> snd (snd (List.hd bs)))) \<and> coalesced bs"
  by (cases bs) auto

lemma coalesced_first_fit: "coalesced bs \<Longrightarrow> coalesced (snd (first_fit sz bs))"
proof (induction sz bs rule: first_fit.induct)
  case (2 sz a n f bs)
  have hd: "bs' \<noteq> [] \<and> snd (snd (List.hd bs')) \<longrightarrow> bs \<noteq> [] \<and> snd (snd (List.hd bs))"
    if "bs' = snd (first_fit sz bs)" for bs'
    using that by (cases "(sz, bs)" rule: first_fit.cases) (auto split: prod.splits if_splits)
  show ?case
    using 2 hd by (auto simp: coalesced_Cons split: prod.splits)
qed simp

section \<open>Appending a fresh block\<close>

lemma find_tail_refines:
  assumes "tiled lo bs hi" "hi + 16 \<le> 2 ^ 32" "chain m p bs" "bs \<noteq> []" "unat b = hi"
    and "blk_magic m b = BLOCK_MAGIC" "blk_size m b = k" "blk_free m b \<noteq> 0" "blk_next m b = 0"
  shows "\<exists>t. find_tail m p = Some t \<and> chain (set_next t b m) p (bs @ [(b, k, True)]) \<and>
    agree_outside lo bs hi m (set_next t b m)"
  using assms
proof (induction bs arbitrary: lo p)
  case (Cons c bs)
  obtain a n f where c: "c = (a, n, f)" by (cases c)
  note prems = Cons.prems [unfolded c]
  have lo: "unat a = lo" "p = a" "lo + 16 + unat n \<le> hi" "0 < lo" using prems by (auto dest: tiled_le)
  then have a16: "unat a + 16 \<le> 2 ^ 32" using prems(2) by simp
  show ?case
  proof (cases "bs = []")
    case True
    have "find_tail m a = Some a" using prems(3) True by (subst find_tail.simps) simp
    moreover have "blk_magic (set_next a b m) b = blk_magic m b" "blk_size (set_next a b m) b = blk_size m b"
      "blk_next (set_next a b m) b = blk_next m b" "blk_free (set_next a b m) b = blk_free m b"
      using prems lo a16 by (intro header_cong; simp)+
    ultimately show ?thesis
      using prems lo a16 c True by (auto simp: agree_outside_def payload_def split: if_splits)
  next
    case False
    then have nx: "blk_next m a \<noteq> 0" using prems(1,3) by (cases bs) auto
    have tl: "tiled (lo + 16 + unat n) bs hi" "chain m (blk_next m a) bs" using prems(1,3) by auto
    from Cons.IH [OF tl(1) prems(2) tl(2) False prems(5-9)] obtain t where
      t: "find_tail m (blk_next m a) = Some t" "chain (set_next t b m) (blk_next m a) (bs @ [(b, k, True)])"
      "agree_outside (lo + 16 + unat n) bs hi m (set_next t b m)" by blast
    have "find_tail m a = find_tail m (blk_next m a)" using nx by (subst find_tail.simps) simp
    moreover have "chain (set_next t b m) a ((a, n, f) # bs @ [(b, k, True)])"
      using chain_tail [OF prems(1) _ _ t(3,2)] prems(2,3) lo(2) by simp
    ultimately show ?thesis
      using t(1) agree_tail [OF prems(1) t(3)] c lo(2) by auto
  qed
qed simp

section \<open>Freeing a block\<close>

lemma free_at_Cons [simp]: "free_at b ((a, n, f) # bs) = (a, n, f \<or> a = b) # free_at b bs"
  "free_at b [] = []"
  by (simp_all add: free_at_def)

lemma tiled_free_at [simp]: "tiled lo (free_at b bs) hi = tiled lo bs hi"
  by (induction lo bs hi rule: tiled.induct) auto

lemma free_at_other: "b \<notin> fst ` set bs \<Longrightarrow> free_at b bs = bs"
  by (induction bs) auto

lemma set_free_refines:
  assumes "tiled lo bs hi" "hi \<le> 2 ^ 32" "chain m p bs" "b \<in> fst ` set bs"
  shows "chain (set_free b 1 m) p (free_at b bs)"
    and "\<And>x. unat x < unat b \<or> unat b + 16 \<le> unat x \<Longrightarrow> set_free b 1 m x = m x"
proof -
  obtain n f where "(b, n, f) \<in> set bs" using assms(4) by force
  then have b16: "unat b + 16 \<le> 2 ^ 32" using tiled_member [OF assms(1)] assms(2) by fastforce
  then show out: "\<And>x. unat x < unat b \<or> unat b + 16 \<le> unat x \<Longrightarrow> set_free b 1 m x = m x" by simp
  show "chain (set_free b 1 m) p (free_at b bs)"
    using assms
  proof (induction bs arbitrary: lo p)
    case (Cons c bs)
    obtain a n f where c: "c = (a, n, f)" by (cases c)
    note prems = Cons.prems [unfolded c]
    have tl: "tiled (lo + 16 + unat n) bs hi" and a: "unat a = lo" and le: "lo + 16 + unat n \<le> hi"
      using prems(1) by (auto dest: tiled_le)
    show ?case
    proof (cases "b = a")
      case True
      have "b \<notin> fst ` set bs" using tiled_member [OF tl] a True by fastforce
      moreover have "chain (set_free b 1 m) (blk_next m a) bs = chain m (blk_next m a) bs"
        using a True out by (intro chain_cong [OF tl prems(2)]) auto
      ultimately show ?thesis
        using prems(3) True b16 c by (simp add: free_at_other)
    next
      case False
      then have bm: "b \<in> fst ` set bs" using prems(4) by auto
      then obtain k g where "(b, k, g) \<in> set bs" by force
      then have "lo + 16 + unat n \<le> unat b" using tiled_member [OF tl] by blast
      then have "blk_magic (set_free b 1 m) a = blk_magic m a" "blk_size (set_free b 1 m) a = blk_size m a"
        "blk_next (set_free b 1 m) a = blk_next m a" "blk_free (set_free b 1 m) a = blk_free m a"
        using a le prems(2) by (intro header_cong out; simp)+
      then show ?thesis
        using False Cons.IH [OF tl prems(2) _ bm] prems(3) c by simp
    qed
  qed simp
qed

end
