(* ===== verification/Mmu.thy ===== *)
theory Mmu
  imports Paging_Init
begin

text \<open>
  What the MMU sees. The processor may keep any translation it has walked in its cache (the
  \<open>tlb\<close>), so an access can be served by a stale entry unless the code drops it; \<open>mmu_walk\<close> and
  \<open>tlb_fill\<close> describe that hardware. The lemmas show that the cache stays coherent with the tables
  through mapping, unmapping and initialisation, so that the hardware and \<open>paging_translate\<close>
  always agree.

  The second part says which memory the paging code writes. \<open>table_frames\<close> is the set of frames
  that hold the directory and the page tables; mapping and unmapping write only there, and a
  table is only ever put into a frame that was free. \<open>backed\<close> describes an address range every
  page of which is mapped to a frame of its own, as the heap needs it.
\<close>

section \<open>The translation cache\<close>

text \<open>The hardware: a lookup through the cache, and a walk whose result may be cached.\<close>

definition mmu_lookup :: "'a paging_layer_scheme \<Rightarrow> u32 \<Rightarrow> u32 option" where
  "mmu_lookup s v = (case tlb (paging s) (vpage v) of Some e \<Rightarrow> Some e | None \<Rightarrow> pte s v)"

definition tlb_fill :: "u32 \<Rightarrow> 'a paging_layer_scheme \<Rightarrow> 'a paging_layer_scheme" where
  "tlb_fill v s = s\<lparr>paging := (paging s)\<lparr>tlb := (tlb (paging s))(vpage v := pte s v)\<rparr>\<rparr>"

lemma mmu_lookup_pte: "tlb_coherent s \<Longrightarrow> mmu_lookup s v = pte s v"
  by (auto simp: mmu_lookup_def tlb_coherent_def split: option.split)

lemma tlb_coherent_fill: "tlb_coherent s \<Longrightarrow> tlb_coherent (tlb_fill v s)"
proof -
  assume co: "tlb_coherent s"
  have "pte (tlb_fill v s) = pte s" by (rule pte_same) (simp_all add: tlb_fill_def)
  with co show ?thesis
    by (simp add: tlb_coherent_def tlb_fill_def) (metis pte_vpage)
qed

lemma tlb_coherent_map:
  assumes "paging_inv s" "tlb_coherent s" "paging_map v p fl s = (ok, s')"
  shows "tlb_coherent s'"
  using paging_map_spec [OF assms(1,3)] assms(2) by (cases ok) (auto simp: tlb_coherent_def)

lemma tlb_coherent_unmap:
  assumes "paging_inv s" "tlb_coherent s" "paging_unmap v s = (ok, s')"
  shows "tlb_coherent s'"
proof (cases ok)
  case True
  then show ?thesis
    using paging_unmap_spec [OF assms(1,3)] assms(2) by (auto simp: tlb_coherent_def)
next
  case False
  have sp: "pte s v = None" "tlb (paging s') = tlb (paging s)"
    "pte s' = (\<lambda>w. if vpage w = vpage v then None else pte s w)"
    using paging_unmap_spec [OF assms(1,3)] False by simp_all
  have "pte s w = None" if "vpage w = vpage v" for w
    using sp(1) pte_vpage [OF that, of s] by simp
  then have "pte s' = pte s" using sp(3) by (simp add: fun_eq_iff)
  with sp(2) assms(2) show ?thesis by (simp add: tlb_coherent_def)
qed

section \<open>Which memory the paging code writes\<close>

definition table_frames :: "'a paging_layer_scheme \<Rightarrow> nat set" where
  "table_frames s = insert (frame_no (page_directory (paging s)))
     ((\<lambda>i. frame_no (FRAME_OF (dirent s i))) ` table_set s)"

lemma table_frames_not_free: "paging_inv s \<Longrightarrow> table_frames s \<inter> free_frames (pmm s) = {}"
  by (auto simp: table_frames_def paging_inv_def table_ok_def)

lemma frame_no_slot:
  assumes "4096 dvd unat b" "unat i < 1024" "unat a < unat (slot b i) + 4" "unat (slot b i) \<le> unat a"
  shows "frame_no a = frame_no b"
proof -
  obtain k where k: "unat b = 4096 * k" using assms(1) by (auto simp: dvd_def)
  then have "4096 * k \<le> unat a" "unat a < 4096 * k + 4096"
    using assms by (auto simp: unat_slot)
  then have "unat a div 4096 = k" by (intro div_nat_eqI) auto
  with k show ?thesis by (simp add: frame_no_def)
qed

lemma store_slot_frame:
  assumes "4096 dvd unat b" "unat i < 1024" "frame_no a \<noteq> frame_no b"
  shows "st32 m (slot b i) e a = m a"
proof (rule st32_outside)
  show "unat (slot b i) + 3 < 2 ^ 32"
    using aligned_end [OF assms(1)] assms by (simp add: unat_slot)
  show "unat a < unat (slot b i) \<or> unat (slot b i) + 4 \<le> unat a"
    using frame_no_slot [OF assms(1,2), of a] assms(3) by linarith
qed

lemma memset_frame:
  assumes "4096 dvd unat f" "frame_no a \<noteq> frame_no f"
  shows "memset m f 0 4096 a = m a"
proof (rule memset_outside)
  show "unat f + 4096 \<le> 2 ^ 32" using assms(1) by (rule aligned_end)
  show "unat a < unat f \<or> unat f + 4096 \<le> unat a"
  proof (rule ccontr)
    assume "\<not> ?thesis"
    then have "unat f \<le> unat a" "unat a < unat f + 4096" by auto
    moreover obtain k where k: "unat f = 4096 * k" using assms(1) by (auto simp: dvd_def)
    ultimately have "unat a div 4096 = k" by (intro div_nat_eqI) auto
    with k assms(2) show False by (simp add: frame_no_def)
  qed
qed

text \<open>How one step of the paging code may change the frames and the memory.\<close>

definition tables_step :: "'a paging_layer_scheme \<Rightarrow> 'a paging_layer_scheme \<Rightarrow> bool" where
  "tables_step s s' \<longleftrightarrow>
     free_frames (pmm s') \<subseteq> free_frames (pmm s) - table_frames s' \<and>
     table_frames s \<subseteq> table_frames s' \<and> table_frames s' \<subseteq> table_frames s \<union> free_frames (pmm s) \<and>
     (\<forall>a. frame_no a \<notin> table_frames s' \<longrightarrow> mem s' a = mem s a)"

lemma tables_step_refl: "paging_inv s \<Longrightarrow> tables_step s s"
  using table_frames_not_free by (fastforce simp: tables_step_def)

text \<open>
  The frames the paging code may ever write: the tables and what it can still make a table of.
  All other memory below the heap is left alone.
\<close>

definition pool :: "'a paging_layer_scheme \<Rightarrow> nat set" where
  "pool s = table_frames s \<union> free_frames (pmm s)"

definition pool_kept :: "'a paging_layer_scheme \<Rightarrow> 'a paging_layer_scheme \<Rightarrow> bool" where
  "pool_kept s s' \<longleftrightarrow> pool s' \<subseteq> pool s \<and>
     (\<forall>a. unat a < 0xC0000000 \<and> frame_no a \<notin> pool s \<longrightarrow> mem s' a = mem s a)"

lemma pool_kept_refl [simp]: "pool_kept s s"
  by (simp add: pool_kept_def)

lemma pool_kept_trans: "pool_kept s t \<Longrightarrow> pool_kept t u \<Longrightarrow> pool_kept s u"
  unfolding pool_kept_def by (metis subset_iff)

lemma tables_step_pool: "tables_step s s' \<Longrightarrow> pool_kept s s'"
  unfolding tables_step_def pool_kept_def pool_def by auto

lemma tables_step_install:
  assumes inv: "paging_inv s" and a: "pmm_alloc_frame (pmm s) = (t, p)" "t \<noteq> 0"
    and t: "t < identity_end (paging s)" and i: "unat i < 1024" "\<not> present (dirent s i)"
  shows "tables_step s (install_table t i p s)"
proof -
  let ?s = "install_table t i p s" and ?D = "page_directory (paging s)"
  have pinv: "pmm_inv (pmm s)" and D: "4096 dvd unat ?D" "frame_no ?D \<notin> free_frames (pmm s)"
    using inv by (simp_all add: paging_inv_def)
  note al = fa.alloc_cases [OF pinv a]
  have dir: "dirent ?s j = (if j = i then t OR PAGE_PRESENT OR PAGE_WRITE else dirent s j)"
    if "unat j < 1024" for j
    using D al i that by (intro install_table_dirent) auto
  then have ts: "table_set ?s = insert i (table_set s)"
    using i by (auto simp: table_set_def present_entry)
  have "(\<lambda>j. frame_no (FRAME_OF (dirent ?s j))) ` table_set s = (\<lambda>j. frame_no (FRAME_OF (dirent s j))) ` table_set s"
    using i dir by (intro image_cong) (auto simp: table_set_def)
  then have tf: "table_frames ?s = insert (frame_no t) (table_frames s)"
    using dir [OF i(1)] al(3) by (simp add: table_frames_def ts) (simp add: install_table_def insert_commute)
  have "mem ?s x = mem s x" if "frame_no x \<notin> table_frames ?s" for x
  proof -
    have "frame_no x \<noteq> frame_no t" "frame_no x \<noteq> frame_no ?D"
      using that unfolding tf by (auto simp: table_frames_def)
    then show ?thesis
      using D(1) al(3) i(1) by (simp add: install_table_def store_slot_frame memset_frame)
  qed
  moreover have "free_frames (pmm ?s) = free_frames (pmm s) - {frame_no t}"
    using al(4) by (simp add: install_table_def)
  ultimately show ?thesis
    using table_frames_not_free [OF inv] al(1) unfolding tables_step_def tf by blast
qed

lemma get_table_step:
  assumes inv: "paging_inv s" and get: "get_table v True s = (t, s')"
  shows "tables_step s s'"
proof -
  have "pmm_inv (pmm s)" using inv by (simp add: paging_inv_def)
  then show ?thesis
    using get
  proof (cases rule: get_table_cases)
    case old
    then show ?thesis using tables_step_refl [OF inv] by simp
  next
    case (fail p)
    have "table_frames s' = table_frames s"
      by (simp add: fail(2) table_frames_def dirent_def [abs_def] table_set_def)
    with fail table_frames_not_free [OF inv] show ?thesis
      by (auto simp: tables_step_def)
  next
    case (new p)
    then show ?thesis
      using tables_step_install [OF inv new(3,2,4) DIR_INDEX_less new(1)] by simp
  qed
qed

lemma tables_step_trans:
  assumes "tables_step s t" "tables_step t u"
  shows "tables_step s u"
proof -
  have "free_frames (pmm u) \<subseteq> free_frames (pmm s) - table_frames u" "table_frames s \<subseteq> table_frames u"
    "table_frames u \<subseteq> table_frames s \<union> free_frames (pmm s)"
    using assms by (auto simp: tables_step_def)
  moreover have "mem u a = mem s a" if "frame_no a \<notin> table_frames u" for a
  proof -
    have "frame_no a \<notin> table_frames t" using assms(2) that by (auto simp: tables_step_def)
    with that assms show ?thesis by (simp add: tables_step_def)
  qed
  ultimately show ?thesis by (simp add: tables_step_def)
qed

lemma tables_step_entry:
  assumes inv: "paging_inv s" and t: "DIR_INDEX v \<in> table_set s"
  shows "tables_step s (set_counts n c (store_entry v e s))"
proof -
  let ?s = "set_counts n c (store_entry v e s)" and ?T = "FRAME_OF (dirent s (DIR_INDEX v))"
  have same: "page_directory (paging ?s) = page_directory (paging s)" "pmm ?s = pmm s"
    "mem ?s = st32 (mem s) (slot ?T (TBL_INDEX v)) e"
    by (simp_all add: set_counts_def store_entry_def)
  have "dirent ?s j = dirent s j" if "j \<in> table_set s" for j
    using that store_entry_dirent [OF inv t, of j e] by (simp add: table_set_def)
  then have tf: "table_frames ?s = table_frames s"
    using store_entry_table_set [OF inv t, of e] by (simp add: table_frames_def same)
  have "frame_no ?T \<in> table_frames s" using t by (auto simp: table_frames_def)
  then have "mem ?s x = mem s x" if "frame_no x \<notin> table_frames s" for x
    using that TBL_INDEX_less by (auto simp: same intro!: store_slot_frame)
  with table_frames_not_free [OF inv] show ?thesis
    unfolding tables_step_def tf same(2) by blast
qed

lemma paging_map_step:
  assumes inv: "paging_inv s" and map: "paging_map v p fl s = (ok, s')"
  shows "tables_step s s'"
proof -
  obtain t s1 where get: "get_table v True s = (t, s1)" by fastforce
  note g = get_table_create [OF inv get] and st = get_table_step [OF inv get]
  show ?thesis
  proof (cases "t = 0")
    case True
    with map st show ?thesis by (simp add: paging_map_eq [OF inv get])
  next
    case False
    with g have "paging_inv s1" "DIR_INDEX v \<in> table_set s1" by auto
    from tables_step_entry [OF this] st map False show ?thesis
      by (auto simp: paging_map_eq [OF inv get] intro: tables_step_trans)
  qed
qed

lemma paging_unmap_step:
  assumes inv: "paging_inv s" and unmap: "paging_unmap v s = (ok, s')"
  shows "tables_step s s'" "pmm s' = pmm s"
proof -
  have t: "DIR_INDEX v \<in> table_set s" if "pte s v \<noteq> None"
    using that by (auto simp: pte_def DIR_INDEX_table split: if_splits)
  show "tables_step s s'"
    using unmap t tables_step_entry [OF inv t] tables_step_refl [OF inv]
    by (auto simp: paging_unmap_eq [OF inv] split: if_splits)
  show "pmm s' = pmm s"
    using unmap by (auto simp: paging_unmap_eq [OF inv] set_counts_def store_entry_def split: if_splits)
qed

text \<open>Giving back a frame that holds no table.\<close>

lemma paging_inv_free:
  assumes inv: "paging_inv s" and a: "frame_no a \<notin> table_frames s"
  shows "paging_inv (s\<lparr>pmm := pmm_free_frame a (pmm s)\<rparr>)"
proof -
  let ?s = "s\<lparr>pmm := pmm_free_frame a (pmm s)\<rparr>"
  have pinv: "pmm_inv (pmm s)" using inv by (simp add: paging_inv_def)
  have free: "free_frames (pmm_free_frame a (pmm s)) \<subseteq> insert (frame_no a) (free_frames (pmm s))"
    using fa.free_insert [OF pinv, of a] by auto
  have same: "dirent ?s = dirent s" "table_set ?s = table_set s" "mapped_set ?s = mapped_set s"
    by (simp_all add: dirent_def fun_eq_iff table_set_def mapped_set_def pte_def table_entry_def)
  have "table_ok ?s (FRAME_OF (dirent s i))" if "i \<in> table_set s" for i
  proof -
    have "frame_no (FRAME_OF (dirent s i)) \<in> table_frames s"
      using that by (simp add: table_frames_def)
    then have "frame_no (FRAME_OF (dirent s i)) \<noteq> frame_no a" using a by metis
    with table_not_free [OF inv that] free show ?thesis by (auto simp: table_ok_def)
  qed
  moreover have "frame_no (page_directory (paging s)) \<notin> free_frames (pmm_free_frame a (pmm s))"
    using inv free a by (auto simp: paging_inv_def table_frames_def)
  ultimately show ?thesis
    using inv fa.inv_free [OF pinv, of a] unfolding paging_inv_def same by simp
qed

text \<open>Memory above the identity region is none of the tables' business.\<close>

lemma table_frames_low: "paging_inv s \<Longrightarrow> frame_no a \<in> table_frames s \<Longrightarrow> unat a < 2 ^ 24"
proof -
  assume inv: "paging_inv s" and a: "frame_no a \<in> table_frames s"
  have low: "unat a < 2 ^ 24"
    if b: "4096 dvd unat b" "unat b < unat (identity_end (paging s))" "frame_no a = frame_no b" for b
  proof -
    have "unat b + 4096 \<le> 2 ^ 24"
      using b inv below_identity_end [of b "identity_end (paging s)"] by (auto simp: paging_inv_def)
    moreover have "unat a < unat b + 4096"
      using b(1,3) by (auto simp: frame_no_def dvd_def) 
    ultimately show ?thesis by simp
  qed
  consider "frame_no a = frame_no (page_directory (paging s))"
    | i where "i \<in> table_set s" "frame_no a = frame_no (FRAME_OF (dirent s i))"
    using a by (auto simp: table_frames_def)
  then show ?thesis
  proof cases
    case 1
    then show ?thesis using inv by (intro low [OF _ _ 1]) (simp_all add: paging_inv_def)
  next
    case (2 i)
    then show ?thesis
      using inv by (intro low [OF _ _ 2(2)]) (auto simp: paging_inv_def table_ok_def unat_FRAME_OF)
  qed
qed

lemma table_frames_mem:
  assumes inv: "paging_inv s" and m: "\<And>a. frame_no a \<in> table_frames s \<Longrightarrow> m a = mem s a"
  shows "paging_inv (s\<lparr>mem := m\<rparr>)" "pte (s\<lparr>mem := m\<rparr>) = pte s" "table_frames (s\<lparr>mem := m\<rparr>) = table_frames s"
    "table_set (s\<lparr>mem := m\<rparr>) = table_set s"
proof -
  let ?s = "s\<lparr>mem := m\<rparr>"
  have ld: "ld32 m (slot b i) = ld32 (mem s) (slot b i)"
    if "4096 dvd unat b" "frame_no b \<in> table_frames s" "unat i < 1024" for b i
    using that aligned_end [OF that(1)]
    by (intro ld32_cong m) (simp_all add: unat_slot frame_no_slot [OF that(1,3)])
  have d: "dirent ?s i = dirent s i" if "unat i < 1024" for i
    using inv that by (simp add: dirent_def ld paging_inv_def table_frames_def)
  then show ts: "table_set ?s = table_set s" by (auto simp: table_set_def)
  have "table_entry ?s v = table_entry s v" if i: "DIR_INDEX v \<in> table_set s" for v
  proof -
    have "4096 dvd unat (FRAME_OF (dirent s (DIR_INDEX v)))"
      "frame_no (FRAME_OF (dirent s (DIR_INDEX v))) \<in> table_frames s"
      using inv i by (auto simp: paging_inv_def table_ok_def table_frames_def)
    then show ?thesis by (simp add: table_entry_def d DIR_INDEX_less ld TBL_INDEX_less)
  qed
  then show p: "pte ?s = pte s"
    by (auto simp: fun_eq_iff pte_def DIR_INDEX_table ts)
  have di: "dirent ?s i = dirent s i" if "i \<in> table_set s" for i
    using that by (intro d) (simp add: table_set_def)
  have "inj_on (\<lambda>i. FRAME_OF (dirent ?s i)) (table_set s) = inj_on (\<lambda>i. FRAME_OF (dirent s i)) (table_set s)"
    by (rule inj_on_cong) (simp add: di)
  then show "paging_inv ?s"
    using inv by (simp add: paging_inv_def ts di table_ok_def mapped_set_def p)
  show "table_frames ?s = table_frames s"
    by (auto simp: table_frames_def ts di)
qed

lemma tables_high_mem:
  assumes inv: "paging_inv s" and m: "\<And>a. unat a < 2 ^ 24 \<Longrightarrow> m a = mem s a"
  shows "paging_inv (s\<lparr>mem := m\<rparr>)" "pte (s\<lparr>mem := m\<rparr>) = pte s" "table_frames (s\<lparr>mem := m\<rparr>) = table_frames s"
    "table_set (s\<lparr>mem := m\<rparr>) = table_set s"
proof -
  have "m a = mem s a" if "frame_no a \<in> table_frames s" for a
    using table_frames_low [OF inv that] by (rule m)
  note tm = table_frames_mem [OF inv this]
  show "paging_inv (s\<lparr>mem := m\<rparr>)" "pte (s\<lparr>mem := m\<rparr>) = pte s"
    "table_frames (s\<lparr>mem := m\<rparr>) = table_frames s" "table_set (s\<lparr>mem := m\<rparr>) = table_set s"
    using tm by simp_all
qed

lemma pool_kept_high_mem:
  assumes "paging_inv s" "\<And>a. unat a < 0xC0000000 \<Longrightarrow> m a = mem s a"
  shows "pool_kept s (s\<lparr>mem := m\<rparr>)"
proof -
  have "table_frames (s\<lparr>mem := m\<rparr>) = table_frames s"
    using assms(2) by (intro tables_high_mem(3) [OF assms(1)]) simp
  then show ?thesis using assms(2) by (simp add: pool_kept_def pool_def)
qed

section \<open>Backed address ranges\<close>

text \<open>Every page from \<open>lo\<close> to \<open>hi\<close> is mapped to a frame of its own that is neither free nor a table.\<close>

definition backed :: "'a paging_layer_scheme \<Rightarrow> nat \<Rightarrow> nat \<Rightarrow> bool" where
  "backed s lo hi \<longleftrightarrow>
     (\<forall>v. lo \<le> unat v \<and> unat v < hi \<longrightarrow>
        (\<exists>p. page_of s v = Some p \<and> frame_no p \<notin> free_frames (pmm s) \<and> frame_no p \<notin> table_frames s)) \<and>
     (\<forall>v w. lo \<le> unat v \<and> unat v < hi \<and> lo \<le> unat w \<and> unat w < hi \<and> page_of s v = page_of s w \<longrightarrow>
        vpage v = vpage w)"

lemma backed_step:
  assumes b: "backed s lo hi" and p: "\<And>v. lo \<le> unat v \<Longrightarrow> unat v < hi \<Longrightarrow> page_of s' v = page_of s v"
    and f: "free_frames (pmm s') \<subseteq> free_frames (pmm s)"
    and t: "table_frames s' \<subseteq> table_frames s \<union> free_frames (pmm s)"
  shows "backed s' lo hi"
  unfolding backed_def
proof (intro conjI allI impI; elim conjE)
  fix v :: u32 assume v: "lo \<le> unat v" "unat v < hi"
  with b obtain q where q: "page_of s v = Some q" "frame_no q \<notin> free_frames (pmm s)" "frame_no q \<notin> table_frames s"
    unfolding backed_def by blast
  with f t p [OF v] show "\<exists>q. page_of s' v = Some q \<and> frame_no q \<notin> free_frames (pmm s') \<and> frame_no q \<notin> table_frames s'"
    by auto
next
  fix v w :: u32
  assume v: "lo \<le> unat v" "unat v < hi" and w: "lo \<le> unat w" "unat w < hi" and e: "page_of s' v = page_of s' w"
  then have "page_of s v = page_of s w" using p by simp
  with v w b show "vpage v = vpage w" unfolding backed_def by blast
qed

lemma backed_mono: "backed s lo hi \<Longrightarrow> hi' \<le> hi \<Longrightarrow> backed s lo hi'"
  unfolding backed_def by (meson less_le_trans)

lemma page_range:
  assumes "4096 dvd unat (v :: u32)"
  shows "vpage w = vpage v \<longleftrightarrow> unat v \<le> unat w \<and> unat w < unat v + 4096"
proof -
  obtain k where k: "unat v = 4096 * k" using assms by (auto simp: dvd_def)
  have "vpage w = vpage v \<longleftrightarrow> unat w div 4096 = k"
    by (simp add: vpage_unat k)
  also have "\<dots> \<longleftrightarrow> 4096 * k \<le> unat w \<and> unat w < 4096 * k + 4096"
    by (auto intro: div_nat_eqI)
  finally show ?thesis using k by simp
qed

text \<open>One more page, mapped to a frame that was free.\<close>

lemma backed_extend:
  assumes b: "backed s lo (unat v)" and v: "4096 dvd unat v" and fr: "frame_no f \<in> free_frames (pmm s)"
    and p: "\<And>w. page_of s' w = (if vpage w = vpage v then Some f else page_of s w)"
    and f: "free_frames (pmm s') \<subseteq> free_frames (pmm s) - {frame_no f}"
    and t: "table_frames s' \<subseteq> table_frames s \<union> (free_frames (pmm s) - {frame_no f})"
    and nt: "frame_no f \<notin> table_frames s"
  shows "backed s' lo (unat v + 4096)"
proof -
  have low: "unat w < unat v" if "vpage w \<noteq> vpage v" "unat w < unat v + 4096" for w
    using that page_range [OF v, of w] by auto
  have old: "\<exists>q. page_of s' w = Some q \<and> frame_no q \<notin> free_frames (pmm s) \<and> frame_no q \<notin> table_frames s \<and>
      page_of s w = Some q"
    if w: "lo \<le> unat w" "unat w < unat v + 4096" "vpage w \<noteq> vpage v" for w
  proof -
    have "page_of s' w = page_of s w" using w(3) p by simp
    moreover obtain q where "page_of s w = Some q" "frame_no q \<notin> free_frames (pmm s)" "frame_no q \<notin> table_frames s"
      using w(1) low [OF w(3,2)] b unfolding backed_def by blast
    ultimately show ?thesis by simp
  qed
  have ex: "\<exists>q. page_of s' w = Some q \<and> frame_no q \<notin> free_frames (pmm s') \<and> frame_no q \<notin> table_frames s'"
    if w: "lo \<le> unat w" "unat w < unat v + 4096" for w
  proof (cases "vpage w = vpage v")
    case True
    have "frame_no f \<notin> free_frames (pmm s')" "frame_no f \<notin> table_frames s'" using f t nt by blast+
    with True p [of w] show ?thesis by simp
  next
    case False
    from old [OF w False] f t show ?thesis by blast
  qed
  have other: "page_of s' w \<noteq> Some f" if "lo \<le> unat w" "unat w < unat v + 4096" "vpage w \<noteq> vpage v" for w
    using old [OF that] fr by auto
  have inj: "vpage w = vpage x"
    if w: "lo \<le> unat w" "unat w < unat v + 4096" and x: "lo \<le> unat x" "unat x < unat v + 4096"
      and e: "page_of s' w = page_of s' x" for w x
  proof (cases "vpage w = vpage v")
    case True
    then have "page_of s' x = Some f" using e p [of w] by simp
    then show ?thesis using other [OF x] True by metis
  next
    case False
    then have nx: "vpage x \<noteq> vpage v" using e p [of x] other [OF w] by auto
    have "page_of s w = page_of s x" using e p [of w] p [of x] False nx by simp
    with w(1) x(1) low [OF False w(2)] low [OF nx x(2)] b show ?thesis
      unfolding backed_def by blast
  qed
  show ?thesis unfolding backed_def using ex inj by blast
qed

section \<open>The pool after boot\<close>

lemma identity_map_pool:
  "paging_inv s \<Longrightarrow> identity_map addrs s = (ok, s') \<Longrightarrow> pool_kept s s'"
proof (induction addrs arbitrary: s)
  case (Cons a addrs)
  obtain ok1 s1 where m: "paging_map a a PAGE_WRITE s = (ok1, s1)" by fastforce
  have 1: "pool_kept s s1" using tables_step_pool [OF paging_map_step [OF Cons.prems(1) m]] .
  show ?case
  proof (cases ok1)
    case True
    have "paging_inv s1" using paging_map_spec [OF Cons.prems(1) m] by blast
    then have "pool_kept s1 s'" using Cons.IH Cons.prems(2) m True by simp
    with 1 show ?thesis by (rule pool_kept_trans)
  next
    case False
    then have "s' = kprint ''FATAL: ran out of frames building the identity map.\<newline>'' s1"
      using Cons.prems(2) m by simp
    then show ?thesis using 1
      by (simp add: kprint_def pool_kept_def pool_def table_frames_def dirent_def table_set_def)
  qed
qed simp

lemma paging_init_pool:
  fixes s :: "'a paging_layer_scheme"
  assumes pmm: "pmm_inv (pmm s)" "0 \<notin> free_frames (pmm s)"
    and init: "table_count (paging s) = 0" "mapped_pages (paging s) = 0"
    and enough: "5 \<le> card {f \<in> free_frames (pmm s). f * 4096 < unat (identity_limit (mem_highest_addr s))}"
  shows "pool (paging_init s) \<subseteq> free_frames (pmm s)"
    "unat a < 0xC0000000 \<Longrightarrow> frame_no a \<notin> free_frames (pmm s) \<Longrightarrow> mem (paging_init s) a = mem s a"
proof -
  define iend where "iend = identity_limit (mem_highest_addr s)"
  let ?low = "{f \<in> free_frames (pmm s). f * 4096 < unat iend}"
  note iend = identity_limit_bounds [of "mem_highest_addr s", folded iend_def]
  obtain d p where al: "pmm_alloc_frame (pmm s) = (d, p)" by fastforce
  have ne: "?low \<noteq> {}" using enough unfolding iend_def by (metis card.empty le_zero_eq zero_neq_numeral)
  then have "free_frames (pmm s) \<noteq> {}" by auto
  then have d: "d \<noteq> 0" using fa.alloc_zero_iff [OF pmm] al by simp
  note c = fa.alloc_cases [OF pmm(1) al d] and p = pmm_alloc_inv [OF pmm(1) al]
  have dl: "unat d < unat iend"
    using ne c(5) c(3) by (fastforce simp: frame_no_def dvd_div_mult_self)
  define q where "q = (paging s)\<lparr>identity_end := iend, dir_phys := d, page_directory := d\<rparr>"
  define s1 where "s1 = s\<lparr>pmm := p, paging := q, mem := memset (mem s) d 0 4096\<rparr>"
  have q: "page_directory q = d" "table_count q = 0" "mapped_pages q = 0" "identity_end q = iend"
    using init by (simp_all add: q_def)
  have nf: "frame_no d \<notin> free_frames p" using c(4) by simp
  note s1 = empty_directory [OF p(1) d c(3) nf _ _ _ q(1-3) s1_def, unfolded q(4), OF dl iend(2,1)]
  obtain ok s2 where m: "identity_map (identity_pages iend) s1 = (ok, s2)" by fastforce
  have k: "pool_kept s1 s2" using identity_map_pool [OF s1(1) m] .
  have same: "mem (paging_init s) = mem s2 \<and> pool (paging_init s) = pool s2"
  proof (cases ok)
    case True
    have "paging_init s = (load_cr3 d s2)\<lparr>paging := (paging (load_cr3 d s2))\<lparr>paging_enabled := True\<rparr>\<rparr>"
      using al d m [unfolded True] unfolding paging_init_def iend_def [symmetric] identity_pages_def [symmetric]
      by (simp add: Let_def s1_def q_def True)
    then show ?thesis by (simp add: load_cr3_def pool_def table_frames_def dirent_def table_set_def)
  next
    case False
    have "paging_init s = s2"
      using al d m [unfolded False] unfolding paging_init_def iend_def [symmetric] identity_pages_def [symmetric]
      by (simp add: Let_def s1_def q_def False)
    then show ?thesis by simp
  qed
  have "page_directory (paging s1) = d" "pmm s1 = p" by (simp_all add: s1_def q)
  then have "pool s1 = insert (frame_no d) (free_frames p)" by (simp add: pool_def table_frames_def s1(3))
  then have p1: "pool s1 \<subseteq> free_frames (pmm s)" using c(1) by (simp add: c(4))
  show "pool (paging_init s) \<subseteq> free_frames (pmm s)" using k p1 same unfolding pool_kept_def by auto
  show "mem (paging_init s) a = mem s a" if "unat a < 0xC0000000" "frame_no a \<notin> free_frames (pmm s)"
  proof -
    have "frame_no a \<noteq> frame_no d" using that(2) c(1) by auto
    then have "mem s1 a = mem s a" using memset_frame [OF c(3)] by (simp add: s1_def)
    moreover have "mem s2 a = mem s1 a" using k that p1 unfolding pool_kept_def by blast
    ultimately show ?thesis by (simp add: same)
  qed
qed

section \<open>A concrete machine with paging on\<close>

definition demo_con :: vga_state where
  "demo_con = \<lparr>inputs = \<lambda>_ _. 0, in_count = 0, outputs = [], serial_ready = False, rx_count = 0, tx_count = 0,
     vga = replicate 2000 0, cursor_row = 0, cursor_col = 0, color = 0x0F, stray = []\<rparr>"

text \<open>The state after reset: the kernel's static variables are zero.\<close>

definition demo_off :: "'a \<Rightarrow> 'a paging_layer_scheme" where
  "demo_off m = \<lparr>mem = \<lambda>_. 0, con = demo_con, mmap = demo_map, pmm = demo_pmm,
     paging = \<lparr>page_directory = 0, dir_phys = 0, identity_end = 0, table_count = 0, mapped_pages = 0,
       paging_enabled = False, cr3 = 0, tlb = \<lambda>_. None\<rparr>, \<dots> = m\<rparr>"

definition demo_on :: "'a \<Rightarrow> 'a paging_layer_scheme" where
  "demo_on m = paging_init (demo_off m)"

lemma demo_off:
  "pmm_inv (pmm (demo_off m))" "0 \<notin> free_frames (pmm (demo_off m))" "table_count (paging (demo_off m)) = 0"
  "mapped_pages (paging (demo_off m)) = 0"
  "5 \<le> card {f \<in> free_frames (pmm (demo_off m)). f * 4096 < unat (identity_limit (mem_highest_addr (demo_off m)))}"
  "card {f \<in> free_frames (pmm (demo_off m)). f * 4096 < unat (identity_limit (mem_highest_addr (demo_off m)))} = 3839"
  "identity_limit (mem_highest_addr (demo_off m)) = 0x1000000"
proof -
  show "pmm_inv (pmm (demo_off m))" "0 \<notin> free_frames (pmm (demo_off m))" "table_count (paging (demo_off m)) = 0"
    "mapped_pages (paging (demo_off m)) = 0"
    by (simp_all add: demo_off_def demo_pmm)
  show il: "identity_limit (mem_highest_addr (demo_off m)) = 0x1000000"
    by (simp add: identity_limit_def mem_highest_addr_def demo_off_def demo_map_def IDENTITY_BYTES_def)
  have "{f \<in> free_frames (pmm (demo_off m)). f * 4096 < unat (0x1000000 :: u32)} = {257..<4096}"
    by (rule set_eqI) (simp add: demo_off_def demo_pmm, (linarith)?)
  then show c: "card {f \<in> free_frames (pmm (demo_off m)). f * 4096 < unat (identity_limit (mem_highest_addr (demo_off m)))} = 3839"
    unfolding il by simp
  show "5 \<le> card {f \<in> free_frames (pmm (demo_off m)). f * 4096 < unat (identity_limit (mem_highest_addr (demo_off m)))}"
    unfolding c by simp
qed

lemma demo_on:
  "paging_inv (demo_on m)" "tlb_coherent (demo_on m)" "paging_enabled (paging (demo_on m))"
  "identity_end (paging (demo_on m)) = 0x1000000" "0 \<notin> free_frames (pmm (demo_on m))"
  "page_of (demo_on m) v = (if v < 0x1000000 then Some (FRAME_OF v) else None)"
  "3834 \<le> card (low_free (demo_on m))" "con (demo_on m) = demo_con" "mmap (demo_on m) = demo_map"
  "paging_layer.more (demo_on m) = m" "total_frames (pmm (demo_on m)) = 4096"
  "pool (demo_on m) \<subseteq> {257..<4096}"
proof -
  note pi = paging_init_correct [OF demo_off(1-5) [of m], folded demo_on_def, unfolded demo_off(6), unfolded demo_off(7)]
  show "paging_inv (demo_on m)" "paging_enabled (paging (demo_on m))" "identity_end (paging (demo_on m)) = 0x1000000"
    "0 \<notin> free_frames (pmm (demo_on m))" "page_of (demo_on m) v = (if v < 0x1000000 then Some (FRAME_OF v) else None)"
    using pi(1,2,5,8) pi(6) [of v] by simp_all
  show "tlb_coherent (demo_on m)" using pi(4) by (simp add: tlb_coherent_def)
  show "3834 \<le> card (low_free (demo_on m))" using pi(7) by simp
  show "con (demo_on m) = demo_con" "mmap (demo_on m) = demo_map"
    using pi(9,10) by (simp_all add: demo_off_def)
  show "paging_layer.more (demo_on m) = m" "total_frames (pmm (demo_on m)) = 4096"
    using pi(11,12) by (simp_all add: demo_off_def demo_pmm)
  show "pool (demo_on m) \<subseteq> {257..<4096}"
    using paging_init_pool(1) [OF demo_off(1-5) [of m]] unfolding demo_on_def by (simp add: demo_off_def demo_pmm)
qed

section \<open>Properties\<close>

text \<open>
  When a table cannot be had nothing changes, with one exception: frame 0, if it was free, is taken
  and not given back, for its address is taken to mean that no frame was left.
\<close>

lemma get_table_fail:
  assumes inv: "paging_inv s" and get: "get_table v True s = (0, s')"
  shows "s' = s\<lparr>pmm := pmm s'\<rparr> \<and> free_frames (pmm s') = free_frames (pmm s) - {0}"
proof -
  have p: "pmm_inv (pmm s)" using inv by (simp add: paging_inv_def)
  obtain f q where a: "pmm_alloc_frame (pmm s) = (f, q)" by fastforce
  have none: "\<not> present (dirent s (DIR_INDEX v))"
  proof
    assume pr: "present (dirent s (DIR_INDEX v))"
    then have "FRAME_OF (dirent s (DIR_INDEX v)) = 0"
      using get by (auto simp: get_table_def Let_def dirent_def present_def)
    moreover have "DIR_INDEX v \<in> table_set s" using pr by (simp add: DIR_INDEX_table)
    ultimately show False using inv by (auto simp: paging_inv_def table_ok_def)
  qed
  show ?thesis
  proof (cases "f = 0")
    case True
    then have "s' = s\<lparr>pmm := q\<rparr>"
      using get none a by (auto simp: get_table_def Let_def dirent_def present_def)
    moreover have "free_frames q = free_frames (pmm s) - {0}"
      using fa.alloc_frame_zero [OF p] fa.alloc_zero_iff [OF p] fa.alloc_none [OF p] a True
      by (cases "0 \<in> free_frames (pmm s)") auto
    ultimately show ?thesis by simp
  next
    case False
    then have "identity_end (paging s) \<le> f"
      using get none a by (auto simp: get_table_def Let_def dirent_def present_def not_le split: if_splits)
    then have "s' = s\<lparr>pmm := pmm_free_frame f q\<rparr>"
      using get none a False by (auto simp: get_table_def Let_def dirent_def present_def)
    moreover have "0 \<notin> free_frames (pmm s)"
      using fa.alloc_frame_zero(1) [OF p] a False by auto
    ultimately show ?thesis using pmm_alloc_undo(3) [OF p a False] by simp
  qed
qed

lemma paging_map_fail:
  assumes inv: "paging_inv s" and map: "paging_map v p fl s = (False, s')"
  shows "s' = s\<lparr>pmm := pmm s'\<rparr> \<and> free_frames (pmm s') = free_frames (pmm s) - {0}"
proof -
  obtain t s1 where get: "get_table v True s = (t, s1)" by fastforce
  with map have "t = 0" "s' = s1" by (auto simp: paging_map_eq [OF inv get] split: if_splits)
  with get get_table_fail [OF inv] show ?thesis by simp
qed

text \<open>A frame that mapping takes from the allocator becomes a table.\<close>

lemma get_table_taken:
  assumes inv: "paging_inv s" and nz: "0 \<notin> free_frames (pmm s)" and get: "get_table v True s = (t, s')"
  shows "free_frames (pmm s) \<subseteq> free_frames (pmm s') \<union> table_frames s'"
proof -
  have p: "pmm_inv (pmm s)" using inv by (simp add: paging_inv_def)
  from p get show ?thesis
  proof (cases rule: get_table_cases)
    case (fail q)
    then show ?thesis using get_table_fail [OF inv, of v s'] get nz by auto
  next
    case (new q)
    have "DIR_INDEX v \<in> table_set s'" "FRAME_OF (dirent s' (DIR_INDEX v)) = t"
      using get_table_create [OF inv get] new(2) by auto
    then have "frame_no t \<in> table_frames s'" by (auto simp: table_frames_def)
    moreover have "pmm s' = q" by (simp add: new(5) install_table_def)
    ultimately show ?thesis using fa.alloc_cases(4) [OF p new(3,2)] by auto
  qed simp
qed

lemma paging_map_taken:
  assumes inv: "paging_inv s" and nz: "0 \<notin> free_frames (pmm s)" and map: "paging_map v p fl s = (ok, s')"
  shows "free_frames (pmm s) \<subseteq> free_frames (pmm s') \<union> table_frames s'"
proof -
  obtain t s1 where get: "get_table v True s = (t, s1)" by fastforce
  note g = get_table_create [OF inv get] and tk = get_table_taken [OF inv nz get]
  show ?thesis
  proof (cases "t = 0")
    case True
    with map tk show ?thesis by (simp add: paging_map_eq [OF inv get])
  next
    case False
    with g have "paging_inv s1" "DIR_INDEX v \<in> table_set s1" by auto
    note st = tables_step_entry [OF this]
    obtain n c e where s': "s' = set_counts n c (store_entry v e s1)"
      using map False by (auto simp: paging_map_eq [OF inv get])
    then have "table_frames s1 \<subseteq> table_frames s'" using st by (simp add: tables_step_def)
    moreover have "pmm s' = pmm s1" by (simp add: s' set_counts_def store_entry_def)
    ultimately show ?thesis using tk by auto
  qed
qed

text \<open>
  C7: mapping a page. From a state that satisfies the paging invariant and whose translation cache
  is coherent, \<open>paging_map\<close> keeps both. If it reports success, every address of the page now
  translates to the given frame plus its offset, and every other address translates as before.
  If it fails, no translation changes, nothing but the frame allocator changes at all, and no frame
  is lost but frame 0, if it was free: \<open>get_table\<close> takes it and reads its address as a failure.
\<close>

theorem paging_map_correct:
  assumes "paging_inv s" and "tlb_coherent s" and "paging_map virt phys flags s = (ok, s')"
  shows "paging_inv s' \<and> tlb_coherent s' \<and>
    (\<forall>w. paging_translate w s' =
       (if ok \<and> vpage w = vpage virt then FRAME_OF phys OR (w AND 0xFFF) else paging_translate w s)) \<and>
    (\<not> ok \<longrightarrow> s' = s\<lparr>pmm := pmm s'\<rparr> \<and> free_frames (pmm s') = free_frames (pmm s) - {0})"
proof -
  have "paging_translate w s' =
       (if ok \<and> vpage w = vpage virt then FRAME_OF phys OR (w AND 0xFFF) else paging_translate w s)" for w
  proof (cases ok)
    case True
    then show ?thesis
      using pm.translate_map [OF assms(1) assms(3) [unfolded eqTrueI [OF True]], of w]
        pm.translate_map_other [OF assms(1,3), of w] by auto
  next
    case False
    have "paging_inv s'" using paging_map_spec [OF assms(1,3)] by simp
    then show ?thesis
      using False pm.target_map_fail [OF assms(1), of virt phys flags s' w] assms(1,3)
      by (simp add: pm.translate_target)
  qed
  then show ?thesis
    using paging_map_spec [OF assms(1,3)] tlb_coherent_map [OF assms] paging_map_fail [OF assms(1)] assms(3)
    by auto
qed

lemma demo_map_ok:
  obtains s' where "paging_map v p fl (demo_on m) = (True, s')"
proof -
  have "low_free (demo_on m) \<noteq> {}" using demo_on(7) [of m] by auto
  then show thesis
    by (rule paging_map_success [OF demo_on(1,5) disjI2, of m v p fl]) (rule that)
qed

theorem paging_map_correct_witness:
  "fst (paging_map 0xC0000000 0x200000 PAGE_WRITE (demo_on ())) \<and>
   paging_translate 0xC0000123 (snd (paging_map 0xC0000000 0x200000 PAGE_WRITE (demo_on ()))) = 0x200123"
proof -
  obtain s' where m: "paging_map 0xC0000000 0x200000 PAGE_WRITE (demo_on ()) = (True, s')"
    by (rule demo_map_ok)
  have "FRAME_OF 0x200000 OR (0xC0000123 AND 0xFFF) = 0x200123" "vpage 0xC0000123 = vpage 0xC0000000"
    by (simp_all add: FRAME_OF_def vpage_def)
  then show ?thesis
    using paging_map_correct [OF demo_on(1,2) m] m by simp
qed

text \<open>
  C8: unmapping a page. \<open>paging_unmap\<close> succeeds exactly on a mapped page, keeps the invariant and
  the coherence of the translation cache, makes every address of the page untranslatable (also
  for the hardware, which cannot use a stale entry) and leaves every other translation alone. It
  gives no frame back: the frame the page was mapped to stays with its owner.
\<close>

theorem paging_unmap_correct:
  assumes "paging_inv s" and "tlb_coherent s" and "paging_unmap virt s = (ok, s')"
  shows "paging_inv s' \<and> tlb_coherent s' \<and> (ok \<longleftrightarrow> page_of s virt \<noteq> None) \<and>
    (\<forall>w. mmu_lookup s' w = (if vpage w = vpage virt then None else mmu_lookup s w)) \<and>
    (\<forall>w. paging_translate w s' = (if vpage w = vpage virt then PAGE_UNMAPPED else paging_translate w s)) \<and>
    pmm s' = pmm s"
proof -
  note sp = paging_unmap_spec [OF assms(1,3)] and co = tlb_coherent_unmap [OF assms]
  have "mmu_lookup s' w = (if vpage w = vpage virt then None else mmu_lookup s w)" for w
    using sp by (simp add: mmu_lookup_pte [OF co] mmu_lookup_pte [OF assms(2)])
  moreover have "paging_translate w s' = (if vpage w = vpage virt then PAGE_UNMAPPED else paging_translate w s)" for w
    using sp assms(1) pm.target_unmap [OF assms(1,3), of w] by (simp add: pm.translate_target)
  ultimately show ?thesis
    using sp co paging_unmap_step(2) [OF assms(1,3)] by (simp add: page_of_def)
qed

theorem paging_unmap_correct_witness:
  "paging_translate 0x5123 (demo_on ()) = 0x5123 \<and> fst (paging_unmap 0x5000 (demo_on ())) \<and>
   paging_translate 0x5123 (snd (paging_unmap 0x5000 (demo_on ()))) = PAGE_UNMAPPED"
proof -
  obtain ok s' where m: "paging_unmap 0x5000 (demo_on ()) = (ok, s')" by fastforce
  have "vpage 0x5123 = vpage 0x5000" by (simp add: vpage_def)
  moreover have "FRAME_OF 0x5123 OR (0x5123 AND 0xFFF) = 0x5123" by (simp add: FRAME_OF_def)
  then have "paging_translate 0x5123 (demo_on ()) = 0x5123"
    by (simp add: pm.translate_target [OF demo_on(1)] demo_on(6))
  ultimately show ?thesis
    using paging_unmap_correct [OF demo_on(1,2) m] m by (simp add: demo_on(6))
qed

text \<open>
  C9: initialising paging. If the two counters are zero, frame 0 is not free and five frames of the
  identity region are (for the directory and at most four tables) \<open>paging_init\<close> succeeds: paging is on, CR3 holds the directory, the
  invariant holds, and every address below \<open>identity_end\<close> translates to itself while nothing
  above it is mapped. So every frame the kernel addresses physically stays where it was.
\<close>

theorem paging_init_identity:
  assumes "pmm_inv (pmm s)" and "0 \<notin> free_frames (pmm s)"
    and "table_count (paging s) = 0" and "mapped_pages (paging s) = 0"
    and "5 \<le> card {f \<in> free_frames (pmm s). f * 4096 < unat (identity_limit (mem_highest_addr s))}"
  shows "paging_inv (paging_init s) \<and> tlb_coherent (paging_init s) \<and> paging_enabled (paging (paging_init s)) \<and>
    cr3 (paging (paging_init s)) = page_directory (paging (paging_init s)) \<and>
    (\<forall>v. paging_translate v (paging_init s) =
       (if v < identity_limit (mem_highest_addr s) then v else PAGE_UNMAPPED))"
proof -
  note pi = paging_init_correct [OF assms]
  have "paging_translate v (paging_init s) =
       (if v < identity_limit (mem_highest_addr s) then v else PAGE_UNMAPPED)" for v
    using pi(6) [of v] by (simp add: pm.translate_target [OF pi(1)] FRAME_OF_offset)
  with pi(1-4) show ?thesis by (simp add: tlb_coherent_def)
qed

theorem paging_init_identity_witness:
  "paging_enabled (paging (demo_on ())) \<and> paging_translate 0xABCDEF (demo_on ()) = 0xABCDEF \<and>
   paging_translate 0x1000000 (demo_on ()) = PAGE_UNMAPPED"
  using paging_init_identity [OF demo_off(1-5) [of "()"]] by (simp add: demo_on_def [symmetric] demo_off(7))

text \<open>
  C10: which memory the paging code touches. Mapping or unmapping a page changes memory only in
  frames that hold the page directory or a page table afterwards; such a frame was a table
  before or was free, and it is no longer free. In particular neither operation ever writes to a
  frame the allocator has handed out for another purpose.
\<close>

theorem paging_writes_tables_only:
  assumes "paging_inv s" and "s' \<in> {snd (paging_map virt phys flags s), snd (paging_unmap virt s)}"
  shows "(\<forall>a. mem s' a \<noteq> mem s a \<longrightarrow> frame_no a \<in> table_frames s') \<and>
    table_frames s' \<subseteq> table_frames s \<union> free_frames (pmm s) \<and>
    free_frames (pmm s') \<subseteq> free_frames (pmm s) - table_frames s'"
proof -
  have "tables_step s s'"
    using assms(2) paging_map_step [OF assms(1), of virt phys flags] paging_unmap_step(1) [OF assms(1), of virt]
    by (auto simp: prod_eq_iff)
  then show ?thesis by (auto simp: tables_step_def)
qed

theorem paging_writes_tables_only_witness:
  "{a. mem (snd (paging_map 0xC0000000 0x200000 PAGE_WRITE (demo_on ()))) a \<noteq> mem (demo_on ()) a} \<subseteq>
     {a. frame_no a \<in> table_frames (snd (paging_map 0xC0000000 0x200000 PAGE_WRITE (demo_on ())))}"
  by (intro subsetI CollectI)
    (drule CollectD, rule mp [OF spec [OF conjunct1 [OF paging_writes_tables_only [OF demo_on(1) insertI1]]]])

end
