(* ===== verification/Heap_Refine.thy ===== *)
theory Heap_Refine
  imports Heap_List Mmu
begin

text \<open>
  Growing the heap's mapping. \<open>grow_mapping\<close> maps the pages after the break to fresh frames, one
  by one. The lemmas show that the heap stays \<open>backed\<close>: every page of it has a frame of its own
  that is neither free nor a page table, whether growing succeeds or fails half way; that it
  succeeds exactly within the limit \<open>HEAP_MAX\<close> when there are frames enough (\<open>can_grow\<close>); and that
  memory above the identity region is not touched. The sizes are bounded by \<open>0x3FBFF000\<close> bytes:
  beyond that the sum \<^verbatim>\<open>brk + bytes\<close> of the source wraps around.
\<close>

section \<open>Rounding\<close>

lemma align8_alt: "align8 n = push_bit 3 (drop_bit 3 (n + 7))"
proof -
  have m: "(7 :: u32) = mask 3" by (simp add: mask_eq_exp_minus_1)
  show ?thesis
    unfolding align8_def m by (auto intro!: bit_word_eqI simp: bit_simps)
qed

lemma unat_align8: "unat (align8 n) = unat (n + 7) div 8 * 8"
proof -
  have "unat (drop_bit 3 (n + 7)) = unat (n + 7) div 8" by (simp add: drop_bit_eq_div unat_div)
  moreover have "unat (n + 7) div 8 * 8 < 2 ^ 32" using unat_u32_less [of "n + 7"] by linarith
  ultimately show ?thesis
    by (simp add: align8_alt push_bit_eq_mult unat_word_ariths mult.commute)
qed

lemma unat_page_round: "unat (page_round n) = unat (n + 4095) div 4096 * 4096"
proof -
  have m: "NOT (PAGE_SIZE - 1) = 0xFFFFF000" "n + PAGE_SIZE - 1 = n + 4095" by (simp_all add: PAGE_SIZE_def)
  have "page_round n = FRAME_OF (n + 4095)"
    unfolding page_round_def FRAME_OF_def m by (rule refl)
  then show ?thesis by (simp add: unat_FRAME_OF)
qed

section \<open>Growing the mapping\<close>

lemma heap_page:
  assumes "unat b + (k + 1) * 4096 \<le> 2 ^ 32" "4096 dvd unat b"
  shows "unat (b + of_nat k * PAGE_SIZE) = unat b + k * 4096" "4096 dvd unat (b + of_nat k * PAGE_SIZE)"
proof -
  have "unat (of_nat (k * 4096) :: u32) = k * 4096" using assms(1) by (intro unat_of_nat_small) simp
  then have "unat (b + of_nat (k * 4096)) = unat b + k * 4096"
    using assms(1) by (intro unat_add_small) simp
  then show "unat (b + of_nat k * PAGE_SIZE) = unat b + k * 4096" by (simp add: PAGE_SIZE_def)
  then show "4096 dvd unat (b + of_nat k * PAGE_SIZE)" using assms(2) by simp
qed

text \<open>Taking a frame and mapping it, or giving it back when the mapping fails.\<close>

lemma grow_step:
  assumes inv: "paging_inv s" and b: "backed s lo (unat v)" and v: "4096 dvd unat v"
    and al: "pmm_alloc_frame (pmm s) = (f, p)" "f \<noteq> 0"
    and map: "paging_map v f PAGE_WRITE (s\<lparr>pmm := p\<rparr>) = (ok, s')"
  shows "ok \<Longrightarrow> paging_inv s' \<and> backed s' lo (unat v + 4096) \<and> paging_frame s s' \<and> pool_kept s s'"
    and "\<not> ok \<Longrightarrow> paging_inv (s'\<lparr>pmm := pmm_free_frame f (pmm s')\<rparr>) \<and>
      backed (s'\<lparr>pmm := pmm_free_frame f (pmm s')\<rparr>) lo (unat v) \<and>
      paging_frame s (s'\<lparr>pmm := pmm_free_frame f (pmm s')\<rparr>) \<and>
      pool_kept s (s'\<lparr>pmm := pmm_free_frame f (pmm s')\<rparr>)"
proof -
  let ?s1 = "s\<lparr>pmm := p\<rparr>" and ?s3 = "s'\<lparr>pmm := pmm_free_frame f (pmm s')\<rparr>"
  have pinv: "pmm_inv (pmm s)" using inv by (simp add: paging_inv_def)
  note pi = pmm_alloc_inv [OF pinv al(1)] and ac = fa.alloc_cases [OF pinv al]
  have i1: "paging_inv ?s1" using inv pi by (intro paging_inv_pmm)
  have same: "page_of ?s1 = page_of s" "table_frames ?s1 = table_frames s"
    by (simp_all add: fun_eq_iff page_of_def pte_def table_entry_def dirent_def table_frames_def table_set_def)
  have f1: "paging_frame s ?s1" using pi by (intro paging_frame_pmm)
  note sp = paging_map_spec [OF i1 map] and st = paging_map_step [OF i1 map]
  have nt: "frame_no f \<notin> table_frames s" using table_frames_not_free [OF inv] ac(1) by blast
  have fr: "free_frames (pmm s') \<subseteq> free_frames (pmm s) - {frame_no f}"
    "table_frames s' \<subseteq> table_frames s \<union> (free_frames (pmm s) - {frame_no f})"
    using st ac(4) same(2) by (auto simp: tables_step_def)
  have p1: "pool_kept s ?s1" using ac(4) by (auto simp: pool_kept_def pool_def same(2))
  have p2: "pool_kept s s'" using p1 tables_step_pool [OF st] pool_kept_trans by blast
  have ff: "FRAME_OF f = f" using FRAME_OF_entry [OF ac(3), of 0] by simp
  show "paging_inv s' \<and> backed s' lo (unat v + 4096) \<and> paging_frame s s' \<and> pool_kept s s'" if ok
  proof -
    have m: "paging_map v f PAGE_WRITE ?s1 = (True, s')" using map that by simp
    have "page_of s' w = (if vpage w = vpage v then Some f else page_of s w)" for w
      using pm.target_map [OF i1 m, of w] same(1) ff by simp
    from backed_extend [OF b v ac(1) this fr nt] sp f1 p2 paging_frame_trans show ?thesis by blast
  qed
  show "paging_inv ?s3 \<and> backed ?s3 lo (unat v) \<and> paging_frame s ?s3 \<and> pool_kept s ?s3" if "\<not> ok"
  proof -
    have m: "paging_map v f PAGE_WRITE ?s1 = (False, s')" using map that by simp
    have pinv': "pmm_inv (pmm s')" and nt': "frame_no f \<notin> table_frames s'"
      using sp fr(2) nt by (auto simp: paging_inv_def)
    then have "paging_inv ?s3" using sp by (intro paging_inv_free) auto
    moreover have free: "free_frames (pmm ?s3) \<subseteq> free_frames (pmm s)"
      using fa.free_insert [OF pinv', of f] fr(1) ac(1) by auto
    moreover have same3: "page_of ?s3 = page_of s'" "table_frames ?s3 = table_frames s'"
      by (simp_all add: fun_eq_iff page_of_def pte_def table_entry_def dirent_def table_frames_def table_set_def)
    have "backed ?s3 lo (unat v)"
    proof (rule backed_step [OF b])
      show "page_of ?s3 w = page_of s w" for w
        using pm.target_map_fail [OF i1 m, of w] same(1) same3(1) by simp
      show "table_frames ?s3 \<subseteq> table_frames s \<union> free_frames (pmm s)" using fr(2) same3(2) by auto
    qed (rule free)
    moreover have "paging_frame s ?s3"
      using sp f1 free unfolding paging_frame_def by (simp add: pmm_free_frame_def)
    moreover have "pool_kept s ?s3"
      using p2 free fr(2) same3(2) unfolding pool_kept_def pool_def by auto
    ultimately show ?thesis by blast
  qed
qed

lemma grow_pages_spec:
  assumes "paging_inv s" "backed s lo (unat (brk (heap s)) + k * 4096)" "4096 dvd unat (brk (heap s))"
    and "unat (brk (heap s)) + n * 4096 \<le> 2 ^ 32"
    and "grow_pages (map (\<lambda>i. of_nat i * PAGE_SIZE) [k..<n]) s = (ok, s')" and "k \<le> n"
  shows "paging_inv s' \<and> paging_frame s s' \<and> pool_kept s s' \<and> backed s' lo (unat (brk (heap s)) + (if ok then n else k) * 4096)"
  using assms
proof (induction "n - k" arbitrary: k s)
  case 0
  then show ?case by auto
next
  case (Suc d)
  then have k: "k < n" by simp
  then have cons: "[k..<n] = k # [Suc k..<n]" by (rule upt_conv_Cons)
  let ?v = "brk (heap s) + of_nat k * PAGE_SIZE"
  have v: "unat ?v = unat (brk (heap s)) + k * 4096" "4096 dvd unat ?v"
    using heap_page [of "brk (heap s)" k] Suc.prems(3,4) k by auto
  obtain f p where al: "pmm_alloc_frame (pmm s) = (f, p)" by fastforce
  have pinv: "pmm_inv (pmm s)" using Suc.prems(1) by (simp add: paging_inv_def)
  note pi = pmm_alloc_inv [OF pinv al]
  show ?case
  proof (cases "f = 0")
    case True
    then have r: "ok = False" "s' = s\<lparr>pmm := p\<rparr>" using Suc.prems(5) al by (simp_all add: cons)
    have "paging_inv s'" "paging_frame s s'"
      unfolding r using Suc.prems(1) pi by (auto intro: paging_inv_pmm paging_frame_pmm)
    moreover have "pool_kept s s'"
      using pi by (auto simp: r pool_kept_def pool_def table_frames_def dirent_def table_set_def)
    moreover have "backed s' lo (unat (brk (heap s)) + k * 4096)"
      using pi by (intro backed_step [OF Suc.prems(2)])
        (auto simp: r page_of_def pte_def table_entry_def dirent_def table_frames_def table_set_def)
    ultimately show ?thesis using r by simp
  next
    case False
    obtain ok1 s1 where map: "paging_map ?v f PAGE_WRITE (s\<lparr>pmm := p\<rparr>) = (ok1, s1)" by fastforce
    note g = grow_step [OF Suc.prems(1) Suc.prems(2) [folded v(1)] v(2) al False map]
    show ?thesis
    proof (cases ok1)
      case True
      then have "paging_inv s1" "backed s1 lo (unat ?v + 4096)" and fr: "paging_frame s s1" "pool_kept s s1"
        using g(1) by auto
      moreover have h: "heap s1 = heap s" using fr(1) by (cases s, cases s1) (simp add: paging_frame_def)
      moreover have "unat ?v + 4096 = unat (brk (heap s1)) + Suc k * 4096" using v(1) h by simp
      moreover have "grow_pages (map (\<lambda>i. of_nat i * PAGE_SIZE) [Suc k..<n]) s1 = (ok, s')"
        using Suc.prems(5) True map False al by (simp add: cons)
      ultimately have r: "paging_inv s' \<and> paging_frame s1 s' \<and> pool_kept s1 s' \<and>
          backed s' lo (unat (brk (heap s)) + (if ok then n else Suc k) * 4096)"
        using Suc.hyps(1) [of "Suc k" s1] Suc.hyps(2) Suc.prems(3,4) k by (simp add: Suc_diff_Suc)
      then have "backed s' lo (unat (brk (heap s)) + (if ok then n else k) * 4096)"
        by (elim conjE, elim backed_mono) simp
      with r fr paging_frame_trans pool_kept_trans show ?thesis by blast
    next
      case False
      then have "ok = False" "s' = s1\<lparr>pmm := pmm_free_frame f (pmm s1)\<rparr>"
        using Suc.prems(5) map \<open>f \<noteq> 0\<close> al by (simp_all add: cons)
      with g(2) False v(1) show ?thesis by simp
    qed
  qed
qed

text \<open>
  Growing succeeds when there are frames enough: one per page, and one more for the page table if
  the heap has none yet. A page table needs a frame below \<open>identity_end\<close>; first fit hands out the
  lowest frames first, so two low frames suffice for the first page.
\<close>

abbreviation heap_table :: "'a paging_layer_scheme \<Rightarrow> bool" where
  "heap_table s \<equiv> 768 \<in> table_set s"

definition can_grow :: "nat \<Rightarrow> 'a paging_layer_scheme \<Rightarrow> bool" where
  "can_grow n s \<longleftrightarrow> n + (if heap_table s then 0 else 1) \<le> card (free_frames (pmm s)) \<and>
     (n = 0 \<or> heap_table s \<or> 2 \<le> card (low_free s))"

lemma heap_DIR_INDEX:
  assumes "0xC0000000 \<le> unat v" "unat v < 0xC0400000"
  shows "DIR_INDEX v = 768"
proof -
  have "unat (DIR_INDEX v) = 768"
    using assms by (simp add: DIR_INDEX_def drop_bit_eq_div unat_div div_nat_eqI)
  then show ?thesis by (simp add: word_unat_eq_iff)
qed

lemma can_grow_step:
  assumes inv: "paging_inv s" and nz: "0 \<notin> free_frames (pmm s)" and can: "can_grow (Suc n) s"
    and v: "DIR_INDEX v = 768"
  obtains f p s' where "pmm_alloc_frame (pmm s) = (f, p)" "f \<noteq> 0"
    "paging_map v f PAGE_WRITE (s\<lparr>pmm := p\<rparr>) = (True, s')" "can_grow n s'" "heap_table s'"
proof -
  have pinv: "pmm_inv (pmm s)" using inv by (simp add: paging_inv_def)
  obtain f p where al: "pmm_alloc_frame (pmm s) = (f, p)" by fastforce
  have "free_frames (pmm s) \<noteq> {}" using can by (auto simp: can_grow_def)
  then have f: "f \<noteq> 0" using fa.alloc_zero_iff [OF pinv nz] al by simp
  note pi = pmm_alloc_inv [OF pinv al] and ac = fa.alloc_cases [OF pinv al f]
  let ?s = "s\<lparr>pmm := p\<rparr>"
  have i1: "paging_inv ?s" using inv pi by (intro paging_inv_pmm)
  have nz1: "0 \<notin> free_frames (pmm ?s)" using pi(3) nz by auto
  have ts: "table_set ?s = table_set s" by (simp add: table_set_def dirent_def)
  have cf: "card (free_frames p) = card (free_frames (pmm s)) - 1"
    using ac(1,4) by simp
  have "low_free s - {frame_no f} \<subseteq> low_free ?s" using ac(4) by (auto simp: low_free_def)
  then have "card (low_free s - {frame_no f}) \<le> card (low_free ?s)" by (rule card_mono [OF finite_low_free])
  then have cl: "card (low_free s) - 1 \<le> card (low_free ?s)"
    using diff_card_le_card_Diff [of "{frame_no f}" "low_free s"] by simp
  have ex: "DIR_INDEX v \<in> table_set ?s \<or> low_free ?s \<noteq> {}"
    using can cl v ts by (auto simp: can_grow_def)
  obtain s' where m: "paging_map v f PAGE_WRITE ?s = (True, s')"
    and t: "table_set s' = insert (DIR_INDEX v) (table_set ?s)"
    and ff: "free_frames (pmm s') = (if DIR_INDEX v \<in> table_set ?s then free_frames (pmm ?s)
       else free_frames (pmm ?s) - {Min (free_frames (pmm ?s))})"
    by (rule paging_map_success [OF i1 nz1 ex])
  have ht: "heap_table s'" using t v by simp
  have "card (free_frames p - {x}) \<ge> card (free_frames p) - 1" for x
    using diff_card_le_card_Diff [of "{x}" "free_frames p"] by simp
  then have "card (free_frames p) \<le> card (free_frames (pmm s')) + (if heap_table s then 0 else 1)"
    unfolding ff v ts by (simp add: add.commute le_diff_conv)
  then have "can_grow n s'" using can cf ht by (auto simp: can_grow_def)
  with al f m ht show thesis using that by blast
qed

lemma grow_pages_success:
  assumes "paging_inv s" "0 \<notin> free_frames (pmm s)" "can_grow (n - k) s" "k \<le> n"
    and "0xC0000000 \<le> unat (brk (heap s))" "unat (brk (heap s)) + n * 4096 \<le> 0xC0400000"
      "4096 dvd unat (brk (heap s))"
  shows "\<exists>s'. grow_pages (map (\<lambda>i. of_nat i * PAGE_SIZE) [k..<n]) s = (True, s')"
  using assms
proof (induction "n - k" arbitrary: k s)
  case 0
  then show ?case by auto
next
  case (Suc d)
  then have k: "k < n" by simp
  then have cons: "[k..<n] = k # [Suc k..<n]" by (rule upt_conv_Cons)
  let ?v = "brk (heap s) + of_nat k * PAGE_SIZE"
  have v: "unat ?v = unat (brk (heap s)) + k * 4096" "4096 dvd unat ?v"
    using heap_page [of "brk (heap s)" k] Suc.prems(6,7) k by auto
  have "DIR_INDEX ?v = 768" using v Suc.prems(5,6) k by (intro heap_DIR_INDEX) auto
  moreover have "n - k = Suc (n - Suc k)" using k by simp
  ultimately obtain f p s1 where al: "pmm_alloc_frame (pmm s) = (f, p)" "f \<noteq> 0"
    and map: "paging_map ?v f PAGE_WRITE (s\<lparr>pmm := p\<rparr>) = (True, s1)" and can: "can_grow (n - Suc k) s1"
    using can_grow_step [OF Suc.prems(1,2)] Suc.prems(3) by metis
  have pinv: "pmm_inv (pmm s)" using Suc.prems(1) by (simp add: paging_inv_def)
  note pi = pmm_alloc_inv [OF pinv al(1)]
  have "paging_inv (s\<lparr>pmm := p\<rparr>)" using Suc.prems(1) pi by (intro paging_inv_pmm)
  from paging_map_spec [OF this map] have s1: "paging_inv s1" "paging_frame (s\<lparr>pmm := p\<rparr>) s1" by auto
  have h: "heap s1 = heap s" using s1(2) by (cases s, cases s1) (simp add: paging_frame_def)
  have "0 \<notin> free_frames (pmm s1)" using s1(2) pi(3) Suc.prems(2) by (auto simp: paging_frame_def)
  then have "\<exists>s'. grow_pages (map (\<lambda>i. of_nat i * PAGE_SIZE) [Suc k..<n]) s1 = (True, s')"
    using Suc.hyps(1) [of "Suc k" s1] Suc.hyps(2) s1(1) can Suc.prems k h by simp
  then show ?case using al map by (simp add: cons)
qed

definition round_up :: "nat \<Rightarrow> nat" where
  "round_up n = (n + 4095) div 4096 * 4096"

lemma round_up: "4096 dvd round_up n" "n \<le> round_up n" "round_up n < n + 4096"
  unfolding round_up_def by (simp, linarith, linarith)

text \<open>What growing the heap leaves as it was; memory above the identity region is untouched.\<close>

definition grow_frame :: "'a heap_layer_scheme \<Rightarrow> 'a heap_layer_scheme \<Rightarrow> bool" where
  "grow_frame s s' \<longleftrightarrow>
     free_frames (pmm s') \<subseteq> free_frames (pmm s) \<and> total_frames (pmm s') = total_frames (pmm s) \<and>
     con s' = con s \<and> mmap s' = mmap s \<and> heap_layer.more s' = heap_layer.more s \<and>
     head (heap s') = head (heap s) \<and> heap_ready (heap s') = heap_ready (heap s) \<and>
     identity_end (paging s') = identity_end (paging s) \<and> pool_kept s s' \<and>
     (\<forall>a. 2 ^ 24 \<le> unat a \<longrightarrow> mem s' a = mem s a)"

lemma paging_frame_heap:
  assumes "paging_inv s" "paging_frame s (s' :: 'a heap_layer_scheme)"
  shows "heap s' = heap s" "pool_kept s s' \<Longrightarrow> grow_frame s s'"
proof -
  have "paging_layer.more s' = paging_layer.more s" using assms(2) by (simp add: paging_frame_def)
  then show h: "heap s' = heap s" by (cases s, cases s') simp
  have "heap_layer.more s' = heap_layer.more s"
    using \<open>paging_layer.more s' = paging_layer.more s\<close> by (cases s, cases s') simp
  moreover have "unat (identity_end (paging s)) \<le> 2 ^ 24" using assms(1) by (simp add: paging_inv_def)
  ultimately show "grow_frame s s'" if "pool_kept s s'"
    using assms(2) that h unfolding grow_frame_def paging_frame_def by auto
qed

lemma heap_field_paging [simp]:
  "paging_inv (s\<lparr>heap := h\<rparr>) = paging_inv s" "backed (s\<lparr>heap := h\<rparr>) = backed s"
  by (simp_all add: fun_eq_iff paging_inv_def table_ok_def table_set_def dirent_def mapped_set_def pte_def
      table_entry_def backed_def page_of_def table_frames_def)

lemma grow_mapping_spec:
  assumes inv: "paging_inv s" and b: "backed s 0xC0000000 (unat (brk (heap s)))"
    and brk: "4096 dvd unat (brk (heap s))" "unat (brk (heap s)) \<le> 0xC0400000"
    and n: "unat bytes \<le> 0x3FBFF000"
    and grow: "grow_mapping bytes s = (ok, s')"
  shows "paging_inv s'" "backed s' 0xC0000000 (unat (brk (heap s')))" "grow_frame s s'"
    "unat (brk (heap s')) = unat (brk (heap s)) + (if ok then round_up (unat bytes) else 0)"
    "unat (brk (heap s')) \<le> 0xC0400000"
    "0 \<notin> free_frames (pmm s) \<Longrightarrow> 0xC0000000 \<le> unat (brk (heap s)) \<Longrightarrow>
      can_grow (round_up (unat bytes) div 4096) s \<Longrightarrow>
      ok \<longleftrightarrow> unat (brk (heap s)) + round_up (unat bytes) \<le> 0xC0400000"
    "\<not> ok \<Longrightarrow> heap s' = heap s"
proof -
  let ?b = "brk (heap s)" and ?R = "round_up (unat bytes)"
  have "unat (bytes + 4095) = unat bytes + 4095" using n by simp
  then have r: "unat (page_round bytes) = ?R" by (simp add: unat_page_round round_up_def)
  have R: "?R \<le> 0x3FBFF000" using n by (simp add: round_up_def)
  have sum: "unat (?b + page_round bytes) = unat ?b + ?R"
    using r R brk(2) by (simp add: unat_word_ariths)
  have lim: "?b + page_round bytes > HEAP_START + HEAP_MAX \<longleftrightarrow> 0xC0400000 < unat ?b + ?R"
    by (simp add: word_less_nat_alt sum heap_consts)
  define pages where "pages = map (\<lambda>i. of_nat i * PAGE_SIZE :: u32) [0..<?R div 4096]"
  have pg: "unat (page_round bytes div PAGE_SIZE) = ?R div 4096" by (simp add: PAGE_SIZE_def unat_div r)
  have R': "?R div 4096 * 4096 = ?R" using round_up(1) by simp
  obtain ok1 s1 where g: "grow_pages pages s = (ok1, s1)" by fastforce
  have eq: "grow_mapping bytes s =
    (if 0xC0400000 < unat ?b + ?R \<or> \<not> ok1 then (False, if 0xC0400000 < unat ?b + ?R then s else s1)
     else (True, s1\<lparr>heap := (heap s1)\<lparr>brk := brk (heap s1) + page_round bytes\<rparr>\<rparr>))"
    unfolding grow_mapping_def Let_def pg pages_def [symmetric] lim by (simp add: g)
  have sp: "paging_inv s1 \<and> paging_frame s s1 \<and> pool_kept s s1 \<and>
      backed s1 0xC0000000 (unat ?b + (if ok1 then ?R div 4096 else 0) * 4096)"
    if "unat ?b + ?R \<le> 0xC0400000"
    by (rule grow_pages_spec [OF inv _ brk(1) _ g [unfolded pages_def]]) (use b that R' in simp_all)
  note fr = paging_frame_heap [OF inv, of s1]
  let ?s2 = "s1\<lparr>heap := (heap s1)\<lparr>brk := brk (heap s1) + page_round bytes\<rparr>\<rparr>"
  consider (over) "0xC0400000 < unat ?b + ?R" "ok = False" "s' = s"
    | (fail) "unat ?b + ?R \<le> 0xC0400000" "ok1 = False" "ok = False" "s' = s1"
    | (fits) "unat ?b + ?R \<le> 0xC0400000" "ok1 = True" "ok = True" "s' = ?s2"
    using eq grow by (auto split: if_splits)
  then have "paging_inv s' \<and> backed s' 0xC0000000 (unat (brk (heap s'))) \<and> grow_frame s s' \<and>
    unat (brk (heap s')) = unat ?b + (if ok then ?R else 0) \<and> unat (brk (heap s')) \<le> 0xC0400000 \<and>
    (\<not> ok \<longrightarrow> heap s' = heap s)"
  proof cases
    case over
    then show ?thesis using inv b brk by (simp add: grow_frame_def)
  next
    case fail
    then show ?thesis using sp fr brk by simp
  next
    case fits
    let ?h = "(heap s1)\<lparr>brk := brk (heap s1) + page_round bytes\<rparr>"
    have "pool (s1\<lparr>heap := ?h\<rparr>) = pool s1"
      by (simp add: pool_def table_frames_def dirent_def table_set_def)
    then show ?thesis using fits sp fr R' sum by (simp add: grow_frame_def pool_kept_def)
  qed
  then show "paging_inv s'" "backed s' 0xC0000000 (unat (brk (heap s')))" "grow_frame s s'"
    "unat (brk (heap s')) = unat ?b + (if ok then ?R else 0)" "unat (brk (heap s')) \<le> 0xC0400000"
    "\<not> ok \<Longrightarrow> heap s' = heap s"
    by blast+
  show "ok \<longleftrightarrow> unat ?b + ?R \<le> 0xC0400000"
    if "0 \<notin> free_frames (pmm s)" "0xC0000000 \<le> unat ?b" "can_grow (?R div 4096) s"
  proof (cases "unat ?b + ?R \<le> 0xC0400000")
    case True
    then have "\<exists>s'. grow_pages pages s = (True, s')"
      unfolding pages_def using inv that brk(1) R' by (intro grow_pages_success) simp_all
    with True g eq grow show ?thesis by auto
  next
    case False
    with eq grow show ?thesis by auto
  qed
qed

end
