(* ===== verification/Heap_Ops.thy ===== *)
theory Heap_Ops
  imports Heap_Refine
begin

text \<open>
  The heap invariant and the correctness of \<open>heap_init\<close> and \<open>kmalloc\<close>; \<open>kfree\<close> is in \<open>Heap_Free\<close>.

  \<open>heap_inv s bs\<close>: the memory holds the block list \<open>bs\<close>, which tiles the heap from \<open>HEAP_START\<close>
  to \<open>brk\<close> with no two free neighbours, and every page of the heap has a frame of its own that is
  neither free nor a page table. So the flat view of the heap is sound: no two heap pages share
  memory, and no store into the heap can reach the page tables. \<open>live bs\<close> maps each pointer that
  \<^verbatim>\<open>kmalloc\<close> has handed out to the size of its block.
\<close>

section \<open>The invariant\<close>

fun live :: "hblock list \<Rightarrow> u32 \<Rightarrow> u32 option" where
  "live [] = Map.empty"
| "live ((a, n, f) # bs) = (if f then live bs else (live bs)(a + HDR \<mapsto> n))"

definition heap_inv :: "'a heap_layer_scheme \<Rightarrow> hblock list \<Rightarrow> bool" where
  "heap_inv s bs \<longleftrightarrow>
     heap_ready (heap s) \<and> paging_inv s \<and> 0 \<notin> free_frames (pmm s) \<and>
     4096 dvd unat (brk (heap s)) \<and> 0xC0000000 < unat (brk (heap s)) \<and> unat (brk (heap s)) \<le> 0xC0400000 \<and>
     backed s 0xC0000000 (unat (brk (heap s))) \<and>
     chain (mem s) (head (heap s)) bs \<and> tiled 0xC0000000 bs (unat (brk (heap s))) \<and> coalesced bs \<and>
     0 \<notin> ran (live bs)"

lemma high_mem:
  assumes "paging_inv s" "\<And>a. unat a < 2 ^ 24 \<Longrightarrow> m a = mem s a"
  shows "paging_inv (s\<lparr>mem := m\<rparr>)" "backed (s\<lparr>mem := m\<rparr>) = backed s" "page_of (s\<lparr>mem := m\<rparr>) = page_of s"
    "table_frames (s\<lparr>mem := m\<rparr>) = table_frames s"
  using tables_high_mem [OF assms]
  by (simp_all add: fun_eq_iff backed_def page_of_def)

text \<open>A change of memory that stays inside the heap, with the block list that results.\<close>

lemma heap_inv_mem:
  assumes inv: "heap_inv s bs" and out: "agree_outside 0xC0000000 cs (unat (brk (heap s))) (mem s) m"
    and c: "chain m (head (heap s)) bs'" "tiled 0xC0000000 bs' (unat (brk (heap s)))" "coalesced bs'"
      "0 \<notin> ran (live bs')"
  shows "heap_inv (s\<lparr>mem := m\<rparr>) bs'"
proof -
  have "m a = mem s a" if "unat a < 2 ^ 24" for a
    using out that by (auto simp: agree_outside_def)
  with inv c show ?thesis
    using high_mem [of s m] by (auto simp: heap_inv_def)
qed

lemma heap_inv_nonempty: "heap_inv s bs \<Longrightarrow> bs \<noteq> []"
  by (auto simp: heap_inv_def)

lemma backed_empty: "backed s lo lo"
  by (simp add: backed_def) linarith

lemma backed_page:
  "backed s lo hi \<Longrightarrow> lo \<le> unat v \<Longrightarrow> unat v < hi \<Longrightarrow> \<exists>p. page_of s v = Some p"
  unfolding backed_def by blast

lemma heap_inv_table: "heap_inv s bs \<Longrightarrow> heap_table s"
proof -
  assume "heap_inv s bs"
  then have "\<exists>p. page_of s 0xC0000000 = Some p"
    by (intro backed_page [of s "0xC0000000" "unat (brk (heap s))"]) (simp_all add: heap_inv_def)
  then show ?thesis
    by (auto simp: page_of_def pte_def table_set_def heap_DIR_INDEX split: if_splits)
qed

section \<open>heap_init\<close>

lemma fresh_chain:
  assumes "unat b + 16 \<le> 2 ^ 32" "b \<noteq> 0"
  shows "chain (write_free_block b n 0 m) b [(b, n, True)]"
  using write_free_block_fields(1-4) [OF assms(1), of n 0 m] assms(2) by simp

lemma heap_init_spec:
  assumes inv: "paging_inv s" and nz: "0 \<notin> free_frames (pmm s)" and can: "can_grow 16 s"
  shows "heap_inv (heap_init s) [(HEAP_START, 0xFFF0, True)]" "brk (heap (heap_init s)) = 0xC0010000"
    "con (heap_init s) = con s" "mmap (heap_init s) = mmap s"
    "heap_layer.more (heap_init s) = heap_layer.more s"
    "total_frames (pmm (heap_init s)) = total_frames (pmm s)"
    "identity_end (paging (heap_init s)) = identity_end (paging s)" "pool_kept s (heap_init s)"
proof -
  define s0 where "s0 = s\<lparr>heap := (heap s)\<lparr>brk := HEAP_START\<rparr>\<rparr>"
  obtain ok s1 where g: "grow_mapping HEAP_INITIAL s0 = (ok, s1)" by fastforce
  have h: "paging_inv s0" "backed s0 0xC0000000 (unat (brk (heap s0)))" "unat (brk (heap s0)) = 0xC0000000"
    using inv by (simp_all add: s0_def heap_consts backed_empty)
  have R: "round_up (unat HEAP_INITIAL) = 0x10000" by (simp add: round_up_def heap_consts)
  have can0: "can_grow (round_up (unat HEAP_INITIAL) div 4096) s0" "0 \<notin> free_frames (pmm s0)"
    using can nz unfolding R by (simp_all add: s0_def can_grow_def table_set_def dirent_def low_free_def)
  have n: "unat HEAP_INITIAL \<le> 0x3FBFF000" "4096 dvd unat (brk (heap s0))" "unat (brk (heap s0)) \<le> 0xC0400000"
    using h(3) by (simp_all add: heap_consts)
  note sp = grow_mapping_spec [OF h(1,2) n(2,3,1) g, unfolded h(3) R]
  have ok: "ok" using sp(6) [OF can0(2) _ can0(1) [unfolded R]] by simp
  have b: "unat (brk (heap s1)) = 0xC0010000" using sp(4) ok by simp
  then have brk: "brk (heap s1) = 0xC0010000" by (simp add: word_unat_eq_iff)
  define m where "m = write_free_block HEAP_START (brk (heap s1) - HEAP_START - HDR) 0 (mem s1)"
  have "heap_init s = s1\<lparr>heap := (heap s1)\<lparr>head := HEAP_START, heap_ready := True\<rparr>, mem := m\<rparr>"
    using g ok unfolding heap_init_def s0_def [symmetric] by (simp add: m_def)
  then have init: "heap_init s = s1\<lparr>mem := m, heap := (heap s1)\<lparr>head := HEAP_START, heap_ready := True\<rparr>\<rparr>"
    by (cases s1) simp
  have hd: "unat (HEAP_START :: u32) = 0xC0000000" "brk (heap s1) - HEAP_START - HDR = 0xFFF0" "HEAP_START \<noteq> 0"
    by (simp_all add: brk heap_consts)
  have low: "m a = mem s1 a" if "unat a < 2 ^ 24" for a
    unfolding m_def using that hd by (intro write_free_block_fields(5)) auto
  note hm = high_mem [OF sp(1) low]
  have "0 \<notin> free_frames (pmm s1)" using sp(3) nz by (auto simp: grow_frame_def s0_def)
  then have "heap_inv (s1\<lparr>mem := m, heap := (heap s1)\<lparr>head := HEAP_START, heap_ready := True\<rparr>\<rparr>) [(HEAP_START, 0xFFF0, True)]"
    using sp(2) hm b hd fresh_chain [of HEAP_START "brk (heap s1) - HEAP_START - HDR" "mem s1", folded m_def]
    by (auto simp: heap_inv_def)
  then show "heap_inv (heap_init s) [(HEAP_START, 0xFFF0, True)]" unfolding init .
  show "brk (heap (heap_init s)) = 0xC0010000" "con (heap_init s) = con s" "mmap (heap_init s) = mmap s"
    "heap_layer.more (heap_init s) = heap_layer.more s"
    "total_frames (pmm (heap_init s)) = total_frames (pmm s)"
    "identity_end (paging (heap_init s)) = identity_end (paging s)"
    using sp(3) brk by (simp_all add: init grow_frame_def s0_def)
  have "pool s0 = pool s" "mem s0 = mem s"
    by (simp_all add: s0_def pool_def table_frames_def dirent_def table_set_def)
  moreover have "pool_kept s0 s1" using sp(3) by (simp add: grow_frame_def)
  moreover have "m x = mem s1 x" if "unat x < 0xC0000000" for x
    unfolding m_def using that hd by (intro write_free_block_fields(5)) auto
  moreover have "pool (heap_init s) = pool s1"
    using hm(4) unfolding init by (simp add: pool_def table_frames_def dirent_def table_set_def)
  ultimately show "pool_kept s (heap_init s)" unfolding init by (simp add: pool_kept_def)
qed

section \<open>Extending the heap\<close>

text \<open>Merging keeps the allocated blocks, and for each free block one that is at least as big.\<close>

lemma live_merge: "live (merge bs) = live bs"
  by (induction bs rule: merge.induct) auto

lemma merge_free_block:
  "tiled lo bs hi \<Longrightarrow> hi \<le> 2 ^ 32 \<Longrightarrow> (a, n, True) \<in> set bs \<Longrightarrow>
     \<exists>a' n'. (a', n', True) \<in> set (merge bs) \<and> n \<le> n'"
proof (induction bs arbitrary: lo a n rule: merge.induct)
  case (3 b k f b' k' f' bs)
  show ?case
  proof (cases "f \<and> f'")
    case True
    have m: "unat (k + (HDR + k')) = unat k + 16 + unat k'" by (rule unat_merged(1) [OF "3.prems"(1,2)])
    have t: "tiled lo ((b, k + (HDR + k'), True) # bs) hi" using "3.prems"(1) m by (auto simp: algebra_simps)
    have "n \<le> k + (HDR + k') \<or> (a, n, True) \<in> set bs"
      using "3.prems"(3) m by (auto simp: word_le_nat_alt)
    then have "\<exists>a0 n0. (a0, n0, True) \<in> set ((b, k + (HDR + k'), True) # bs) \<and> n \<le> n0" by auto
    then obtain a0 n0 where "(a0, n0, True) \<in> set ((b, k + (HDR + k'), True) # bs)" "n \<le> n0" by blast
    from "3.IH"(1) [OF True t "3.prems"(2) this(1)] this(2)
    have "\<exists>a' n'. (a', n', True) \<in> set (merge ((b, k + (HDR + k'), True) # bs)) \<and> n \<le> n'"
      using order_trans by blast
    with True show ?thesis by simp
  next
    case False
    then have m: "merge ((b, k, f) # (b', k', f') # bs) = (b, k, f) # merge ((b', k', f') # bs)" by auto
    have t: "tiled (lo + 16 + unat k) ((b', k', f') # bs) hi" using "3.prems"(1) by simp
    from "3.prems"(3) consider "(a, n, True) = (b, k, f)" | "(a, n, True) \<in> set ((b', k', f') # bs)" by auto
    then show ?thesis
    proof cases
      case 1
      then show ?thesis unfolding m by (intro exI [of _ b] exI [of _ k]) simp
    next
      case 2
      from "3.IH"(2) [OF False t "3.prems"(2) 2]
      show ?thesis unfolding m by (elim exE conjE, intro exI conjI) (rule list.set_intros(2), assumption+)
    qed
  qed
qed auto

text \<open>What no heap operation changes: the rest of the kernel, and the allocated payloads.\<close>

definition kept :: "hblock list \<Rightarrow> 'a heap_layer_scheme \<Rightarrow> 'a heap_layer_scheme \<Rightarrow> bool" where
  "kept bs s s' \<longleftrightarrow> con s' = con s \<and> mmap s' = mmap s \<and> heap_layer.more s' = heap_layer.more s \<and>
     pool_kept s s' \<and> (\<forall>x. unat x \<in> used_bytes bs \<longrightarrow> mem s' x = mem s x)"

lemma kept_trans: "kept bs s t \<Longrightarrow> kept bs t u \<Longrightarrow> kept bs s u"
  unfolding kept_def using pool_kept_trans by auto

lemma kept_mem:
  assumes "paging_inv s" "\<And>x. unat x < 0xC0000000 \<or> unat x \<in> used_bytes bs \<Longrightarrow> m x = mem s x"
  shows "kept bs s (s\<lparr>mem := m\<rparr>)"
  using assms(2) pool_kept_high_mem [OF assms(1), of m] by (simp add: kept_def)

lemma extend_heap_spec:
  assumes inv: "heap_inv s bs" and n: "unat n \<le> 0x3F000000"
  shows "\<exists>ok s' bs'. extend_heap n s = Some (ok, s') \<and> heap_inv s' bs' \<and> live bs' = live bs \<and>
    used_bytes bs' = used_bytes bs \<and> kept bs s s' \<and>
    (if ok then \<exists>a k. (a, k, True) \<in> set bs' \<and> n \<le> k else bs' = bs) \<and>
    (can_grow (round_up (max (unat n + 16) 16384) div 4096) s \<and>
      unat (brk (heap s)) + round_up (max (unat n + 16) 16384) \<le> 0xC0400000 \<longrightarrow> ok)"
proof -
  let ?b = "brk (heap s)" and ?R = "round_up (max (unat n + 16) 16384)"
  define want where "want = (if n + HDR < PAGE_SIZE * 4 then PAGE_SIZE * 4 else n + HDR)"
  have want: "unat want = max (unat n + 16) 16384"
    using n by (auto simp: want_def heap_consts word_less_nat_alt max_def)
  obtain ok s1 where g: "grow_mapping want s = (ok, s1)" by fastforce
  have h: "paging_inv s" "backed s 0xC0000000 (unat ?b)" "4096 dvd unat ?b" "unat ?b \<le> 0xC0400000"
      "unat want \<le> 0x3FBFF000" "0 \<notin> free_frames (pmm s)" "0xC0000000 < unat ?b"
      "chain (mem s) (head (heap s)) bs" "tiled 0xC0000000 bs (unat ?b)" "coalesced bs" "heap_ready (heap s)"
      "0 \<notin> ran (live bs)"
    using inv n by (simp_all add: heap_inv_def want)
  note sp = grow_mapping_spec [OF h(1-5) g, unfolded want]
  have low: "0 \<notin> free_frames (pmm s1)" using sp(3) h(6) by (auto simp: grow_frame_def)
  have m1: "mem s1 x = mem s x" if "0xC0000000 \<le> unat x" for x
    using sp(3) that by (simp add: grow_frame_def)
  have c1: "chain (mem s1) (head (heap s1)) bs"
    using chain_cong [OF h(9), of "mem s1" "mem s"] h(4,8) m1 sp(3) by (simp add: grow_frame_def)
  have ub: "used_bytes bs \<subseteq> {0xC0000000..<unat ?b}" by (rule tiled_used_bytes [OF h(9)])
  have k1: "kept bs s s1" using sp(3) m1 ub by (auto simp: kept_def grow_frame_def)
  have success: "can_grow (?R div 4096) s \<and> unat ?b + ?R \<le> 0xC0400000 \<longrightarrow> ok"
    using sp(6) h(6,7) by simp
  show ?thesis
  proof (cases ok)
    case False
    have "extend_heap n s = Some (False, s1)"
      using g False unfolding extend_heap_def want_def [symmetric] by (simp add: Let_def want_def [symmetric])
    moreover have "heap_inv s1 bs"
      using sp(1,2,5,7) False low c1 h sp(3) by (simp add: heap_inv_def grow_frame_def)
    ultimately show ?thesis
      using k1 success False by (intro exI [of _ False] exI [of _ s1] exI [of _ bs]) simp
  next
    case True
    define k where "k = brk (heap s1) - ?b - HDR"
    define m where "m = write_free_block ?b k 0 (mem s1)"
    have b1: "unat (brk (heap s1)) = unat ?b + ?R" "?b \<le> brk (heap s1)"
      using sp(4) True by (simp_all add: word_le_nat_alt)
    have R: "16384 \<le> ?R" "unat n + 16 \<le> ?R" "4096 dvd ?R"
      using round_up [of "max (unat n + 16) 16384"] by (simp_all add: max_def split: if_splits)
    have "unat (brk (heap s1) - ?b) = ?R" using b1 by (simp add: unat_sub)
    then have k: "unat k = ?R - 16" using R(1) by (simp add: k_def HDR_def unat_sub word_le_nat_alt)
    have b16: "unat ?b + 16 \<le> 2 ^ 32" using h(4) by simp
    have out: "m x = mem s1 x" if "unat x < unat ?b \<or> unat ?b + 16 \<le> unat x" for x
      unfolding m_def using that by (intro write_free_block_fields(5) [OF b16])
    have hb: "blk_magic m ?b = BLOCK_MAGIC" "blk_size m ?b = k" "blk_free m ?b \<noteq> 0" "blk_next m ?b = 0"
      using write_free_block_fields(1-4) [OF b16, of k 0 "mem s1"] by (simp_all add: m_def)
    have cm: "chain m (head (heap s1)) bs"
      using chain_cong [OF h(9), of m "mem s1"] h(4) c1 out by simp
    have b32: "unat ?b + 16 \<le> 2 ^ 32" "unat ?b + 16 + unat k \<le> 2 ^ 32" "unat ?b \<le> 2 ^ 32"
      using h(4) b1(1) sp(5) k by simp_all
    obtain t where t: "find_tail m (head (heap s1)) = Some t"
      "chain (set_next t ?b m) (head (heap s1)) (bs @ [(?b, k, True)])"
      "agree_outside 0xC0000000 bs (unat ?b) m (set_next t ?b m)"
      using find_tail_refines [OF h(9) b16 cm heap_inv_nonempty [OF inv] refl hb] by blast
    have tl: "tiled 0xC0000000 (bs @ [(?b, k, True)]) (unat (brk (heap s1)))"
      using h(7,9) k b1(1) R by (auto simp: tiled_append intro!: exI [of _ "unat ?b"])
    have hi: "unat (brk (heap s1)) \<le> 2 ^ 32" using sp(5) by simp
    obtain m' where m': "coalesce_loop (head (heap s1)) (set_next t ?b m) = Some m'"
      "chain m' (head (heap s1)) (merge (bs @ [(?b, k, True)]))"
      "agree_outside 0xC0000000 (bs @ [(?b, k, True)]) (unat (brk (heap s1))) (set_next t ?b m) m'"
      using coalesce_loop_refines [OF tl hi t(2)] by blast
    have ext: "extend_heap n s = Some (True, s1\<lparr>mem := m'\<rparr>)"
      using g True t(1) m'(1) unfolding extend_heap_def want_def [symmetric]
      by (simp add: Let_def want_def [symmetric] k_def [symmetric] m_def [symmetric] coalesce_def)
    have ag: "m' x = mem s1 x" if "unat x < 0xC0000000 \<or> unat (brk (heap s1)) \<le> unat x \<or> unat x \<in> used_bytes bs" for x
    proof -
      have "unat x < unat ?b \<or> unat ?b + 16 \<le> unat x" using that ub h(7) b1(1) R(1) by auto
      moreover have "unat x \<in> used_bytes (bs @ [(?b, k, True)]) \<longleftrightarrow> unat x \<in> used_bytes bs"
        by (simp add: used_bytes_def)
      ultimately show ?thesis
        using that t(3) m'(3) out b1(1) unfolding agree_outside_def by auto
    qed
    have lv: "live (merge (bs @ [(?b, k, True)])) = live bs"
      unfolding live_merge by (induction bs rule: live.induct) auto
    have hinv: "heap_inv (s1\<lparr>mem := m'\<rparr>) (merge (bs @ [(?b, k, True)]))"
    proof -
      have "m' a = mem s1 a" if "unat a < 2 ^ 24" for a using ag that by auto
      from high_mem [OF sp(1) this] show ?thesis
        using sp(2,3,5) low m'(2) tiled_merge [OF tl hi] coalesced_merge b1(1) h R
        by (simp add: heap_inv_def grow_frame_def lv)
    qed
    have nk: "n \<le> k" using k R by (simp add: word_le_nat_alt)
    obtain a' k' where fit: "(a', k', True) \<in> set (merge (bs @ [(?b, k, True)]))" "k \<le> k'"
      using merge_free_block [OF tl hi, of ?b k] by auto
    have ub': "used_bytes (merge (bs @ [(?b, k, True)])) = used_bytes bs"
      unfolding used_bytes_merge by (simp add: used_bytes_def)
    have "kept bs s (s1\<lparr>mem := m'\<rparr>)" using ag by (intro kept_trans [OF k1] kept_mem [OF sp(1)]) (rule ag, blast)
    moreover have "\<exists>a l. (a, l, True) \<in> set (merge (bs @ [(?b, k, True)])) \<and> n \<le> l"
      using fit nk order_trans by blast
    ultimately show ?thesis
      using ext hinv lv ub' True
      by (intro exI [of _ True] exI [of _ "s1\<lparr>mem := m'\<rparr>"] exI [of _ "merge (bs @ [(?b, k, True)])"]) simp
  qed
qed

section \<open>kmalloc\<close>

lemma tiled_aligned: "tiled lo bs hi \<Longrightarrow> 8 dvd lo \<Longrightarrow> (a, n, f) \<in> set bs \<Longrightarrow> 8 dvd unat a"
  by (induction lo bs hi rule: tiled.induct) auto

lemma live_iff:
  "tiled lo bs hi \<Longrightarrow> live bs p = Some n \<longleftrightarrow> (p - HDR, n, False) \<in> set bs"
proof (induction lo bs hi rule: tiled.induct)
  case (2 lo a k f bs hi)
  have "a \<noteq> b" if "(b, n', f') \<in> set bs" for b n' f'
    using tiled_member [of "lo + 16 + unat k" bs hi b n' f'] 2 that by auto
  moreover have "p = a + HDR \<longleftrightarrow> p - HDR = a" by (auto simp: algebra_simps)
  ultimately show ?case using 2 by auto
qed simp

lemma live_payload:
  assumes "tiled lo bs hi" "hi < 2 ^ 32" "live bs p = Some n"
  shows "payload (p - HDR) n = {unat p ..< unat p + unat n}" "lo + 16 \<le> unat p" "unat p + unat n \<le> hi"
    "payload (p - HDR) n \<subseteq> used_bytes bs"
proof -
  define a where "a = p - HDR"
  have m: "(a, n, False) \<in> set bs" using assms(1,3) live_iff unfolding a_def by blast
  note b = tiled_member [OF assms(1) m]
  have "p = a + 16" by (simp add: a_def HDR_def)
  then have u: "unat p = unat a + 16" using b assms(2) by simp
  then show "payload (p - HDR) n = {unat p ..< unat p + unat n}" "lo + 16 \<le> unat p" "unat p + unat n \<le> hi"
    using b by (simp_all add: payload_def a_def [symmetric])
  show "payload (p - HDR) n \<subseteq> used_bytes bs" using m by (auto simp: used_bytes_def a_def)
qed

text \<open>Two live blocks never overlap.\<close>

lemma live_disjoint:
  assumes "tiled lo bs hi" "hi < 2 ^ 32" "live bs p = Some n" "live bs q = Some k" "p \<noteq> q"
  shows "{unat p ..< unat p + unat n} \<inter> {unat q ..< unat q + unat k} = {}"
proof -
  have "(p - HDR, n, False) \<in> set bs" "(q - HDR, k, False) \<in> set bs" "p - HDR \<noteq> q - HDR"
    using assms live_iff by auto
  from tiled_overlap [OF assms(1) this] show ?thesis
    unfolding live_payload(1) [OF assms(1,2,3), symmetric] live_payload(1) [OF assms(1,2,4), symmetric]
    by (auto simp: payload_def)
qed

lemma first_fit_live_upd:
  "fst (first_fit sz bs) = Some q \<Longrightarrow> tiled lo bs hi \<Longrightarrow> \<exists>k. live (snd (first_fit sz bs)) = (live bs)(q \<mapsto> k)"
proof (induction bs arbitrary: lo)
  case (Cons b bs)
  obtain a n f where b: "b = (a, n, f)" by (cases b)
  show ?case
  proof (cases "\<not> f \<or> n < sz")
    case True
    with Cons.prems b have ff: "fst (first_fit sz bs) = Some q" and t: "tiled (lo + 16 + unat n) bs hi"
      by (auto split: prod.splits)
    from Cons.IH [OF ff t] obtain k where k: "live (snd (first_fit sz bs)) = (live bs)(q \<mapsto> k)" by blast
    obtain a' n' where "(a', n', True) \<in> set bs" "q = a' + HDR"
      using first_fit_Some [OF t ff] by blast
    then have "q \<noteq> a + HDR"
      using tiled_member [OF t] Cons.prems(2) b by fastforce
    moreover have "first_fit sz (b # bs) = (fst (first_fit sz bs), (a, n, f) # snd (first_fit sz bs))"
      using True b by (simp add: case_prod_beta)
    ultimately have "live (snd (first_fit sz (b # bs))) = (live (b # bs))(q \<mapsto> k)"
      using k b by (simp add: fun_upd_twist)
    then show ?thesis by blast
  next
    case False
    with b Cons.prems(1) show ?thesis
      by (cases "sz + HDR + MIN_SPLIT \<le> n") (auto intro: exI [of _ sz] exI [of _ n])
  qed
qed simp

lemma first_fit_live:
  assumes t: "tiled lo bs hi" and hi: "hi < 2 ^ 32" and ff: "fst (first_fit sz bs) = Some q"
    and t': "tiled lo (snd (first_fit sz bs)) hi"
  obtains k where "sz \<le> k" "live bs q = None" "live (snd (first_fit sz bs)) = (live bs)(q \<mapsto> k)"
    "used_bytes (snd (first_fit sz bs)) = {unat q ..< unat q + unat k} \<union> used_bytes bs"
    "{unat q ..< unat q + unat k} \<inter> used_bytes bs = {}"
proof -
  obtain a n k where k: "(a, n, True) \<in> set bs" "q = a + HDR" "sz \<le> k" "k \<le> n"
    "(a, k, False) \<in> set (snd (first_fit sz bs))" "used_bytes (snd (first_fit sz bs)) = payload a k \<union> used_bytes bs"
    using first_fit_Some [OF t ff] by blast
  have a: "q - HDR = a" using k(2) by simp
  have new: "live (snd (first_fit sz bs)) q = Some k"
    using live_iff [OF t'] k(5) a by simp
  obtain k' where "live (snd (first_fit sz bs)) = (live bs)(q \<mapsto> k')"
    using first_fit_live_upd [OF ff t] by blast
  with new have upd: "live (snd (first_fit sz bs)) = (live bs)(q \<mapsto> k)" by simp
  have none: "live bs q = None"
  proof (cases "live bs q")
    case (Some x)
    then have "(a, x, False) \<in> set bs" using live_iff [OF t] a by simp
    from tiled_distinct [OF t k(1) this] show ?thesis by simp
  qed
  have pl: "payload a k = {unat q ..< unat q + unat k}"
    using live_payload(1) [OF t' hi new] a by simp
  have "payload a n \<inter> used_bytes bs = {}"
  proof -
    have "payload a n \<inter> payload b l = {}" if m: "(b, l, False) \<in> set bs" for b l
    proof -
      have "a \<noteq> b" using tiled_distinct [OF t k(1)] m by blast
      from tiled_overlap [OF t k(1) m this] show ?thesis by (auto simp: payload_def)
    qed
    then show ?thesis by (fastforce simp: used_bytes_def split: if_splits)
  qed
  moreover have "payload a k \<subseteq> payload a n" using k(4) by (auto simp: payload_def word_le_nat_alt)
  ultimately have "payload a k \<inter> used_bytes bs = {}" by blast
  with that k(3,6) none upd pl show thesis by simp
qed

text \<open>Allocation as seen by the caller: the block handed out is fresh, big enough and disjoint.\<close>

definition fresh_block :: "u32 \<Rightarrow> u32 \<Rightarrow> hblock list \<Rightarrow> hblock list \<Rightarrow> bool" where
  "fresh_block n p bs bs' \<longleftrightarrow>
     (\<exists>k. n \<le> k \<and> p \<noteq> 0 \<and> live bs p = None \<and> live bs' = (live bs)(p \<mapsto> k) \<and>
        used_bytes bs' = {unat p ..< unat p + unat k} \<union> used_bytes bs \<and>
        {unat p ..< unat p + unat k} \<inter> used_bytes bs = {})"

lemma heap_scan_found:
  assumes inv: "heap_inv s bs" and n: "8 dvd unat n" and ff: "fst (first_fit n bs) = Some q"
  shows "fresh_block n q bs (snd (first_fit n bs))"
proof -
  let ?b = "unat (brk (heap s))"
  have h: "tiled 0xC0000000 bs ?b" "?b \<le> 2 ^ 32" "?b < 2 ^ 32"
    using inv by (simp_all add: heap_inv_def)
  have t': "tiled 0xC0000000 (snd (first_fit n bs)) ?b"
    using tiled_first_fit [OF h(1,2) _ n] by simp
  show ?thesis
  proof (rule first_fit_live [OF h(1,3) ff t'])
    fix k
    assume k: "n \<le> k" "live bs q = None" "live (snd (first_fit n bs)) = (live bs)(q \<mapsto> k)"
      "used_bytes (snd (first_fit n bs)) = {unat q..<unat q + unat k} \<union> used_bytes bs"
      "{unat q..<unat q + unat k} \<inter> used_bytes bs = {}"
    have "live (snd (first_fit n bs)) q = Some k" using k(3) by simp
    from live_payload(2) [OF t' h(3) this] have "q \<noteq> 0" by auto
    with k show ?thesis unfolding fresh_block_def by blast
  qed
qed

lemma heap_scan_step:
  assumes inv: "heap_inv s bs" and n: "8 dvd unat n" "n \<noteq> 0"
  obtains m' where "kmalloc_scan n (head (heap s)) (mem s) = Some (fst (first_fit n bs), m')"
    "heap_inv (s\<lparr>mem := m'\<rparr>) (snd (first_fit n bs))" "kept bs s (s\<lparr>mem := m'\<rparr>)"
proof -
  let ?b = "unat (brk (heap s))"
  have h: "tiled 0xC0000000 bs ?b" "chain (mem s) (head (heap s)) bs" "coalesced bs" "?b \<le> 2 ^ 32"
    using inv by (simp_all add: heap_inv_def)
  obtain m' where m': "kmalloc_scan n (head (heap s)) (mem s) = Some (fst (first_fit n bs), m')"
    "chain m' (head (heap s)) (snd (first_fit n bs))" "agree_outside 0xC0000000 bs ?b (mem s) m'"
    using kmalloc_scan_refines [OF h(1,4) _ h(2), of n] by auto
  have "0 \<notin> ran (live (snd (first_fit n bs)))"
  proof (cases "fst (first_fit n bs)")
    case None
    then show ?thesis using inv by (simp add: first_fit_unchanged heap_inv_def)
  next
    case (Some q)
    then show ?thesis using heap_scan_found [OF inv n(1) Some] inv n(2) 
      by (auto simp: fresh_block_def heap_inv_def ran_def split: if_splits)
  qed
  then have "heap_inv (s\<lparr>mem := m'\<rparr>) (snd (first_fit n bs))"
    using h n tiled_first_fit [OF h(1,4) _ n(1)] coalesced_first_fit [OF h(3)]
    by (intro heap_inv_mem [OF inv m'(3,2)]) simp_all
  moreover have "kept bs s (s\<lparr>mem := m'\<rparr>)"
    using m'(3) inv unfolding agree_outside_def by (intro kept_mem) (simp add: heap_inv_def, blast)
  ultimately show thesis using m'(1) that by blast
qed

lemma kmalloc_attempts_spec:
  assumes inv: "heap_inv s bs" and n: "8 dvd unat n" "unat n \<le> 0x3F000000" "n \<noteq> 0"
  shows "\<exists>p s' bs'. kmalloc_attempts 2 n s = Some (p, s') \<and> heap_inv s' bs' \<and> kept bs s s' \<and>
    (p \<noteq> 0 \<longrightarrow> fresh_block n p bs bs') \<and>
    (p = 0 \<longrightarrow> bs' = bs \<and> (\<forall>(a, k, f) \<in> set bs. f \<longrightarrow> k < n) \<and>
      \<not> (can_grow (round_up (max (unat n + 16) 16384) div 4096) s \<and>
         unat (brk (heap s)) + round_up (max (unat n + 16) 16384) \<le> 0xC0400000))"
proof -
  obtain m1 where sc: "kmalloc_scan n (head (heap s)) (mem s) = Some (fst (first_fit n bs), m1)"
    "heap_inv (s\<lparr>mem := m1\<rparr>) (snd (first_fit n bs))" "kept bs s (s\<lparr>mem := m1\<rparr>)"
    using heap_scan_step [OF inv n(1,3)] by blast
  show ?thesis
  proof (cases "fst (first_fit n bs)")
    case (Some q)
    have "kmalloc_attempts 2 n s = Some (q, s\<lparr>mem := m1\<rparr>)"
      using sc(1) Some by (simp add: numeral_2_eq_2)
    moreover have "q \<noteq> 0 \<and> fresh_block n q bs (snd (first_fit n bs))"
      using heap_scan_found [OF inv n(1) Some] by (auto simp: fresh_block_def)
    ultimately show ?thesis using sc(2,3) by blast
  next
    case None
    obtain ok s2 bs2 where ext: "extend_heap n s = Some (ok, s2)" "heap_inv s2 bs2" "live bs2 = live bs"
      "used_bytes bs2 = used_bytes bs" "kept bs s s2"
      "if ok then \<exists>a k. (a, k, True) \<in> set bs2 \<and> n \<le> k else bs2 = bs"
      "can_grow (round_up (max (unat n + 16) 16384) div 4096) s \<and>
        unat (brk (heap s)) + round_up (max (unat n + 16) 16384) \<le> 0xC0400000 \<longrightarrow> ok"
      using extend_heap_spec [OF inv n(2)] by blast
    have nofit: "\<forall>(a, k, f) \<in> set bs. f \<longrightarrow> k < n" using None first_fit_None by blast
    have at: "kmalloc_attempts 2 n s = (if \<not> ok then Some (0, s2) else kmalloc_attempts 1 n s2)"
      using sc(1) None ext(1) by (simp add: numeral_2_eq_2)
    show ?thesis
    proof (cases ok)
      case False
      then have "kmalloc_attempts 2 n s = Some (0, s2)" "bs2 = bs" using at ext(6) by simp_all
      then show ?thesis
        using ext(2,5,7) nofit False by (intro exI [of _ 0] exI [of _ s2] exI [of _ bs]) simp
    next
      case True
      then obtain a k where fit: "(a, k, True) \<in> set bs2" "n \<le> k" using ext(6) by auto
      then have "\<not> (\<forall>(a, k, f) \<in> set bs2. f \<longrightarrow> k < n)"
        using bspec [OF _ fit(1), of "\<lambda>(a, k, f). f \<longrightarrow> k < n"] by (intro notI) (simp add: leD)
      then have "fst (first_fit n bs2) \<noteq> None" unfolding first_fit_None .
      then obtain q where q: "fst (first_fit n bs2) = Some q" by blast
      obtain m2 where sc2: "kmalloc_scan n (head (heap s2)) (mem s2) = Some (fst (first_fit n bs2), m2)"
        "heap_inv (s2\<lparr>mem := m2\<rparr>) (snd (first_fit n bs2))" "kept bs2 s2 (s2\<lparr>mem := m2\<rparr>)"
        using heap_scan_step [OF ext(2) n(1,3)] by blast
      have "kmalloc_attempts 2 n s = Some (q, s2\<lparr>mem := m2\<rparr>)"
        using at True sc2(1) q by simp
      moreover have "fresh_block n q bs (snd (first_fit n bs2))" "q \<noteq> 0"
        using heap_scan_found [OF ext(2) n(1) q] ext(3,4) by (auto simp: fresh_block_def)
      moreover have "kept bs s (s2\<lparr>mem := m2\<rparr>)"
        using ext(4,5) sc2(3) pool_kept_trans unfolding kept_def by simp blast
      ultimately show ?thesis using sc2(2) by blast
    qed
  qed
qed

lemma align8_bounds:
  assumes "unat sz \<le> 0x3EFFFFF8"
  shows "8 dvd unat (align8 sz)" "unat (align8 sz) \<le> 0x3F000000" "sz \<le> align8 sz"
proof -
  have u: "unat (sz + 7) = unat sz + 7" using assms by simp
  show "8 dvd unat (align8 sz)" by (simp add: unat_align8)
  show "unat (align8 sz) \<le> 0x3F000000" using assms by (simp add: unat_align8 u)
  show "sz \<le> align8 sz" unfolding word_le_nat_alt unat_align8 u by linarith
qed

text \<open>The bytes of new mapping a request would ask for.\<close>

definition grow_bytes :: "u32 \<Rightarrow> nat" where
  "grow_bytes sz = round_up (max (unat (align8 sz) + 16) 16384)"

lemma kmalloc_spec:
  assumes inv: "heap_inv s bs" and sz: "sz \<noteq> 0" "unat sz \<le> 0x3EFFFFF8"
  shows "\<exists>p s' bs'. kmalloc sz s = Some (p, s') \<and> heap_inv s' bs' \<and> kept bs s s' \<and>
    (p \<noteq> 0 \<longrightarrow> fresh_block (align8 sz) p bs bs') \<and>
    (p = 0 \<longrightarrow> bs' = bs \<and> (\<forall>(a, k, f) \<in> set bs. f \<longrightarrow> k < align8 sz) \<and>
      \<not> (can_grow (grow_bytes sz div 4096) s \<and> unat (brk (heap s)) + grow_bytes sz \<le> 0xC0400000))"
proof -
  have "kmalloc sz s = kmalloc_attempts 2 (align8 sz) s"
    using inv sz(1) by (simp add: kmalloc_def heap_inv_def)
  then show ?thesis
    unfolding grow_bytes_def
    using kmalloc_attempts_spec [OF inv align8_bounds(1,2) [OF sz(2)]] align8_bounds(3) [OF sz(2)] sz(1)
    by (metis word_le_0_iff)
qed

section \<open>Live blocks\<close>

lemma live_free_at:
  "tiled lo bs hi \<Longrightarrow> live (free_at (p - HDR) bs) = (live bs)(p := None)"
proof (rule ext)
  fix q
  assume t: "tiled lo bs hi"
  then have t': "tiled lo (free_at (p - HDR) bs) hi" by simp
  have "(q - HDR, n, False) \<in> set (free_at (p - HDR) bs) \<longleftrightarrow> q \<noteq> p \<and> (q - HDR, n, False) \<in> set bs" for n
    by (force simp: free_at_def)
  then have "live (free_at (p - HDR) bs) q = Some n \<longleftrightarrow> ((live bs)(p := None)) q = Some n" for n
    using live_iff [OF t, of q n] live_iff [OF t', of q n] by auto
  then show "live (free_at (p - HDR) bs) q = ((live bs)(p := None)) q"
    by (metis not_Some_eq)
qed

lemma used_bytes_live:
  assumes "tiled lo bs hi" "hi < 2 ^ 32"
  shows "x \<in> used_bytes bs \<longleftrightarrow> (\<exists>p n. live bs p = Some n \<and> x \<in> {unat p ..< unat p + unat n})"
proof
  assume "x \<in> used_bytes bs"
  then obtain a n where "(a, n, False) \<in> set bs" and x: "x \<in> payload a n"
    by (auto simp: used_bytes_def split: if_splits)
  then have l: "live bs (a + HDR) = Some n" using live_iff [OF assms(1)] by simp
  from live_payload(1) [OF assms l] x have "x \<in> {unat (a + HDR) ..< unat (a + HDR) + unat n}" by simp
  with l show "\<exists>p n. live bs p = Some n \<and> x \<in> {unat p ..< unat p + unat n}" by blast
next
  assume "\<exists>p n. live bs p = Some n \<and> x \<in> {unat p ..< unat p + unat n}"
  then show "x \<in> used_bytes bs" using live_payload(1,4) [OF assms] by blast
qed

lemma used_bytes_free_at:
  assumes t: "tiled lo bs hi" "hi < 2 ^ 32" and p: "live bs p = Some n"
  shows "used_bytes (free_at (p - HDR) bs) = used_bytes bs - {unat p ..< unat p + unat n}"
proof -
  have t': "tiled lo (free_at (p - HDR) bs) hi" using t(1) by simp
  have "x \<in> used_bytes (free_at (p - HDR) bs) \<longleftrightarrow> x \<in> used_bytes bs \<and> x \<notin> {unat p ..< unat p + unat n}" for x
  proof -
    have "x \<in> used_bytes (free_at (p - HDR) bs) \<longleftrightarrow>
        (\<exists>q k. q \<noteq> p \<and> live bs q = Some k \<and> x \<in> {unat q ..< unat q + unat k})"
      unfolding used_bytes_live [OF t' t(2)] live_free_at [OF t(1)] by (simp del: atLeastLessThan_iff) metis
    moreover have "x \<in> used_bytes bs \<longleftrightarrow> (\<exists>q k. live bs q = Some k \<and> x \<in> {unat q ..< unat q + unat k})"
      by (rule used_bytes_live [OF t])
    moreover have "x \<notin> {unat p ..< unat p + unat n}"
      if "q \<noteq> p" "live bs q = Some k" "x \<in> {unat q ..< unat q + unat k}" for q k
      using live_disjoint [OF t that(2) p that(1)] that(3) by blast
    ultimately show ?thesis using p by (metis option.inject)
  qed
  then show ?thesis by blast
qed

end
