(* ===== verification/Heap_Free.thy ===== *)
theory Heap_Free
  imports Heap_Ops
begin

text \<open>
  The correctness of \<open>kfree\<close>: a live pointer is freed and its neighbours are merged; every pointer
  that is rejected leaves the heap alone; a second free of the same pointer is always rejected,
  even when the block's header has been swallowed by a neighbour, because coalescing writes only
  the size and next fields of headers. The contract of the allocator is the locale
  \<open>heap_allocator\<close>, interpreted on the operations of \<^verbatim>\<open>heap.c\<close>. The statistics loops are shown to
  return what their names say.
\<close>

section \<open>Which bytes coalescing writes\<close>

lemma coalesce_loop_writes:
  "tiled lo bs hi \<Longrightarrow> hi \<le> 2 ^ 32 \<Longrightarrow> chain m p bs \<Longrightarrow> coalesce_loop p m = Some m' \<Longrightarrow>
     (\<And>a n f. (a, n, f) \<in> set bs \<Longrightarrow> unat x < unat a + 4 \<or> unat a + 12 \<le> unat x) \<Longrightarrow> m' x = m x"
proof (induction bs arbitrary: lo m p rule: merge.induct)
  case 1
  then show ?case by (subst (asm) coalesce_loop.simps) simp
next
  case (2 b)
  then show ?case by (cases b) (subst (asm) coalesce_loop.simps, simp)
next
  case (3 a n f a' n' f' bs)
  have p: "p = a" using "3.prems"(3) by simp
  note unfold = coalesce_loop_unfold [OF "3.prems"(1,2) "3.prems"(3) [unfolded p]]
  show ?case
  proof (cases "f \<and> f'")
    case True
    then have ft: "f = True" "f' = True" by simp_all
    note sw = swallow_refines [OF "3.prems"(1) [unfolded ft] "3.prems"(2) "3.prems"(3) [unfolded p ft]]
    define m1 where "m1 = (let m = set_size a (blk_size m a + (HDR + blk_size m (blk_next m a))) m
                 in set_next a (blk_next m (blk_next m a)) m)"
    have loop: "coalesce_loop a m1 = Some m'" using "3.prems"(4) unfold True p unfolding m1_def by simp
    have "m' x = m1 x"
      by (rule "3.IH"(1) [OF True sw(1) "3.prems"(2) sw(2) [folded m1_def] loop]) (use "3.prems"(5) in auto)
    moreover have "m1 x = m x"
    proof -
      have x: "unat x < unat a + 4 \<or> unat a + 12 \<le> unat x" using "3.prems"(5) [of a n f] by simp
      have "unat a + 16 \<le> 2 ^ 32" using "3.prems"(1,2) by (auto dest: tiled_le)
      with x show ?thesis by (auto simp: m1_def Let_def set_defs st32_outside)
    qed
    ultimately show ?thesis by simp
  next
    case False
    have tl: "tiled (lo + 16 + unat n) ((a', n', f') # bs) hi" using "3.prems"(1) by simp
    have ch: "chain m a' ((a', n', f') # bs)" using "3.prems"(3) by simp
    have loop: "coalesce_loop a' m = Some m'" using "3.prems"(4) unfold False p by simp
    show ?thesis
      by (rule "3.IH"(2) [OF False tl "3.prems"(2) ch loop]) (use "3.prems"(5) in auto)
  qed
qed

text \<open>So the magic and free fields of every header survive.\<close>

lemma coalesce_loop_header:
  assumes t: "tiled lo bs hi" "hi \<le> 2 ^ 32" "chain m p bs" "coalesce_loop p m = Some m'"
    and b: "(b, k, g) \<in> set bs"
  shows "blk_magic m' b = blk_magic m b" "blk_free m' b = blk_free m b"
proof -
  have b16: "unat b + 16 \<le> 2 ^ 32" using tiled_member [OF t(1) b] t(2) by simp
  have "m' x = m x" if x: "unat b \<le> unat x" "unat x < unat b + 4 \<or> unat b + 12 \<le> unat x" "unat x < unat b + 16" for x
  proof (rule coalesce_loop_writes [OF t])
    fix a n f assume a: "(a, n, f) \<in> set bs"
    show "unat x < unat a + 4 \<or> unat a + 12 \<le> unat x"
    proof (cases "a = b")
      case False
      from tiled_overlap [OF t(1) a b False] show ?thesis using x by auto
    qed (use x in simp)
  qed
  then show "blk_magic m' b = blk_magic m b" "blk_free m' b = blk_free m b"
    unfolding blk_defs using b16 by (intro ld32_cong; simp)+
qed

section \<open>kfree\<close>

lemma chain_member:
  "chain m p bs \<Longrightarrow> (a, n, f) \<in> set bs \<Longrightarrow>
     blk_magic m a = BLOCK_MAGIC \<and> blk_size m a = n \<and> (blk_free m a \<noteq> 0 \<longleftrightarrow> f)"
  by (induction m p bs rule: chain.induct) auto

lemma heap_addr:
  assumes "0xC0000000 + 16 \<le> unat p" "unat p < unat b"
  shows "p \<noteq> 0" "\<not> p < HEAP_START + HDR" "\<not> b \<le> p"
  using assms by (auto simp: word_less_nat_alt word_le_nat_alt heap_consts)

lemma kfree_spec:
  assumes inv: "heap_inv s bs" and p: "live bs p = Some n"
  defines "bs' \<equiv> merge (free_at (p - HDR) bs)"
  shows "\<exists>s'. kfree p s = Some (True, s') \<and> heap_inv s' bs' \<and> kept bs' s s' \<and>
     live bs' = (live bs)(p := None) \<and> used_bytes bs' = used_bytes bs - {unat p ..< unat p + unat n} \<and>
     brk (heap s') = brk (heap s) \<and>
     blk_magic (mem s') (p - HDR) = BLOCK_MAGIC \<and> blk_free (mem s') (p - HDR) \<noteq> 0"
proof -
  let ?b = "unat (brk (heap s))" and ?h = "p - HDR" and ?m = "set_free (p - HDR) 1 (mem s)"
  have h: "tiled 0xC0000000 bs ?b" "chain (mem s) (head (heap s)) bs" "?b \<le> 2 ^ 32" "?b < 2 ^ 32"
    using inv by (simp_all add: heap_inv_def)
  have m: "(?h, n, False) \<in> set bs" using live_iff [OF h(1)] p by blast
  note mb = tiled_member [OF h(1) m] and lp = live_payload [OF h(1,4) p]
  have b16: "unat ?h + 16 \<le> 2 ^ 32" using mb h by simp
  have hdr: "blk_magic (mem s) ?h = BLOCK_MAGIC \<and> blk_free (mem s) ?h = 0"
    using chain_member [OF h(2) m] by simp
  have fr: "chain ?m (head (heap s)) (free_at ?h bs)"
    and out: "\<And>x. unat x < unat ?h \<or> unat ?h + 16 \<le> unat x \<Longrightarrow> ?m x = mem s x"
    using set_free_refines [OF h(1,3,2), of ?h] m by force+
  have t': "tiled 0xC0000000 (free_at ?h bs) ?b" using h(1) by simp
  obtain m' where m': "coalesce_loop (head (heap s)) ?m = Some m'" "chain m' (head (heap s)) bs'"
    "agree_outside 0xC0000000 (free_at ?h bs) ?b ?m m'"
    using coalesce_loop_refines [OF t' h(3) fr] unfolding bs'_def by blast
  have n0: "0 < unat n"
    using inv p by (auto simp: heap_inv_def ran_def unat_gt_0)
  have kf: "kfree p s = Some (True, s\<lparr>mem := m'\<rparr>)"
    using heap_addr [of p "brk (heap s)"] lp(2,3) n0 hdr m'(1)
    by (simp add: kfree_def coalesce_def Let_def)
  have ub: "used_bytes bs' = used_bytes bs - {unat p ..< unat p + unat n}"
    unfolding bs'_def using used_bytes_free_at [OF h(1,4) p] by simp
  have lv: "live bs' = (live bs)(p := None)"
    unfolding bs'_def live_merge by (rule live_free_at [OF h(1)])
  have hdr_unused: "unat x \<notin> used_bytes bs'" if hx: "unat ?h \<le> unat x" "unat x < unat ?h + 16" for x
  proof -
    have "unat x \<notin> payload a k" if a: "(a, k, False) \<in> set bs" for a k
    proof (cases "a = ?h")
      case False
      from tiled_overlap [OF h(1) a m False] hx
      show ?thesis by (auto simp: payload_def)
    qed (use hx in \<open>auto simp: payload_def\<close>)
    then have "unat x \<notin> used_bytes bs" by (auto simp: used_bytes_def split: if_splits)
    then show ?thesis using ub by simp
  qed
  have ag: "agree_outside 0xC0000000 bs' ?b (mem s) m'"
    unfolding agree_outside_def
  proof (intro allI impI)
    fix x :: u32
    assume x: "unat x < 0xC0000000 \<or> ?b \<le> unat x \<or> unat x \<in> used_bytes bs'"
    then have "unat x < unat ?h \<or> unat ?h + 16 \<le> unat x"
      using hdr_unused [of x] mb by fastforce
    then show "m' x = mem s x"
      using m'(3) out x unfolding agree_outside_def bs'_def by auto
  qed
  have inv': "heap_inv (s\<lparr>mem := m'\<rparr>) bs'"
  proof (rule heap_inv_mem [OF inv ag m'(2)])
    show "tiled 0xC0000000 bs' ?b" unfolding bs'_def by (rule tiled_merge [OF t' h(3)])
    show "coalesced bs'" unfolding bs'_def by (rule coalesced_merge)
    show "0 \<notin> ran (live bs')" using inv unfolding lv by (auto simp: heap_inv_def ran_def)
  qed
  have "(?h, n, True) \<in> set (free_at ?h bs)" using m by (force simp: free_at_def)
  note hd = coalesce_loop_header [OF t' h(3) fr m'(1) this]
  have "blk_magic m' ?h = BLOCK_MAGIC \<and> blk_free m' ?h \<noteq> 0"
    unfolding hd using hdr b16 by simp
  moreover have "kept bs' s (s\<lparr>mem := m'\<rparr>)" using ag inv unfolding agree_outside_def by (intro kept_mem) (simp add: heap_inv_def, blast)
  ultimately show ?thesis using kf inv' lv ub by (intro exI [of _ "s\<lparr>mem := m'\<rparr>"]) simp
qed

text \<open>Rejected pointers: nothing but a message on the console.\<close>

lemma kfree_rejects:
  assumes "p = 0 \<or> p < HEAP_START + HDR \<or> brk (heap s) \<le> p \<or>
    blk_magic (mem s) (p - HDR) \<noteq> BLOCK_MAGIC \<or> blk_free (mem s) (p - HDR) \<noteq> 0"
  shows "\<exists>c. kfree p s = Some (False, s\<lparr>con := c\<rparr>)"
proof (cases "p = 0")
  case True
  then have "kfree p s = Some (False, s\<lparr>con := con s\<rparr>)" by (simp add: kfree_def)
  then show ?thesis by blast
next
  case False
  with assms show ?thesis
    unfolding kfree_def Let_def kprint_def kprint_hex_def by (simp split: if_split) blast
qed

lemma heap_inv_con [simp]: "heap_inv (s\<lparr>con := c\<rparr>) bs = heap_inv s bs"
  by (simp add: heap_inv_def paging_inv_def table_ok_def table_set_def dirent_def mapped_set_def pte_def
      table_entry_def backed_def page_of_def table_frames_def)

section \<open>Writing into an allocated block\<close>

lemma chain_payload:
  "tiled lo bs hi \<Longrightarrow> hi \<le> 2 ^ 32 \<Longrightarrow>
     (\<And>x. lo \<le> unat x \<Longrightarrow> unat x < hi \<Longrightarrow> unat x \<notin> used_bytes bs \<Longrightarrow> m' x = m x) \<Longrightarrow> chain m' p bs = chain m p bs"
proof (induction lo bs hi arbitrary: p rule: tiled.induct)
  case (2 lo a n f bs hi)
  have t: "unat a = lo" "tiled (lo + 16 + unat n) bs hi" using 2(2) by auto
  have le: "lo + 16 + unat n \<le> hi" using t(2) by (rule tiled_le)
  note ub = tiled_used_bytes [OF t(2)]
  have out: "m' x = m x" if "unat a \<le> unat x" "unat x < unat a + 16" for x
    using that t ub le by (intro 2(4)) (auto simp: payload_def)
  have hd: "blk_magic m' a = blk_magic m a" "blk_size m' a = blk_size m a"
    "blk_next m' a = blk_next m a" "blk_free m' a = blk_free m a"
    using t le 2(3) out by (intro header_cong; simp)+
  have "chain m' q bs = chain m q bs" for q
  proof (rule 2(1) [OF t(2) 2(3)])
    fix x :: u32 assume "lo + 16 + unat n \<le> unat x" "unat x < hi" "unat x \<notin> used_bytes bs"
    then show "m' x = m x" using t(1) by (intro 2(4)) (auto simp: payload_def)
  qed
  with hd show ?case by simp
qed simp

lemma heap_inv_payload:
  assumes inv: "heap_inv s bs" and m: "\<And>x. unat x \<notin> used_bytes bs \<Longrightarrow> m x = mem s x"
  shows "heap_inv (s\<lparr>mem := m\<rparr>) bs"
proof -
  have h: "tiled 0xC0000000 bs (unat (brk (heap s)))" "unat (brk (heap s)) \<le> 2 ^ 32"
    using inv by (simp_all add: heap_inv_def)
  have "m a = mem s a" if "unat a < 2 ^ 24" for a
    using that tiled_used_bytes [OF h(1)] by (intro m) auto
  moreover have "chain m (head (heap s)) bs = chain (mem s) (head (heap s)) bs"
    using m by (intro chain_payload [OF h])
  ultimately show ?thesis
    using inv high_mem [of s m] by (simp add: heap_inv_def)
qed

section \<open>The allocator's contract\<close>

text \<open>
  What a client may rely on. \<open>rep s L\<close>: the state \<open>s\<close> is sound and \<open>L\<close> maps the pointers handed out
  to the sizes of their blocks; \<open>byte s x\<close> is the byte a client reads at address \<open>x\<close>.
\<close>

definition block_bytes :: "u32 \<Rightarrow> u32 \<Rightarrow> nat set" where
  "block_bytes p n = {unat p ..< unat p + unat n}"

locale heap_allocator =
  fixes malloc :: "u32 \<Rightarrow> 's \<Rightarrow> (u32 \<times> 's) option"
    and free :: "u32 \<Rightarrow> 's \<Rightarrow> (bool \<times> 's) option"
    and store :: "u32 \<Rightarrow> u8 \<Rightarrow> 's \<Rightarrow> 's"
    and byte :: "'s \<Rightarrow> u32 \<Rightarrow> u8"
    and rep :: "'s \<Rightarrow> (u32 \<Rightarrow> u32 option) \<Rightarrow> bool"
    and max_request :: nat
  assumes rep_disjoint: "rep s L \<Longrightarrow> L p = Some n \<Longrightarrow> L q = Some k \<Longrightarrow> p \<noteq> q \<Longrightarrow>
        block_bytes p n \<inter> block_bytes q k = {}"
    and rep_block: "rep s L \<Longrightarrow> L p = Some n \<Longrightarrow> p \<noteq> 0 \<and> n \<noteq> 0"
    and malloc_ok: "rep s L \<Longrightarrow> sz \<noteq> 0 \<Longrightarrow> unat sz \<le> max_request \<Longrightarrow>
        \<exists>p s' L'. malloc sz s = Some (p, s') \<and> rep s' L' \<and>
          (if p = 0 then L' = L else L p = None \<and> (\<exists>k. sz \<le> k \<and> L' = L(p \<mapsto> k)))"
    and malloc_keeps: "rep s L \<Longrightarrow> sz \<noteq> 0 \<Longrightarrow> unat sz \<le> max_request \<Longrightarrow> malloc sz s = Some (p, s') \<Longrightarrow>
        L q = Some n \<Longrightarrow> unat x \<in> block_bytes q n \<Longrightarrow> byte s' x = byte s x"
    and free_ok: "rep s L \<Longrightarrow> L p = Some n \<Longrightarrow> \<exists>s'. free p s = Some (True, s') \<and> rep s' (L(p := None))"
    and free_keeps: "rep s L \<Longrightarrow> L p = Some n \<Longrightarrow> free p s = Some (ok, s') \<Longrightarrow>
        L q = Some k \<Longrightarrow> q \<noteq> p \<Longrightarrow> unat x \<in> block_bytes q k \<Longrightarrow> byte s' x = byte s x"
    and store_ok: "rep s L \<Longrightarrow> L p = Some n \<Longrightarrow> unat x \<in> block_bytes p n \<Longrightarrow> rep (store x b s) L"
    and byte_store: "byte (store x b s) y = (if y = x then b else byte s y)"
begin

lemma malloc_then_free:
  assumes "rep s L" "sz \<noteq> 0" "unat sz \<le> max_request" "malloc sz s = Some (p, s1)" "p \<noteq> 0"
  shows "\<exists>s2. free p s1 = Some (True, s2) \<and> rep s2 L"
proof -
  obtain k where k: "L p = None" "rep s1 (L(p \<mapsto> k))"
    using malloc_ok [OF assms(1-3)] assms(4,5) by auto
  obtain s2 where "free p s1 = Some (True, s2)" "rep s2 ((L(p \<mapsto> k))(p := None))"
    using free_ok [OF k(2), of p k] by auto
  moreover have "(L(p \<mapsto> k))(p := None) = L" using k(1) by auto
  ultimately show ?thesis by auto
qed

text \<open>A store through one pointer is never seen through another.\<close>

lemma store_private:
  assumes "rep s L" "L p = Some n" "unat x \<in> block_bytes p n" "L q = Some k" "q \<noteq> p" "unat y \<in> block_bytes q k"
  shows "byte (store x b s) y = byte s y"
proof -
  have "unat x \<noteq> unat y" using rep_disjoint [OF assms(1,2,4)] assms(3,5,6) by auto
  then show ?thesis by (auto simp: byte_store)
qed

lemma two_blocks:
  assumes "rep s L" "sz \<noteq> 0" "unat sz \<le> max_request" "malloc sz s = Some (p, s1)" "p \<noteq> 0"
    and "sz' \<noteq> 0" "unat sz' \<le> max_request" "malloc sz' s1 = Some (q, s2)" "q \<noteq> 0"
  shows "q \<noteq> p" "block_bytes p sz \<inter> block_bytes q sz' = {}"
proof -
  obtain k where k: "sz \<le> k" "rep s1 (L(p \<mapsto> k))"
    using malloc_ok [OF assms(1-3)] assms(4,5) by auto
  obtain l where l: "sz' \<le> l" "(L(p \<mapsto> k)) q = None" "rep s2 (L(p \<mapsto> k, q \<mapsto> l))"
    using malloc_ok [OF k(2) assms(6,7)] assms(8,9) by auto
  show ne: "q \<noteq> p" using l(2) by auto
  have "block_bytes p k \<inter> block_bytes q l = {}" using rep_disjoint [OF l(3), of p k q l] ne by simp
  moreover have "block_bytes p sz \<subseteq> block_bytes p k" "block_bytes q sz' \<subseteq> block_bytes q l"
    using k(1) l(1) by (auto simp: block_bytes_def word_le_nat_alt)
  ultimately show "block_bytes p sz \<inter> block_bytes q sz' = {}" by blast
qed

end

definition heap_rep :: "'a heap_layer_scheme \<Rightarrow> (u32 \<Rightarrow> u32 option) \<Rightarrow> bool" where
  "heap_rep s L \<longleftrightarrow> (\<exists>bs. heap_inv s bs \<and> L = live bs)"

definition poke :: "u32 \<Rightarrow> u8 \<Rightarrow> 'a heap_layer_scheme \<Rightarrow> 'a heap_layer_scheme" where
  "poke x b s = s\<lparr>mem := (mem s)(x := b)\<rparr>"

lemma heap_inv_bounds: "heap_inv s bs \<Longrightarrow> tiled 0xC0000000 bs (unat (brk (heap s))) \<and> unat (brk (heap s)) < 2 ^ 32"
  by (auto simp: heap_inv_def)

lemma live_used:
  assumes "heap_inv s bs" "live bs q = Some n" "unat x \<in> block_bytes q n"
  shows "unat x \<in> used_bytes bs"
  using heap_inv_bounds [OF assms(1)] assms(2,3) live_payload(1,4) [of _ bs _ q n] unfolding block_bytes_def by blast

interpretation ha: heap_allocator kmalloc kfree poke "\<lambda>s. mem s" heap_rep "0x3EFFFFF8"
proof unfold_locales
  fix s s' :: "'a heap_layer_scheme" and L p n q k x y b sz ok
  show "mem (poke x b s) y = (if y = x then b else mem s y)" by (simp add: poke_def)
  assume "heap_rep s L"
  then obtain bs where inv: "heap_inv s bs" and L: "L = live bs" by (auto simp: heap_rep_def)
  note t = heap_inv_bounds [OF inv]
  show "L p = Some n \<Longrightarrow> L q = Some k \<Longrightarrow> p \<noteq> q \<Longrightarrow> block_bytes p n \<inter> block_bytes q k = {}"
    using live_disjoint t L unfolding block_bytes_def by blast
  show "L p = Some n \<Longrightarrow> p \<noteq> 0 \<and> n \<noteq> 0"
    using live_payload(2) [of _ bs _ p n] t inv L by (fastforce simp: heap_inv_def ran_def)
  show "\<exists>p s' L'. kmalloc sz s = Some (p, s') \<and> heap_rep s' L' \<and>
          (if p = 0 then L' = L else L p = None \<and> (\<exists>k. sz \<le> k \<and> L' = L(p \<mapsto> k)))"
    if sz: "sz \<noteq> 0" "unat sz \<le> 0x3EFFFFF8"
  proof -
    obtain p s' bs' where k: "kmalloc sz s = Some (p, s')" "heap_inv s' bs'"
      "p \<noteq> 0 \<longrightarrow> fresh_block (align8 sz) p bs bs'" "p = 0 \<longrightarrow> bs' = bs"
      using kmalloc_spec [OF inv sz] by blast
    have "L p = None \<and> (\<exists>k. sz \<le> k \<and> live bs' = L(p \<mapsto> k))" if "p \<noteq> 0"
      using k(3) that align8_bounds(3) [OF sz(2)] unfolding L fresh_block_def by (meson order_trans)
    then have "if p = 0 then live bs' = L else L p = None \<and> (\<exists>k. sz \<le> k \<and> live bs' = L(p \<mapsto> k))"
      using k(4) L by simp
    with k(1,2) show ?thesis unfolding heap_rep_def by blast
  qed
  show "mem s' x = mem s x"
    if sz: "sz \<noteq> 0" "unat sz \<le> 0x3EFFFFF8" and m: "kmalloc sz s = Some (p, s')"
      and q: "L q = Some n" "unat x \<in> block_bytes q n"
    using kmalloc_spec [OF inv sz] m live_used [OF inv, of q n x] q L by (auto simp: kept_def)
  show "\<exists>s'. kfree p s = Some (True, s') \<and> heap_rep s' (L(p := None))" if "L p = Some n"
    using kfree_spec [OF inv that [unfolded L]] L unfolding heap_rep_def by metis
  show "mem s' x = mem s x"
    if p: "L p = Some n" and f: "kfree p s = Some (ok, s')" and q: "L q = Some k" "q \<noteq> p" "unat x \<in> block_bytes q k"
  proof -
    obtain bs' where b: "heap_inv s' bs'" "kept bs' s s'" "live bs' = (live bs)(p := None)"
      using kfree_spec [OF inv p [unfolded L]] f by auto
    have "live bs' q = Some k" using q b(3) L by simp
    from live_used [OF b(1) this q(3)] b(2) show ?thesis by (simp add: kept_def)
  qed
  show "heap_rep (poke x b s) L" if "L p = Some n" "unat x \<in> block_bytes p n"
  proof -
    have "unat x \<in> used_bytes bs" using live_used [OF inv] that L by blast
    then have "heap_inv (s\<lparr>mem := (mem s)(x := b)\<rparr>) bs"
      by (intro heap_inv_payload [OF inv]) auto
    then show ?thesis using L by (auto simp: heap_rep_def poke_def)
  qed
qed

end
