(* ===== verification/Heap_Props.thy ===== *)
theory Heap_Props
  imports Heap_Free
begin

text \<open>
  The statistics of the heap, and the properties of the heap as a whole. \<open>heap_step\<close> is one
  operation of a client that frees and writes only blocks it holds; the runs of such steps are
  what \<open>live_data_survives\<close> speaks about. \<open>demo_heap\<close> is the state after \<open>heap_init\<close> on the
  concrete machine of \<open>Mmu\<close>; the witnesses are evaluated there.
\<close>

section \<open>Statistics\<close>

definition stat_used :: "hblock list \<Rightarrow> nat" where
  "stat_used bs = (\<Sum>(a, n, f) \<leftarrow> bs. 16 + (if f then 0 else unat n))"

definition stat_free :: "hblock list \<Rightarrow> nat" where
  "stat_free bs = (\<Sum>(a, n, f) \<leftarrow> bs. if f then unat n else 0)"

lemma tiled_stats: "tiled lo bs hi \<Longrightarrow> hi = lo + stat_used bs + stat_free bs"
  by (induction lo bs hi rule: tiled.induct) (auto simp: stat_used_def stat_free_def)

lemma heap_used_loop_chain:
  "chain m p bs \<Longrightarrow> 0 \<notin> fst ` set bs \<Longrightarrow> heap_used_loop m p u = Some (u + of_nat (stat_used bs))"
proof (induction bs arbitrary: p u)
  case Nil
  then show ?case by (subst heap_used_loop.simps) (simp add: stat_used_def)
next
  case (Cons b bs)
  obtain a n f where b: "b = (a, n, f)" by (cases b)
  with Cons.prems Cons.IH show ?case
    by (subst heap_used_loop.simps) (auto simp: stat_used_def HDR_def algebra_simps)
qed

lemma heap_blocks_loop_chain:
  "chain m p bs \<Longrightarrow> 0 \<notin> fst ` set bs \<Longrightarrow> heap_blocks_loop m p u = Some (u + of_nat (length bs))"
proof (induction bs arbitrary: p u)
  case Nil
  then show ?case by (subst heap_blocks_loop.simps) simp
next
  case (Cons b bs)
  obtain a n f where b: "b = (a, n, f)" by (cases b)
  with Cons.prems Cons.IH show ?case
    by (subst heap_blocks_loop.simps) (auto simp: algebra_simps)
qed

lemma heap_free_blocks_loop_chain:
  "chain m p bs \<Longrightarrow> 0 \<notin> fst ` set bs \<Longrightarrow>
     heap_free_blocks_loop m p u = Some (u + of_nat (length (filter (\<lambda>(a, n, f). f) bs)))"
proof (induction bs arbitrary: p u)
  case Nil
  then show ?case by (subst heap_free_blocks_loop.simps) simp
next
  case (Cons b bs)
  obtain a n f where b: "b = (a, n, f)" by (cases b)
  with Cons.prems Cons.IH show ?case
    by (subst heap_free_blocks_loop.simps) (auto simp: algebra_simps)
qed

lemma heap_inv_nonnull: "heap_inv s bs \<Longrightarrow> 0 \<notin> fst ` set bs"
  using tiled_member heap_inv_bounds by fastforce

section \<open>A concrete heap\<close>

definition demo_heap :: "'a \<Rightarrow> 'a heap_layer_scheme" where
  "demo_heap m = heap_init (demo_on \<lparr>heap = \<lparr>head = 0, brk = 0, heap_ready = False\<rparr>, \<dots> = m\<rparr>)"

lemma demo_can_grow: "n \<le> 3833 \<Longrightarrow> can_grow n (demo_on m)"
proof -
  assume n: "n \<le> 3833"
  have "low_free (demo_on m) \<subseteq> free_frames (pmm (demo_on m))" by (auto simp: low_free_def)
  then have "card (low_free (demo_on m)) \<le> card (free_frames (pmm (demo_on m)))"
    by (intro card_mono) auto
  with demo_on(7) [of m] n show ?thesis by (simp add: can_grow_def)
qed

lemma demo_heap:
  "heap_inv (demo_heap m) [(HEAP_START, 0xFFF0, True)]" "brk (heap (demo_heap m)) = 0xC0010000"
  "con (demo_heap m) = demo_con" "mmap (demo_heap m) = demo_map" "heap_layer.more (demo_heap m) = m"
  "total_frames (pmm (demo_heap m)) = 4096" "identity_end (paging (demo_heap m)) = 0x1000000"
  "pool (demo_heap m) \<subseteq> {257..<4096}"
proof -
  let ?m = "\<lparr>heap = \<lparr>head = 0, brk = 0, heap_ready = False\<rparr>, \<dots> = m\<rparr>"
  note hi = heap_init_spec [OF demo_on(1) [of ?m] demo_on(5) [of ?m] demo_can_grow [of 16 ?m], folded demo_heap_def]
  show "heap_inv (demo_heap m) [(HEAP_START, 0xFFF0, True)]" "brk (heap (demo_heap m)) = 0xC0010000"
    using hi(1,2) by simp_all
  show "con (demo_heap m) = demo_con" "mmap (demo_heap m) = demo_map"
    using hi(3,4) demo_on(8,9) [of ?m] by simp_all
  show "total_frames (pmm (demo_heap m)) = 4096" "identity_end (paging (demo_heap m)) = 0x1000000"
    using hi(6,7) demo_on(4,11) [of ?m] by simp_all
  show "pool (demo_heap m) \<subseteq> {257..<4096}"
    using hi(8) demo_on(12) [of ?m] unfolding pool_kept_def by simp (rule subset_trans, blast+)
  have "paging_layer.more (demo_on ?m) = ?m" by (rule demo_on(10))
  then have "heap_layer.more (demo_on ?m) = m" by (cases "demo_on ?m") simp
  then show "heap_layer.more (demo_heap m) = m" using hi(5) by simp
qed

section \<open>Runs of a client\<close>

lemma chain_unique:
  "chain m p bs \<Longrightarrow> chain m p bs' \<Longrightarrow> 0 \<notin> fst ` set bs \<Longrightarrow> 0 \<notin> fst ` set bs' \<Longrightarrow> bs = bs'"
proof (induction bs arbitrary: p bs')
  case Nil
  then show ?case by (cases bs') auto
next
  case (Cons b bs)
  obtain a n f where b: "b = (a, n, f)" by (cases b)
  with Cons.prems obtain n' f' cs where bs': "bs' = (a, n', f') # cs" by (cases bs') auto
  with b Cons.prems Cons.IH [of "blk_next m a" cs] show ?case by auto
qed

lemma heap_rep_unique: "heap_rep s L \<Longrightarrow> heap_rep s L' \<Longrightarrow> L = L'"
  unfolding heap_rep_def using heap_inv_nonnull by (metis chain_unique heap_inv_def)

text \<open>One operation of the other clients, while someone holds the pointer \<open>q\<close>.\<close>

inductive heap_step :: "u32 \<Rightarrow> 'a heap_layer_scheme \<Rightarrow> 'a heap_layer_scheme \<Rightarrow> bool" for q where
  Malloc: "sz \<noteq> 0 \<Longrightarrow> unat sz \<le> 0x3EFFFFF8 \<Longrightarrow> kmalloc sz s = Some (p, s') \<Longrightarrow> heap_step q s s'"
| Free: "heap_rep s L \<Longrightarrow> L p = Some n \<Longrightarrow> p \<noteq> q \<Longrightarrow> kfree p s = Some (ok, s') \<Longrightarrow> heap_step q s s'"
| Store: "heap_rep s L \<Longrightarrow> L p = Some n \<Longrightarrow> p \<noteq> q \<Longrightarrow> unat x \<in> block_bytes p n \<Longrightarrow> heap_step q s (poke x b s)"

lemma heap_step_keeps:
  assumes "heap_step q s s'" "heap_rep s L" "L q = Some n"
  shows "\<exists>L'. heap_rep s' L' \<and> L' q = Some n \<and> (\<forall>x. unat x \<in> block_bytes q n \<longrightarrow> mem s' x = mem s x)"
  using assms(1)
proof cases
  case (Malloc sz p)
  obtain p' s'' L' where m: "kmalloc sz s = Some (p', s'')" "heap_rep s'' L'"
    "if p' = 0 then L' = L else L p' = None \<and> (\<exists>k. sz \<le> k \<and> L' = L(p' \<mapsto> k))"
    using ha.malloc_ok [OF assms(2) Malloc(1,2)] by blast
  then have "s'' = s'" "L' q = Some n" using Malloc(3) assms(3) by (auto split: if_splits)
  then show ?thesis
    using m(2) ha.malloc_keeps [OF assms(2) Malloc(1,2,3) assms(3)] by blast
next
  case (Free L1 p k ok)
  have L1: "L1 = L" using heap_rep_unique [OF Free(1) assms(2)] .
  obtain s'' where f: "kfree p s = Some (True, s'')" "heap_rep s'' (L(p := None))"
    using ha.free_ok [OF assms(2)] Free(2) L1 by blast
  then have "s'' = s'" using Free(4) by simp
  then show ?thesis
    using f(2) assms(3) Free(3) ha.free_keeps [OF assms(2) Free(2) [unfolded L1] Free(4) assms(3)]
    by (intro exI [of _ "L(p := None)"]) auto
next
  case (Store L1 p k x b)
  have L1: "L1 = L" using heap_rep_unique [OF Store(2) assms(2)] .
  have "heap_rep s' L" using ha.store_ok [OF Store(2,3,5)] Store(1) L1 by simp
  moreover have "mem s' y = mem s y" if "unat y \<in> block_bytes q n" for y
    using ha.store_private [OF assms(2) Store(3) [unfolded L1] Store(5) assms(3) _ that] Store(1,4) by simp
  ultimately show ?thesis using assms(3) by blast
qed

lemma heap_steps_keep:
  assumes "(heap_step q)\<^sup>*\<^sup>* s s'" "heap_rep s L" "L q = Some n"
  shows "\<exists>L'. heap_rep s' L' \<and> L' q = Some n \<and> (\<forall>x. unat x \<in> block_bytes q n \<longrightarrow> mem s' x = mem s x)"
  using assms(1)
proof (induction rule: rtranclp_induct)
  case base
  show ?case using assms(2,3) by blast
next
  case (step t u)
  then obtain L' where "heap_rep t L'" "L' q = Some n" "\<forall>x. unat x \<in> block_bytes q n \<longrightarrow> mem t x = mem s x"
    by blast
  from heap_step_keeps [OF step(2) this(1,2)] this(3) show ?case by fastforce
qed

section \<open>Allocation when a block fits\<close>

lemma kmalloc_fit:
  assumes inv: "heap_inv s bs" and sz: "sz \<noteq> 0" "unat sz \<le> 0x3EFFFFF8"
    and fit: "fst (first_fit (align8 sz) bs) = Some q"
  shows "\<exists>m. kmalloc sz s = Some (q, s\<lparr>mem := m\<rparr>) \<and> heap_inv (s\<lparr>mem := m\<rparr>) (snd (first_fit (align8 sz) bs)) \<and>
    kept bs s (s\<lparr>mem := m\<rparr>)"
proof -
  note al = align8_bounds [OF sz(2)]
  have nz: "align8 sz \<noteq> 0" using al(3) sz(1) by (auto simp: word_le_0_iff)
  obtain m' where m: "kmalloc_scan (align8 sz) (head (heap s)) (mem s) = Some (fst (first_fit (align8 sz) bs), m')"
    "heap_inv (s\<lparr>mem := m'\<rparr>) (snd (first_fit (align8 sz) bs))" "kept bs s (s\<lparr>mem := m'\<rparr>)"
    using heap_scan_step [OF inv al(1) nz] by blast
  have "kmalloc sz s = kmalloc_attempts 2 (align8 sz) s"
    using inv sz(1) by (simp add: kmalloc_def heap_inv_def)
  also have "\<dots> = Some (q, s\<lparr>mem := m'\<rparr>)"
    using m(1) fit by (simp add: numeral_2_eq_2)
  finally show ?thesis using m(2,3) by blast
qed

lemma demo_fit:
  "first_fit (align8 100) [(HEAP_START, 0xFFF0, True)] =
     (Some 0xC0000010, [(0xC0000000, 104, False), (0xC0000078, 0xFF78, True)])"
  by (simp add: align8_def heap_consts)

lemma demo_kmalloc:
  obtains m where "kmalloc 100 (demo_heap ()) = Some (0xC0000010, demo_heap ()\<lparr>mem := m\<rparr>)"
    "heap_inv (demo_heap ()\<lparr>mem := m\<rparr>) [(0xC0000000, 104, False), (0xC0000078, 0xFF78, True)]"
  using kmalloc_fit [OF demo_heap(1) [of "()"], of 100 "0xC0000010"] unfolding demo_fit by auto

lemma live_aligned:
  assumes "heap_inv s bs" "live bs p = Some n"
  shows "8 dvd unat p"
proof -
  have t: "tiled 0xC0000000 bs (unat (brk (heap s)))" using assms(1) by (simp add: heap_inv_def)
  then have m: "(p - HDR, n, False) \<in> set bs" using assms(2) live_iff by blast
  have "unat (p - HDR) + 16 < 2 ^ 32"
    using tiled_member [OF t m] assms(1) by (simp add: heap_inv_def)
  then have "unat (p - HDR + 16) = unat (p - HDR) + 16" by (simp add: unat_word_ariths)
  then have "unat p = unat (p - HDR) + 16" by (simp add: HDR_def)
  moreover have "8 dvd unat (p - HDR)" by (rule tiled_aligned [OF t _ m]) simp
  ultimately show ?thesis by simp
qed

section \<open>The limit check and huge requests\<close>

lemma pmm_page_of: "page_of (s\<lparr>pmm := p\<rparr>) = page_of s" "table_frames (s\<lparr>pmm := p\<rparr>) = table_frames s"
  by (simp_all add: fun_eq_iff page_of_def pte_def table_entry_def dirent_def table_frames_def table_set_def)


text \<open>
  \<^verbatim>\<open>brk + bytes\<close> wraps around for a request of about 1 GB, so the comparison with \<open>HEAP_MAX\<close> does
  not stop it and the page loop runs until the frames are gone.
\<close>

lemma page_offsets_distinct:
  assumes "4096 dvd unat (b :: u32)" "n \<le> 2 ^ 20"
  shows "distinct (map (\<lambda>i. vpage (b + of_nat i * PAGE_SIZE)) [0..<n])"
proof -
  have "i = j" if i: "i < n" "j < n" and eq: "vpage (b + of_nat i * PAGE_SIZE) = vpage (b + of_nat j * PAGE_SIZE)" for i j
  proof -
    have u: "unat (of_nat k * PAGE_SIZE :: u32) = k * 4096" if "k < n" for k
      using that assms(2) by (simp add: PAGE_SIZE_def unat_word_ariths unat_of_nat)
    have "unat (b + of_nat k * PAGE_SIZE) = (unat b + k * 4096) mod 2 ^ 32" if "k < n" for k
      by (simp add: unat_word_ariths(1) u [OF that])
    moreover have "4096 dvd (unat b + k * 4096) mod 2 ^ 32" for k
      using assms(1) by (intro dvd_mod) simp_all
    ultimately have "4096 dvd unat (b + of_nat k * PAGE_SIZE)" if "k < n" for k using that by simp
    then have "unat (b + of_nat k * PAGE_SIZE) = unat (vpage (b + of_nat k * PAGE_SIZE)) * 4096" if "k < n" for k
      using that by (simp add: vpage_def drop_bit_eq_div unat_div)
    then have "unat (b + of_nat i * PAGE_SIZE) = unat (b + of_nat j * PAGE_SIZE)" using i eq by simp
    then have "of_nat i * PAGE_SIZE = (of_nat j * PAGE_SIZE :: u32)" by (simp add: word_unat_eq_iff [symmetric])
    then show ?thesis using u i by (metis mult_cancel2 zero_neq_numeral)
  qed
  then show ?thesis by (auto simp: distinct_map inj_on_def)
qed

text \<open>
  The loop runs until the allocator fails. By then every frame that was free holds a page table or is
  mapped behind the end of the heap; one at most is given back, when no table could be had for it.
\<close>

definition behind_heap :: "'a heap_layer_scheme \<Rightarrow> u32 list \<Rightarrow> nat set" where
  "behind_heap s offs = {frame_no e |e off. off \<in> set offs \<and> page_of s (brk (heap s) + off) = Some e}"

lemma grow_pages_exhaust:
  fixes s :: "'a heap_layer_scheme"
  assumes "paging_inv s" "0 \<notin> free_frames (pmm s)"
    and "\<forall>f \<in> free_frames (pmm s). f * 4096 < unat (identity_end (paging s))"
    and "card (free_frames (pmm s)) < length offs"
    and "distinct (map (\<lambda>off. vpage (brk (heap s) + off)) offs)"
  shows "\<exists>s'. grow_pages offs s = (False, s') \<and> heap s' = heap s \<and> card (free_frames (pmm s')) \<le> 1 \<and>
    (\<forall>v. vpage v \<notin> (\<lambda>off. vpage (brk (heap s) + off)) ` set offs \<longrightarrow> page_of s' v = page_of s v) \<and>
    table_frames s \<subseteq> table_frames s' \<and>
    free_frames (pmm s) \<subseteq> free_frames (pmm s') \<union> table_frames s' \<union> behind_heap s' offs"
  using assms
proof (induction offs arbitrary: s)
  case (Cons off offs)
  have pinv: "pmm_inv (pmm s)" using Cons.prems(1) by (simp add: paging_inv_def)
  obtain f p where al: "pmm_alloc_frame (pmm s) = (f, p)" by fastforce
  show ?case
  proof (cases "f = 0")
    case True
    then have e: "free_frames (pmm s) = {}" using fa.alloc_zero_iff [OF pinv Cons.prems(2)] al by simp
    then have "free_frames p = {}" using pmm_alloc_inv(3) [OF pinv al] by blast
    with True al e show ?thesis by (simp add: pmm_page_of)
  next
    case False
    note pi = pmm_alloc_inv [OF pinv al] and ac = fa.alloc_cases [OF pinv al False]
    let ?s = "s\<lparr>pmm := p\<rparr>" and ?v = "brk (heap s) + off"
    have i1: "paging_inv ?s" using Cons.prems(1) pi by (intro paging_inv_pmm)
    have nz: "0 \<notin> free_frames (pmm ?s)" using pi(3) Cons.prems(2) by auto
    obtain ok s1 where map: "paging_map ?v f PAGE_WRITE ?s = (ok, s1)" by fastforce
    note sp = paging_map_spec [OF i1 map] and tk = paging_map_taken [OF i1 nz map]
    have h: "heap s1 = heap s" using paging_frame_heap(1) [OF i1, of s1] sp by simp
    have c1: "card (free_frames p) = card (free_frames (pmm s)) - 1" "0 < card (free_frames (pmm s))"
      using ac(1,4) by (auto simp: card_gt_0_iff)
    have sub: "free_frames (pmm s1) \<subseteq> free_frames p" "identity_end (paging s1) = identity_end (paging s)"
      using sp by (simp_all add: paging_frame_def)
    have tf: "table_frames s \<subseteq> table_frames s1"
      using paging_map_step [OF i1 map] by (simp add: tables_step_def pmm_page_of)
    show ?thesis
    proof (cases ok)
      case True
      have "card (free_frames (pmm s1)) \<le> card (free_frames p)" using sub(1) by (intro card_mono) simp_all
      moreover have "\<forall>f \<in> free_frames (pmm s1). f * 4096 < unat (identity_end (paging s1))"
        unfolding sub(2) using sub(1) pi(3) Cons.prems(3) by blast
      moreover have "paging_inv s1" "0 \<notin> free_frames (pmm s1)" using sp nz sub(1) by auto
      moreover have "distinct (map (\<lambda>off. vpage (brk (heap s1) + off)) offs)" using Cons.prems(5) h by simp
      ultimately have "\<exists>s'. grow_pages offs s1 = (False, s') \<and> heap s' = heap s1 \<and> card (free_frames (pmm s')) \<le> 1 \<and>
          (\<forall>v. vpage v \<notin> (\<lambda>off. vpage (brk (heap s1) + off)) ` set offs \<longrightarrow> page_of s' v = page_of s1 v) \<and>
          table_frames s1 \<subseteq> table_frames s' \<and>
          free_frames (pmm s1) \<subseteq> free_frames (pmm s') \<union> table_frames s' \<union> behind_heap s' offs"
        using c1 Cons.prems(4) by (intro Cons.IH) simp_all
      then obtain s' where s': "grow_pages offs s1 = (False, s')" "heap s' = heap s" "card (free_frames (pmm s')) \<le> 1"
          "\<forall>v. vpage v \<notin> (\<lambda>off. vpage (brk (heap s) + off)) ` set offs \<longrightarrow> page_of s' v = page_of s1 v"
          "table_frames s1 \<subseteq> table_frames s'"
          "free_frames (pmm s1) \<subseteq> free_frames (pmm s') \<union> table_frames s' \<union> behind_heap s' offs"
        unfolding h by blast
      have ff: "FRAME_OF f = f" using FRAME_OF_entry [OF ac(3), of 0] by simp
      have pg: "page_of s1 w = (if vpage w = vpage ?v then Some f else page_of s w)" for w
        using pm.target_map [OF i1 map [unfolded eqTrueI [OF True]], of w] ff by (simp add: pmm_page_of)
      have "vpage ?v \<notin> (\<lambda>off. vpage (brk (heap s) + off)) ` set offs" using Cons.prems(5) by simp
      then have "page_of s' ?v = Some f" using s'(4) pg by simp
      then have "frame_no f \<in> behind_heap s' (off # offs)" by (force simp: behind_heap_def s'(2))
      moreover have "behind_heap s' offs \<subseteq> behind_heap s' (off # offs)" by (auto simp: behind_heap_def)
      moreover have tk': "free_frames p \<subseteq> free_frames (pmm s1) \<union> table_frames s1" using tk by simp
      ultimately have "free_frames (pmm s) \<subseteq> free_frames (pmm s') \<union> table_frames s' \<union> behind_heap s' (off # offs)"
        using ac(4) tk' s'(5,6) by blast
      moreover have "page_of s' v = page_of s v"
        if "vpage v \<notin> (\<lambda>off. vpage (brk (heap s) + off)) ` set (off # offs)" for v
        using that s'(4) pg by auto
      ultimately show ?thesis
        using True al False map s'(1-3,5) tf h by (intro exI [of _ s']) auto
    next
      case nok: False
      have "low_free ?s = {}"
      proof (rule ccontr)
        assume "low_free ?s \<noteq> {}"
        note ex = disjI2 [OF this, of "DIR_INDEX ?v \<in> table_set ?s"]
        show False
          by (rule paging_map_success [OF i1 nz ex, of f PAGE_WRITE]) (simp add: map nok)
      qed
      moreover have "free_frames p \<subseteq> low_free ?s"
        using pi(3) Cons.prems(3) by (auto simp: low_free_def)
      ultimately have none: "free_frames (pmm s1) = {}" "free_frames p = {}" using sub(1) by auto
      let ?s' = "s1\<lparr>pmm := pmm_free_frame f (pmm s1)\<rparr>"
      have p1: "pmm_inv (pmm s1)" using sp by (simp add: paging_inv_def)
      then have fr: "free_frames (pmm ?s') \<subseteq> {frame_no f}"
        using fa.free_insert [of "pmm s1" f] none by auto
      then have "card (free_frames (pmm ?s')) \<le> card {frame_no f}"
        by (intro card_mono) simp_all
      moreover have "free_frames (pmm s) \<subseteq> free_frames (pmm ?s')"
        using fa.free_insert [OF p1, of f] fa.free_less [OF pinv ac(1)] ac(4) none(2) pi(2) sp
        by (auto simp: paging_frame_def)
      moreover have "paging_map ?v f PAGE_WRITE ?s = (False, s1)" using map nok by simp
      then have "page_of ?s' v = page_of s v" for v
        using pm.target_map_fail [OF i1, of ?v f PAGE_WRITE s1 v] by (simp add: pmm_page_of)
      ultimately show ?thesis using nok al False map h tf
        by (intro exI [of _ ?s']) (auto simp: pmm_page_of)
    qed
  qed
qed simp

section \<open>Properties\<close>

text \<open>
  C11: \<open>kmalloc\<close>. On a sound heap a request of no bytes returns NULL and changes nothing. A request
  of 1 to 0x3EFFFFF8 bytes returns; larger ones are not covered, for they make the sums with the
  size wrap around. If the result is not NULL it is a multiple of 8 and points to a block of at
  least the requested size that was not in use, overlaps no block in use and is now recorded as in
  use. The result is NULL only if no free block fits
  and the heap cannot be extended (limit reached or too few frames). In both cases the heap stays
  sound, the contents of all blocks in use stay as they were, and nothing else of the kernel
  state above the heap changes.
\<close>

theorem kmalloc_correct:
  assumes "heap_inv s bs" and "sz \<noteq> 0" and "unat sz \<le> 0x3EFFFFF8"
  shows "kmalloc 0 s = Some (0, s) \<and> (\<exists>p s' bs'. kmalloc sz s = Some (p, s') \<and> heap_inv s' bs' \<and> kept bs s s' \<and>
    (if p = 0 then bs' = bs \<and> (\<forall>(a, k, f) \<in> set bs. f \<longrightarrow> k < align8 sz) \<and>
        \<not> (can_grow (grow_bytes sz div 4096) s \<and> unat (brk (heap s)) + grow_bytes sz \<le> 0xC0400000)
     else 8 dvd unat p \<and> (\<exists>k. sz \<le> k \<and> live bs p = None \<and> live bs' = (live bs)(p \<mapsto> k) \<and>
        block_bytes p k \<inter> used_bytes bs = {} \<and> used_bytes bs' = block_bytes p k \<union> used_bytes bs)))"
proof -
  obtain p s' bs' where r: "kmalloc sz s = Some (p, s')" "heap_inv s' bs'" "kept bs s s'"
    "p \<noteq> 0 \<longrightarrow> fresh_block (align8 sz) p bs bs'"
    "p = 0 \<longrightarrow> bs' = bs \<and> (\<forall>(a, k, f) \<in> set bs. f \<longrightarrow> k < align8 sz) \<and>
      \<not> (can_grow (grow_bytes sz div 4096) s \<and> unat (brk (heap s)) + grow_bytes sz \<le> 0xC0400000)"
    using kmalloc_spec [OF assms] by blast
  have "\<exists>k. sz \<le> k \<and> live bs p = None \<and> live bs' = (live bs)(p \<mapsto> k) \<and>
        block_bytes p k \<inter> used_bytes bs = {} \<and> used_bytes bs' = block_bytes p k \<union> used_bytes bs" if "p \<noteq> 0"
    using r(4) that align8_bounds(3) [OF assms(3)] unfolding fresh_block_def block_bytes_def by (meson order_trans)
  moreover from this have "8 dvd unat p" if "p \<noteq> 0"
    using that live_aligned [OF r(2), of p] by auto
  moreover have "kmalloc 0 s = Some (0, s)"
    using assms(1) by (simp add: kmalloc_def heap_inv_def)
  ultimately show ?thesis using r by (intro conjI exI [of _ p] exI [of _ s'] exI [of _ bs']) simp_all
qed

theorem kmalloc_correct_witness:
  "\<exists>s' bs'. kmalloc 100 (demo_heap ()) = Some (0xC0000010, s') \<and> heap_inv s' bs' \<and>
     live bs' 0xC0000010 \<noteq> None"
proof -
  obtain m where m: "kmalloc 100 (demo_heap ()) = Some (0xC0000010, demo_heap ()\<lparr>mem := m\<rparr>)"
    by (rule demo_kmalloc)
  from kmalloc_correct [OF demo_heap(1) [of "()"], of 100] m show ?thesis by auto
qed

text \<open>
  C12: \<open>kfree\<close> of a pointer in use. It succeeds, exactly that pointer stops being in use, the heap
  stays sound with no two adjacent free blocks, and the contents of all other blocks in use stay
  as they were.
\<close>

theorem kfree_correct:
  assumes "heap_inv s bs" and "live bs p = Some n"
  shows "\<exists>s' bs'. kfree p s = Some (True, s') \<and> heap_inv s' bs' \<and> coalesced bs' \<and>
    live bs' = (live bs)(p := None) \<and> used_bytes bs' = used_bytes bs - block_bytes p n \<and>
    kept bs' s s' \<and> heap_size s' = heap_size s"
proof -
  let ?bs = "merge (free_at (p - HDR) bs)"
  obtain s' where "kfree p s = Some (True, s')" "heap_inv s' ?bs" "kept ?bs s s'" "live ?bs = (live bs)(p := None)"
    "used_bytes ?bs = used_bytes bs - block_bytes p n" "brk (heap s') = brk (heap s)"
    using kfree_spec [OF assms] unfolding block_bytes_def by blast
  then show ?thesis
    by (intro exI [of _ s'] exI [of _ ?bs]) (simp add: coalesced_merge heap_size_def)
qed

theorem kfree_correct_witness:
  "\<exists>s s' bs'. kmalloc 100 (demo_heap ()) = Some (0xC0000010, s) \<and> kfree 0xC0000010 s = Some (True, s') \<and>
     heap_inv s' bs' \<and> live bs' 0xC0000010 = None"
proof -
  obtain m where m: "kmalloc 100 (demo_heap ()) = Some (0xC0000010, demo_heap ()\<lparr>mem := m\<rparr>)"
    "heap_inv (demo_heap ()\<lparr>mem := m\<rparr>) [(0xC0000000, 104, False), (0xC0000078, 0xFF78, True)]"
    by (rule demo_kmalloc)
  have "live [(0xC0000000, 104, False), (0xC0000078, 0xFF78, True)] 0xC0000010 = Some 104"
    by (simp add: HDR_def)
  from kfree_correct [OF m(2) this] m(1) show ?thesis by force
qed

text \<open>
  C14: freeing twice in a row. After a pointer in use has been freed, freeing it again, with no
  operation of the heap in between, is rejected: the report of a double free is printed on the
  console, in whatever state that is by then, and nothing else changes. This holds even if the first
  \<^verbatim>\<open>kfree\<close> has merged the block into its neighbour.
\<close>

theorem kfree_double_free:
  assumes "heap_inv s bs" and "live bs p = Some n" and "kfree p s = Some (ok, s1)"
  shows "ok \<and> (\<forall>c. kfree p (s1\<lparr>con := c\<rparr>) =
    Some (False, s1\<lparr>con := print ''\<newline>'' (print_hex p (print ''kfree: double free at '' c))\<rparr>))"
proof -
  obtain s' where s': "kfree p s = Some (True, s')" "blk_magic (mem s') (p - HDR) = BLOCK_MAGIC"
      "blk_free (mem s') (p - HDR) \<noteq> 0" "brk (heap s') = brk (heap s)"
    using kfree_spec [OF assms(1,2)] by blast
  then have eq: "s1 = s'" "ok" using assms(3) by simp_all
  have h: "tiled 0xC0000000 bs (unat (brk (heap s)))" "unat (brk (heap s)) < 2 ^ 32" "0 < unat n"
    using assms(1,2) by (auto simp: heap_inv_def ran_def unat_gt_0)
  have "p \<noteq> 0" "\<not> p < HEAP_START + HDR" "\<not> brk (heap s) \<le> p"
    using heap_addr [of p "brk (heap s)"] live_payload(2,3) [OF h(1,2) assms(2)] h(3) by simp_all
  with s' eq show ?thesis
    by (simp add: kfree_def Let_def kprint_def kprint_hex_def del: print.simps)
qed

theorem kfree_double_free_witness:
  "\<exists>s s1. kmalloc 100 (demo_heap ()) = Some (0xC0000010, s) \<and> kfree 0xC0000010 s = Some (True, s1) \<and>
     kfree 0xC0000010 s1 =
       Some (False, s1\<lparr>con := print ''\<newline>'' (print_hex 0xC0000010 (print ''kfree: double free at '' (con s1)))\<rparr>)"
proof -
  obtain m where m: "kmalloc 100 (demo_heap ()) = Some (0xC0000010, demo_heap ()\<lparr>mem := m\<rparr>)"
    "heap_inv (demo_heap ()\<lparr>mem := m\<rparr>) [(0xC0000000, 104, False), (0xC0000078, 0xFF78, True)]"
    by (rule demo_kmalloc)
  have l: "live [(0xC0000000, 104, False), (0xC0000078, 0xFF78, True)] 0xC0000010 = Some 104"
    by (simp add: HDR_def)
  obtain s1 where f: "kfree 0xC0000010 (demo_heap ()\<lparr>mem := m\<rparr>) = Some (True, s1)"
    using kfree_spec [OF m(2) l] by blast
  have "kfree 0xC0000010 (s1\<lparr>con := con s1\<rparr>) =
      Some (False, s1\<lparr>con := print ''\<newline>'' (print_hex 0xC0000010 (print ''kfree: double free at '' (con s1)))\<rparr>)"
    using kfree_double_free [OF m(2) l f] by blast
  then have "kfree 0xC0000010 s1 =
      Some (False, s1\<lparr>con := print ''\<newline>'' (print_hex 0xC0000010 (print ''kfree: double free at '' (con s1)))\<rparr>)"
    by (simp del: print.simps)
  with m(1) f show ?thesis by blast
qed

text \<open>
  C13: data in the heap survives. While someone holds the pointer \<open>q\<close>, no sequence of allocations
  (of 1 to 0x3EFFFFF8 bytes each), frees of other pointers and writes through other pointers changes a byte of the block or takes
  the block away.
\<close>

theorem live_data_survives:
  assumes "heap_rep s L" and "L q = Some n" and "(heap_step q)\<^sup>*\<^sup>* s s'"
  shows "\<exists>L'. heap_rep s' L' \<and> L' q = Some n \<and> (\<forall>x. unat x \<in> block_bytes q n \<longrightarrow> mem s' x = mem s x)"
  by (rule heap_steps_keep [OF assms(3,1,2)])

theorem live_data_survives_witness:
  "\<exists>s p s'. kmalloc 100 (demo_heap ()) = Some (0xC0000010, s) \<and> kmalloc 50 s = Some (p, s') \<and>
     mem s' 0xC0000020 = mem s 0xC0000020"
proof -
  obtain m where m: "kmalloc 100 (demo_heap ()) = Some (0xC0000010, demo_heap ()\<lparr>mem := m\<rparr>)"
    "heap_inv (demo_heap ()\<lparr>mem := m\<rparr>) [(0xC0000000, 104, False), (0xC0000078, 0xFF78, True)]"
    by (rule demo_kmalloc)
  let ?s = "demo_heap ()\<lparr>mem := m\<rparr>" and ?L = "live [(0xC0000000, 104, False), (0xC0000078, 0xFF78, True)]"
  have rep: "heap_rep ?s ?L" using m(2) by (auto simp: heap_rep_def)
  have l: "?L 0xC0000010 = Some 104" by (simp add: HDR_def)
  obtain p s' where k: "kmalloc 50 ?s = Some (p, s')" using kmalloc_spec [OF m(2), of 50] by auto
  then have "heap_step 0xC0000010 ?s s'" by (intro Malloc [of 50]) simp_all
  then have "(heap_step 0xC0000010)\<^sup>*\<^sup>* ?s s'" by (rule r_into_rtranclp)
  from live_data_survives [OF rep l this] have "mem s' 0xC0000020 = mem ?s 0xC0000020"
    by (auto simp: block_bytes_def)
  with m(1) k show ?thesis by blast
qed

text \<open>
  \<open>heap_init\<close>. On a machine with paging on and enough free frames (sixteen pages and one page
  table) it creates a sound heap of 64 KB that is one free block, prints nothing, and leaves the
  memory map and everything above the heap alone.
\<close>

theorem heap_init_correct:
  assumes "paging_inv s" and "0 \<notin> free_frames (pmm s)" and "can_grow 16 s"
  shows "heap_inv (heap_init s) [(HEAP_START, 0xFFF0, True)] \<and> heap_size (heap_init s) = HEAP_INITIAL \<and>
    con (heap_init s) = con s \<and> heap_layer.more (heap_init s) = heap_layer.more s"
  using heap_init_spec [OF assms] by (simp add: heap_size_def heap_consts)

theorem heap_init_correct_witness:
  "heap_inv (demo_heap ()) [(HEAP_START, 0xFFF0, True)] \<and> heap_size (demo_heap ()) = 0x10000"
  using heap_init_correct [OF demo_on(1) demo_on(5)
      demo_can_grow [of 16 "\<lparr>heap = \<lparr>head = 0, brk = 0, heap_ready = False\<rparr>\<rparr>"]]
  by (simp add: demo_heap_def HEAP_INITIAL_def)

text \<open>
  C15: the memory of an allocated block is real and private. Every byte of a block that \<open>kmalloc\<close>
  returns for a request of at most 0x3EFFFFF8 bytes is mapped by the page tables, to a frame that the frame allocator has handed out and
  that holds no page table; and two bytes of the heap on different pages never share a frame.
\<close>

theorem kmalloc_memory_mapped:
  assumes "heap_inv s bs" and "sz \<noteq> 0" and "unat sz \<le> 0x3EFFFFF8"
    and "kmalloc sz s = Some (p, s')" and "p \<noteq> 0" and "unat x \<in> block_bytes p sz"
  shows "\<exists>f. page_of s' x = Some f \<and> paging_translate x s' = f OR (x AND 0xFFF) \<and>
      frame_no f \<notin> free_frames (pmm s') \<and> frame_no f \<notin> table_frames s' \<and>
      (\<forall>y. HEAP_START \<le> y \<and> y < brk (heap s') \<and> page_of s' y = Some f \<longrightarrow> vpage y = vpage x)"
proof -
  obtain bs' k where r: "heap_inv s' bs'" "align8 sz \<le> k" "live bs' p = Some k"
    using kmalloc_spec [OF assms(1-3)] assms(4,5) by (auto simp: fresh_block_def)
  note t = heap_inv_bounds [OF r(1)]
  have "sz \<le> k" using align8_bounds(3) [OF assms(3)] r(2) by (rule order_trans)
  then have x: "0xC0000000 \<le> unat x" "unat x < unat (brk (heap s'))"
    using live_payload(2,3) [OF conjunct1 [OF t] conjunct2 [OF t] r(3)] assms(6)
    by (auto simp: block_bytes_def word_le_nat_alt)
  have b: "backed s' 0xC0000000 (unat (brk (heap s')))" and inv: "paging_inv s'"
    using r(1) by (simp_all add: heap_inv_def)
  obtain f where f: "page_of s' x = Some f" "frame_no f \<notin> free_frames (pmm s')" "frame_no f \<notin> table_frames s'"
    using b x unfolding backed_def by blast
  have "vpage y = vpage x" if "HEAP_START \<le> y" "y < brk (heap s')" "page_of s' y = Some f" for y
  proof -
    have "0xC0000000 \<le> unat y" "unat y < unat (brk (heap s'))"
      using that by (simp_all add: word_le_nat_alt word_less_nat_alt HEAP_START_def)
    with b x f(1) that(3) show ?thesis unfolding backed_def by force
  qed
  with f show ?thesis by (auto simp: pm.translate_target [OF inv])
qed

theorem kmalloc_memory_mapped_witness:
  "\<exists>s' f. kmalloc 100 (demo_heap ()) = Some (0xC0000010, s') \<and> page_of s' 0xC0000011 = Some f \<and>
     paging_translate 0xC0000011 s' = f OR 0x11"
proof -
  obtain m where m: "kmalloc 100 (demo_heap ()) = Some (0xC0000010, demo_heap ()\<lparr>mem := m\<rparr>)"
    by (rule demo_kmalloc)
  from kmalloc_memory_mapped [OF demo_heap(1) _ _ m, of "0xC0000011"] m show ?thesis
    by (auto simp: block_bytes_def)
qed

text \<open>
  C16: the statistics are exact. On a sound heap the loops return; \<open>heap_used\<close> is the sum of all
  headers and of the payloads in use, \<open>heap_free\<close> the sum of the free payloads, together the
  mapped size, and the two counters count the blocks and the free blocks.
\<close>

theorem heap_stats_correct:
  assumes "heap_inv s bs"
  shows "map_option unat (heap_used s) = Some (stat_used bs) \<and> map_option unat (heap_free s) = Some (stat_free bs) \<and>
    stat_used bs + stat_free bs = unat (heap_size s) \<and>
    heap_blocks s = Some (of_nat (length bs)) \<and>
    heap_free_blocks s = Some (of_nat (length (filter (\<lambda>(a, n, f). f) bs)))"
proof -
  have h: "chain (mem s) (head (heap s)) bs" "tiled 0xC0000000 bs (unat (brk (heap s)))"
    "0xC0000000 < unat (brk (heap s))"
    using assms by (simp_all add: heap_inv_def)
  note nn = heap_inv_nonnull [OF assms]
  have sum: "unat (brk (heap s)) = 0xC0000000 + stat_used bs + stat_free bs" by (rule tiled_stats [OF h(2)])
  have size: "unat (heap_size s) = stat_used bs + stat_free bs"
    using h(3) sum by (simp add: heap_size_def HEAP_START_def unat_sub word_le_nat_alt)
  have le: "stat_used bs < 2 ^ 32" using sum unat_u32_less [of "brk (heap s)"] by simp
  have used: "heap_used s = Some (of_nat (stat_used bs))"
    using heap_used_loop_chain [OF h(1) nn, of 0] by (simp add: heap_used_def)
  have u: "unat (of_nat (stat_used bs) :: u32) = stat_used bs" using le by (rule unat_of_nat_small)
  have "unat (heap_size s - of_nat (stat_used bs)) = stat_free bs"
    using size u by (simp add: unat_sub word_le_nat_alt)
  with used u size show ?thesis
    using heap_blocks_loop_chain [OF h(1) nn, of 0] heap_free_blocks_loop_chain [OF h(1) nn, of 0]
    by (simp add: heap_free_def heap_blocks_def heap_free_blocks_def)
qed

theorem heap_stats_correct_witness:
  "heap_blocks (demo_heap ()) = Some 1 \<and> map_option unat (heap_free (demo_heap ())) = Some 0xFFF0 \<and>
   map_option unat (heap_used (demo_heap ())) = Some 16"
  using heap_stats_correct [OF demo_heap(1) [of "()"]] by (simp add: stat_used_def stat_free_def)

text \<open>
  C17: one request takes the memory of the machine away. On a sound heap, with all free frames below
  \<open>identity_end\<close>, \<^verbatim>\<open>kmalloc(0x40000000)\<close> passes the limit check although \<open>HEAP_MAX\<close> is 4 MB, because
  \<^verbatim>\<open>brk + bytes\<close> wraps around. It returns NULL and the heap stays as small as it was, but at most one
  frame is left free, and every other frame that was free now holds a page table or is mapped at one of
  the 0x40001 pages from the end of the heap on, which the heap does not use.
\<close>

theorem kmalloc_huge_exhausts_frames:
  assumes "heap_inv s bs" and "\<forall>f \<in> free_frames (pmm s). f * 4096 < unat (identity_end (paging s))"
  shows "\<exists>s'. kmalloc 0x40000000 s = Some (0, s') \<and> heap_size s' = heap_size s \<and> card (free_frames (pmm s')) \<le> 1 \<and>
    (\<forall>f \<in> free_frames (pmm s) - free_frames (pmm s'). f \<in> table_frames s' \<or>
       (\<exists>i e. i < 0x40001 \<and> page_of s' (brk (heap s) + of_nat i * 0x1000) = Some e \<and> frame_no e = f))"
proof -
  let ?b = "brk (heap s)"
  have h: "tiled 0xC0000000 bs (unat ?b)" "unat ?b \<le> 0xC0400000" "0xC0000000 < unat ?b" "unat ?b \<le> 2 ^ 32"
    "chain (mem s) (head (heap s)) bs" "paging_inv s" "0 \<notin> free_frames (pmm s)" "heap_ready (heap s)"
    using assms(1) by (simp_all add: heap_inv_def)
  have "k < 0x40000000" if "(a, k, f) \<in> set bs" for a k f
    using tiled_member [OF h(1) that] h(2) by (simp add: word_less_nat_alt)
  then have "\<forall>(a, k, f) \<in> set bs. f \<longrightarrow> k < 0x40000000" by auto
  then have nofit: "fst (first_fit 0x40000000 bs) = None" unfolding first_fit_None .
  obtain m' where scan: "kmalloc_scan 0x40000000 (head (heap s)) (mem s) = Some (None, m')"
    using kmalloc_scan_refines [OF h(1,4) _ h(5), of "0x40000000"] nofit by auto
  have pr: "page_round 0x40000010 = 0x40001000"
    using unat_page_round [of "0x40000010"] by (simp add: word_unat_eq_iff)
  have "unat (?b + 0x40001000) = unat ?b + 0x40001000 - 2 ^ 32"
    using h(2,3) by (simp add: unat_word_ariths le_mod_geq)
  then have pass: "\<not> ?b + 0x40001000 > HEAP_START + HEAP_MAX"
    using h(2) by (simp add: word_less_nat_alt heap_consts)
  let ?offs = "map (\<lambda>i. of_nat i * PAGE_SIZE) [0..<0x40001]"
  have "f < 4096" if "f \<in> free_frames (pmm s)" for f
    using assms(2) that h(6) by (fastforce simp: paging_inv_def)
  then have "free_frames (pmm s) \<subseteq> {..<4096}" by auto
  from card_mono [OF _ this] have card: "card (free_frames (pmm s)) < length ?offs" by simp
  have "distinct (map (\<lambda>off. vpage (?b + off)) ?offs)"
    using page_offsets_distinct [of ?b "0x40001"] assms(1) by (simp add: heap_inv_def comp_def del: upt_rec_numeral)
  from grow_pages_exhaust [OF h(6,7) assms(2) card this] obtain s' where
    g: "grow_pages ?offs s = (False, s')" "heap s' = heap s" "card (free_frames (pmm s')) \<le> 1"
      "free_frames (pmm s) \<subseteq> free_frames (pmm s') \<union> table_frames s' \<union> behind_heap s' ?offs"
    by blast
  have mapped: "f \<in> table_frames s' \<or>
      (\<exists>i e. i < 0x40001 \<and> page_of s' (?b + of_nat i * 0x1000) = Some e \<and> frame_no e = f)"
    if f: "f \<in> free_frames (pmm s) - free_frames (pmm s')" for f
  proof (cases "f \<in> table_frames s'")
    case False
    then have "f \<in> behind_heap s' ?offs" using f g(4) by blast
    then obtain e off where e: "f = frame_no e" "off \<in> set ?offs" "page_of s' (?b + off) = Some e"
      unfolding behind_heap_def g(2) by blast
    from e(2) obtain i where "i \<in> {0..<0x40001}" "off = of_nat i * PAGE_SIZE"
      unfolding set_map set_upt by blast
    with e show ?thesis by (auto simp: PAGE_SIZE_def)
  qed blast
  have pages: "unat (0x40001000 div PAGE_SIZE) = 0x40001" by (simp add: PAGE_SIZE_def unat_div)
  have "grow_mapping 0x40000010 s = (False, s')"
    unfolding grow_mapping_def Let_def pr pages using pass g(1) by simp
  then have "extend_heap 0x40000000 s = Some (False, s')"
    by (simp add: extend_heap_def HDR_def PAGE_SIZE_def)
  then have "kmalloc_attempts 2 0x40000000 s = Some (0, s')"
    using scan by (simp add: numeral_2_eq_2)
  then have "kmalloc 0x40000000 s = Some (0, s')"
    using h(8) by (simp add: kmalloc_def align8_def)
  then show ?thesis using g(2,3) mapped by (intro exI [of _ s']) (simp add: heap_size_def)
qed

theorem kmalloc_huge_exhausts_frames_witness:
  "\<exists>s'. kmalloc 0x40000000 (demo_heap ()) = Some (0, s') \<and> heap_size s' = 0x10000 \<and>
     card (free_frames (pmm s')) \<le> 1"
proof -
  have "free_frames (pmm (demo_heap ())) \<subseteq> {..<4096}"
    using free_frames_less [of _ "pmm (demo_heap ())"] demo_heap(6) [of "()"] by auto
  moreover have "heap_size (demo_heap ()) = 0x10000"
    using demo_heap(2) [of "()"] by (simp add: heap_size_def HEAP_START_def)
  ultimately show ?thesis
    using kmalloc_huge_exhausts_frames [OF demo_heap(1) [of "()"]] demo_heap(7) [of "()"] by force
qed

end
