(* ===== verification/Task.thy ===== *)
theory Task
  imports Heap_Props
begin

text \<open>
  The scheduler (\<^verbatim>\<open>task.c\<close>, \<^verbatim>\<open>task.h\<close>) and the context switch (\<^verbatim>\<open>switch.asm\<close>).

  The task table is the list \<open>tasks\<close> of its eight slots. A task's stack is a block of the kernel
  heap and its saved registers lie on that stack, so \<open>task_create\<close> and \<open>context_switch\<close> read and
  write them in the byte memory. The processor's registers are the record \<open>cpu\<close>; \<open>context_switch\<close>
  is modelled from its first instruction, with the return address already on the stack and its
  two arguments passed as parameters (the register copies it makes of them are overwritten by the
  final \<^verbatim>\<open>popa\<close>). The addresses of the functions \<^verbatim>\<open>task_exit\<close> and \<^verbatim>\<open>counter_task\<close>, which the
  linker chooses, are parameters. Operations that reach \<open>kmalloc\<close> or \<open>kfree\<close> are options, as those
  are: \<open>None\<close> stands for a heap loop that does not end.
\<close>

definition MAX_TASKS :: nat where "MAX_TASKS = 8"
definition TASK_STACK_SIZE :: u32 where "TASK_STACK_SIZE = 8192"
definition TASK_QUANTUM :: u32 where "TASK_QUANTUM = 5"

lemmas task_consts = MAX_TASKS_def TASK_STACK_SIZE_def TASK_QUANTUM_def

datatype task_state = TASK_UNUSED | TASK_READY | TASK_RUNNING | TASK_DEAD

text \<open>\<^verbatim>\<open>name\<close> is the whole array of 16 characters.\<close>

record task =
  esp :: u32
  stack_base :: u32
  task_id :: u32
  name :: string
  tstate :: task_state
  slices :: u32
  counter :: u32

record sched_state =
  tasks :: "task list"
  current :: nat
  enabled :: u32
  switches :: u32
  quantum_left :: u32

record cpu =
  eax :: u32
  ecx :: u32
  edx :: u32
  ebx :: u32
  cpu_esp :: u32
  ebp :: u32
  esi :: u32
  edi :: u32
  eflags :: u32
  eip :: u32

record task_layer = heap_layer +
  sched :: sched_state
  cpu :: cpu

text \<open>The statics of \<^verbatim>\<open>task.c\<close> before \<open>scheduler_init\<close>.\<close>

definition zero_task :: task where
  "zero_task = \<lparr>esp = 0, stack_base = 0, task_id = 0, name = replicate 16 NUL, tstate = TASK_UNUSED,
     slices = 0, counter = 0\<rparr>"

definition sched_boot :: sched_state where
  "sched_boot = \<lparr>tasks = replicate MAX_TASKS zero_task, current = 0, enabled = 0, switches = 0,
     quantum_left = TASK_QUANTUM\<rparr>"

text \<open>Assignments to the fields of \<^verbatim>\<open>tasks[i]\<close>, and reads of its state.\<close>

definition upd_task :: "nat \<Rightarrow> (task \<Rightarrow> task) \<Rightarrow> sched_state \<Rightarrow> sched_state" where
  "upd_task i f sc = sc\<lparr>tasks := (tasks sc)[i := f (tasks sc ! i)]\<rparr>"

definition on_sched :: "(sched_state \<Rightarrow> sched_state) \<Rightarrow> 'a task_layer_scheme \<Rightarrow> 'a task_layer_scheme" where
  "on_sched f s = s\<lparr>sched := f (sched s)\<rparr>"

definition state_of :: "sched_state \<Rightarrow> nat \<Rightarrow> task_state" where
  "state_of sc i = tstate (tasks sc ! i)"

section \<open>Initialisation\<close>

function set_name_loop :: "nat \<Rightarrow> string \<Rightarrow> string \<Rightarrow> string" where
  "set_name_loop i src dest =
     (if chr0 src \<noteq> NUL \<and> i < 15 then set_name_loop (Suc i) (tl src) (dest[i := chr0 src])
      else dest[i := NUL])"
  by pat_completeness auto
termination
  by (relation "measure (\<lambda>(i, src, dest). 15 - i)") auto

declare set_name_loop.simps [simp del]

definition set_name :: "string \<Rightarrow> string \<Rightarrow> string" where
  "set_name dest src = set_name_loop 0 src dest"

definition scheduler_init :: "'a task_layer_scheme \<Rightarrow> 'a task_layer_scheme" where
  "scheduler_init s =
     on_sched (\<lambda>sc.
       let sc = foldl (\<lambda>sc i. upd_task i (\<lambda>t. t\<lparr>tstate := TASK_UNUSED\<rparr>) sc) sc [0..<MAX_TASKS];
           sc = upd_task 0 (\<lambda>t. t\<lparr>task_id := 0, tstate := TASK_RUNNING, stack_base := 0, esp := 0,
                  slices := 1, counter := 0, name := set_name (name t) ''kernel''\<rparr>) sc
       in sc\<lparr>current := 0, enabled := 1\<rparr>) s"

section \<open>Creating a task\<close>

text \<open>\<^verbatim>\<open>*--sp = w\<close>, on the pair of stack pointer and memory.\<close>

fun push :: "u32 \<Rightarrow> u32 \<times> mem \<Rightarrow> u32 \<times> mem" where
  "push w (sp, m) = (sp - 4, st32 m (sp - 4) w)"

definition craft_stack :: "u32 \<Rightarrow> u32 \<Rightarrow> u32 \<Rightarrow> mem \<Rightarrow> u32 \<times> mem" where
  "craft_stack exit_addr entry stack m =
     (let sp = (stack + TASK_STACK_SIZE, m);
          sp = push exit_addr sp;
          sp = push entry sp;
          sp = foldl (\<lambda>sp i. push 0 sp) sp [0..<8]
      in push 0x202 sp)"

definition free_slot :: "sched_state \<Rightarrow> nat option" where
  "free_slot sc = find (\<lambda>i. state_of sc i = TASK_UNUSED) [1..<MAX_TASKS]"

definition task_create ::
  "u32 \<Rightarrow> string \<Rightarrow> u32 \<Rightarrow> 'a task_layer_scheme \<Rightarrow> (int \<times> 'a task_layer_scheme) option" where
  "task_create exit_addr nm entry s =
     (case free_slot (sched s) of
        None \<Rightarrow> Some (- 1, s)
      | Some sl \<Rightarrow> do {
          (stack, s) \<leftarrow> kmalloc TASK_STACK_SIZE s;
          if stack = 0 then Some (- 1, s)
          else let (sp, m) = craft_stack exit_addr entry stack (mem s);
                   s = s\<lparr>mem := m\<rparr>;
                   s = on_sched (upd_task sl (\<lambda>t. t\<lparr>esp := sp, stack_base := stack,
                         task_id := of_nat sl, tstate := TASK_READY, slices := 0, counter := 0,
                         name := set_name (name t) nm\<rparr>)) s
               in Some (int sl, s)
        })"

definition task_spawn_counter ::
  "u32 \<Rightarrow> u32 \<Rightarrow> string \<Rightarrow> 'a task_layer_scheme \<Rightarrow> (int \<times> 'a task_layer_scheme) option" where
  "task_spawn_counter exit_addr counter_addr nm s = task_create exit_addr nm counter_addr s"

section \<open>The context switch\<close>

text \<open>\<^verbatim>\<open>pusha\<close> and \<^verbatim>\<open>pushfd\<close>; then \<^verbatim>\<open>popfd\<close>, \<^verbatim>\<open>popa\<close> (which skips the stack pointer) and \<^verbatim>\<open>ret\<close>.\<close>

definition save_context :: "cpu \<Rightarrow> mem \<Rightarrow> u32 \<times> mem" where
  "save_context c m =
     fold push [eax c, ecx c, edx c, ebx c, cpu_esp c, ebp c, esi c, edi c, eflags c] (cpu_esp c, m)"

definition restore_context :: "mem \<Rightarrow> u32 \<Rightarrow> cpu" where
  "restore_context m sp =
     \<lparr>eax = ld32 m (sp + 32), ecx = ld32 m (sp + 28), edx = ld32 m (sp + 24), ebx = ld32 m (sp + 20),
      cpu_esp = sp + 40, ebp = ld32 m (sp + 12), esi = ld32 m (sp + 8), edi = ld32 m (sp + 4),
      eflags = ld32 m sp, eip = ld32 m (sp + 36)\<rparr>"

definition context_switch :: "nat \<Rightarrow> u32 \<Rightarrow> 'a task_layer_scheme \<Rightarrow> 'a task_layer_scheme" where
  "context_switch save new_esp s =
     (let (sp, m) = save_context (cpu s) (mem s);
          s = on_sched (upd_task save (\<lambda>t. t\<lparr>esp := sp\<rparr>)) (s\<lparr>mem := m\<rparr>)
      in s\<lparr>cpu := restore_context m new_esp\<rparr>)"

section \<open>Scheduling\<close>

fun reap_loop :: "nat list \<Rightarrow> 'a task_layer_scheme \<Rightarrow> 'a task_layer_scheme option" where
  "reap_loop [] s = Some s"
| "reap_loop (i # is) s =
     (if state_of (sched s) i = TASK_DEAD \<and> i \<noteq> current (sched s)
      then do {
        s \<leftarrow> (if stack_base (tasks (sched s) ! i) \<noteq> 0
             then map_option snd (kfree (stack_base (tasks (sched s) ! i)) s) else Some s);
        reap_loop is (on_sched (upd_task i (\<lambda>t. t\<lparr>stack_base := 0, tstate := TASK_UNUSED\<rparr>)) s)
      }
      else reap_loop is s)"

definition reap :: "'a task_layer_scheme \<Rightarrow> 'a task_layer_scheme option" where
  "reap s = reap_loop [1..<MAX_TASKS] s"

definition runnable :: "sched_state \<Rightarrow> nat \<Rightarrow> bool" where
  "runnable sc i \<longleftrightarrow> state_of sc i = TASK_READY \<or> state_of sc i = TASK_RUNNING"

definition pick_next :: "sched_state \<Rightarrow> nat option" where
  "pick_next sc = find (runnable sc) (map (\<lambda>step. (current sc + step) mod MAX_TASKS) [1..<Suc MAX_TASKS])"

definition switch_to :: "nat option \<Rightarrow> 'a task_layer_scheme \<Rightarrow> 'a task_layer_scheme" where
  "switch_to nxt s =
     (case nxt of
        None \<Rightarrow> s
      | Some nxt \<Rightarrow>
          if nxt = current (sched s) then s
          else
            let prev = current (sched s);
                s = (if state_of (sched s) prev = TASK_RUNNING
                     then on_sched (upd_task prev (\<lambda>t. t\<lparr>tstate := TASK_READY\<rparr>)) s else s);
                s = on_sched (\<lambda>sc. sc\<lparr>current := nxt\<rparr>) s;
                s = on_sched (upd_task nxt (\<lambda>t. t\<lparr>tstate := TASK_RUNNING, slices := slices t + 1\<rparr>)) s;
                s = on_sched (\<lambda>sc. sc\<lparr>switches := switches sc + 1, quantum_left := TASK_QUANTUM\<rparr>) s
            in context_switch prev (esp (tasks (sched s) ! nxt)) s)"

definition scheduler_tick :: "'a task_layer_scheme \<Rightarrow> 'a task_layer_scheme option" where
  "scheduler_tick s =
     (if enabled (sched s) = 0 then Some s
      else do {
        s \<leftarrow> reap s;
        if quantum_left (sched s) > 1
        then Some (on_sched (\<lambda>sc. sc\<lparr>quantum_left := quantum_left sc - 1\<rparr>) s)
        else Some (switch_to (pick_next (sched s)) s)
      })"

definition task_yield :: "'a task_layer_scheme \<Rightarrow> 'a task_layer_scheme" where
  "task_yield s = (if enabled (sched s) = 0 then s else switch_to (pick_next (sched s)) s)"

text \<open>
  The state in which the endless \<^verbatim>\<open>hlt\<close> loop of \<^verbatim>\<open>task_exit\<close> waits; bit 9 of the flags is IF.
\<close>

definition task_exit :: "'a task_layer_scheme \<Rightarrow> 'a task_layer_scheme" where
  "task_exit s =
     (let s = on_sched (\<lambda>sc. upd_task (current sc) (\<lambda>t. t\<lparr>tstate := TASK_DEAD\<rparr>) sc) s
      in s\<lparr>cpu := (cpu s)\<lparr>eflags := eflags (cpu s) OR 0x200\<rparr>\<rparr>)"

definition task_kill :: "u32 \<Rightarrow> 'a task_layer_scheme \<Rightarrow> bool \<times> 'a task_layer_scheme" where
  "task_kill tid s =
     (if tid = 0 \<or> unat tid \<ge> MAX_TASKS then (False, s)
      else if state_of (sched s) (unat tid) = TASK_UNUSED then (False, s)
      else (True, on_sched (upd_task (unat tid) (\<lambda>t. t\<lparr>tstate := TASK_DEAD\<rparr>)) s))"

text \<open>One round of the endless loop of \<^verbatim>\<open>counter_task\<close>; \<open>me\<close> is the slot it started in.\<close>

definition counter_task :: "nat \<Rightarrow> 'a task_layer_scheme \<Rightarrow> 'a task_layer_scheme" where
  "counter_task me s = on_sched (upd_task me (\<lambda>t. t\<lparr>counter := counter t + 1\<rparr>)) s"

definition scheduler_enable :: "u32 \<Rightarrow> 'a task_layer_scheme \<Rightarrow> 'a task_layer_scheme" where
  "scheduler_enable on s = on_sched (\<lambda>sc. sc\<lparr>enabled := on\<rparr>) s"

definition scheduler_is_enabled :: "'a task_layer_scheme \<Rightarrow> u32" where
  "scheduler_is_enabled s = enabled (sched s)"

definition task_get :: "int \<Rightarrow> 'a task_layer_scheme \<Rightarrow> task option" where
  "task_get index s =
     (if index \<ge> 0 \<and> index < int MAX_TASKS then Some (tasks (sched s) ! nat index) else None)"

definition task_current_id :: "'a task_layer_scheme \<Rightarrow> u32" where
  "task_current_id s = task_id (tasks (sched s) ! current (sched s))"

definition task_switches :: "'a task_layer_scheme \<Rightarrow> u32" where
  "task_switches s = switches (sched s)"

definition task_count :: "'a task_layer_scheme \<Rightarrow> nat" where
  "task_count s =
     foldl (\<lambda>n i. if state_of (sched s) i \<noteq> TASK_UNUSED then n + 1 else n) 0 [0..<MAX_TASKS]"

end
