(* ===== verification/Task_Stack.thy ===== *)
theory Task_Stack
  imports Task
begin

text \<open>
  Stacks. What a series of pushes leaves in memory; the image that \<open>context_switch\<close> saves is the one
  it restores; the stack that \<open>task_create\<close> crafts is a saved context that enters the task. The last
  section shows which writes leave the page tables and the heap sound, so that a task's use of its own
  stack disturbs neither.
\<close>

section \<open>Pushes\<close>

lemma push_list:
  assumes "fold push ws (sp, m) = (sp', m')" "4 * length ws \<le> unat sp"
  shows "unat sp' = unat sp - 4 * length ws \<and>
    (\<forall>x. unat x < unat sp' \<or> unat sp \<le> unat x \<longrightarrow> m' x = m x) \<and>
    (\<forall>k < length ws. ld32 m' (sp' + of_nat (4 * k)) = rev ws ! k)"
  using assms(1,2)
proof (induction ws arbitrary: sp' m' rule: rev_induct)
  case (snoc w ws)
  obtain sp1 m1 where f: "fold push ws (sp, m) = (sp1, m1)" by fastforce
  note IH = snoc.IH [OF f]
  have len: "4 * length ws + 4 \<le> unat sp" using snoc.prems(2) by simp
  then have u1: "unat sp1 = unat sp - 4 * length ws" using IH by simp
  have eq: "sp' = sp1 - 4" "m' = st32 m1 sp' w" using snoc.prems(1) f by auto
  have u: "unat sp' = unat sp1 - 4" using u1 len by (simp add: eq(1) unat_sub word_le_nat_alt)
  have top: "unat sp1 \<le> unat sp" "unat sp < 2 ^ 32" using u1 unat_u32_less by simp_all
  have b3: "unat sp' + 3 < 2 ^ 32" using u u1 len top by linarith
  have "m' x = m x" if "unat x < unat sp' \<or> unat sp \<le> unat x" for x
  proof -
    have "m' x = m1 x" unfolding eq(2) using that b3 u u1 top len by (intro st32_outside) auto
    then show ?thesis using that u u1 len IH by auto
  qed
  moreover have "ld32 m' (sp' + of_nat (4 * k)) = rev (ws @ [w]) ! k" if "k < length (ws @ [w])" for k
  proof (cases k)
    case 0
    then show ?thesis by (simp add: eq(2))
  next
    case (Suc j)
    then have j: "j < length ws" using that by simp
    have a: "sp' + of_nat (4 * k) = sp1 + of_nat (4 * j)" using Suc by (simp add: eq(1))
    have "unat sp1 + 4 * j + 4 \<le> unat sp" using j u1 len by linarith
    then have ua: "unat (sp1 + of_nat (4 * j)) = unat sp1 + 4 * j" "unat (sp1 + of_nat (4 * j)) + 3 < 2 ^ 32"
      using unat_add_small [of sp1 "4 * j"] top by auto
    have "ld32 m' (sp1 + of_nat (4 * j)) = ld32 m1 (sp1 + of_nat (4 * j))"
      unfolding eq(2) by (rule ld32_st32_sep) (use b3 ua u u1 len in auto)
    also have "\<dots> = rev ws ! j" using IH len j by simp
    finally show ?thesis using Suc unfolding a by simp
  qed
  ultimately show ?case using u u1 len by simp
qed simp

lemmas push_spec = push_list [THEN conjunct1] push_list [THEN conjunct2, THEN conjunct1, rule_format]
  push_list [THEN conjunct2, THEN conjunct2, rule_format]

section \<open>Saving and restoring a context\<close>

lemma save_context:
  assumes "save_context c m = (sp, m')" "36 \<le> unat (cpu_esp c)" "unat (cpu_esp c) + 4 \<le> 2 ^ 32"
  shows "unat sp = unat (cpu_esp c) - 36"
    and "\<And>x. unat x < unat sp \<or> unat (cpu_esp c) \<le> unat x \<Longrightarrow> m' x = m x"
    and "restore_context m' sp = c\<lparr>cpu_esp := cpu_esp c + 4, eip := ld32 m (cpu_esp c)\<rparr>"
proof -
  let ?ws = "[eax c, ecx c, edx c, ebx c, cpu_esp c, ebp c, esi c, edi c, eflags c]"
  have "4 * length ?ws \<le> unat (cpu_esp c)" using assms(2) by simp
  note ps = push_spec [OF assms(1) [unfolded save_context_def] this]
  have p: "unat sp = unat (cpu_esp c) - 36" using ps(1) by simp
  have out: "m' x = m x" if "unat x < unat sp \<or> unat (cpu_esp c) \<le> unat x" for x
    using ps(2) that by blast
  have l: "ld32 m' (sp + of_nat (4 * k)) = rev ?ws ! k" if "k < 9" for k
    using that by (intro ps(3)) simp
  show "unat sp = unat (cpu_esp c) - 36" "\<And>x. unat x < unat sp \<or> unat (cpu_esp c) \<le> unat x \<Longrightarrow> m' x = m x"
    by (fact p, fact out)
  have sp: "sp = cpu_esp c - 36"
    using p assms(2) by (simp add: word_unat_eq_iff unat_sub word_le_nat_alt)
  have ret: "ld32 m' (cpu_esp c) = ld32 m (cpu_esp c)"
    using out assms(3) by (intro ld32_cong) auto
  have "ld32 m' sp = eflags c" "ld32 m' (sp + 4) = edi c" "ld32 m' (sp + 8) = esi c" "ld32 m' (sp + 12) = ebp c"
    "ld32 m' (sp + 20) = ebx c" "ld32 m' (sp + 24) = edx c" "ld32 m' (sp + 28) = ecx c" "ld32 m' (sp + 32) = eax c"
    using l [of 0] l [of 1] l [of 2] l [of 3] l [of 5] l [of 6] l [of 7] l [of 8] by simp_all
  then show "restore_context m' sp = c\<lparr>cpu_esp := cpu_esp c + 4, eip := ld32 m (cpu_esp c)\<rparr>"
    using ret by (cases c) (simp add: restore_context_def sp)
qed

text \<open>The bytes a restored context is read from.\<close>

lemma restore_context_cong:
  assumes "unat sp + 40 \<le> 2 ^ 32" "\<And>x. unat sp \<le> unat x \<Longrightarrow> unat x < unat sp + 40 \<Longrightarrow> m' x = m x"
  shows "restore_context m' sp = restore_context m sp"
proof -
  have "ld32 m' (sp + of_nat k) = ld32 m (sp + of_nat k)" if "k \<le> 36" for k
  proof -
    have u: "unat (sp + of_nat k) = unat sp + k" using assms(1) that by (intro unat_add_small) simp
    show ?thesis using assms(1) that by (intro ld32_cong assms(2)) (simp_all add: u)
  qed
  from this [of 0] this [of 4] this [of 8] this [of 12] this [of 20] this [of 24] this [of 28] this [of 32] this [of 36]
  show ?thesis by (simp add: restore_context_def)
qed

section \<open>The crafted stack\<close>

lemma craft_stack_pushes:
  "craft_stack ex en stk m = fold push ([ex, en] @ replicate 8 0 @ [0x202]) (stk + TASK_STACK_SIZE, m)"
proof -
  have "foldl (\<lambda>sp i. push 0 sp) sp [0..<n] = fold push (replicate n 0) sp" for n and sp :: "u32 \<times> mem"
    by (induction n) (simp_all add: replicate_append_same [symmetric])
  then show ?thesis by (simp add: craft_stack_def Let_def del: push.simps replicate.simps)
qed

lemma craft_stack:
  assumes "craft_stack ex en stk m = (sp, m')" "unat stk + 8192 < 2 ^ 32"
  shows "unat sp = unat stk + 8148"
    and "\<And>x. unat x < unat sp \<or> unat stk + 8192 \<le> unat x \<Longrightarrow> m' x = m x"
    and "restore_context m' sp =
      \<lparr>eax = 0, ecx = 0, edx = 0, ebx = 0, cpu_esp = stk + 8188, ebp = 0, esi = 0, edi = 0, eflags = 0x202, eip = en\<rparr>"
    and "ld32 m' (stk + 8188) = ex"
proof -
  let ?ws = "[ex, en] @ replicate 8 0 @ [0x202]"
  have top: "unat (stk + TASK_STACK_SIZE) = unat stk + 8192"
    using assms(2) by (simp add: TASK_STACK_SIZE_def)
  then have "4 * length ?ws \<le> unat (stk + TASK_STACK_SIZE)" by simp
  note ps = push_spec [OF assms(1) [unfolded craft_stack_pushes] this, unfolded top]
  have p: "unat sp = unat stk + 8148" using ps(1) by simp
  have out: "m' x = m x" if "unat x < unat sp \<or> unat stk + 8192 \<le> unat x" for x
    using ps(2) that by blast
  have l: "ld32 m' (sp + of_nat (4 * k)) = rev ?ws ! k" if "k < 11" for k
    using that by (intro ps(3)) simp
  show "unat sp = unat stk + 8148" "\<And>x. unat x < unat sp \<or> unat stk + 8192 \<le> unat x \<Longrightarrow> m' x = m x"
    by (fact p, fact out)
  have sp: "sp = stk + 8148"
    using p assms(2) by (simp add: word_unat_eq_iff)
  have rw: "rev ?ws = [0x202, 0, 0, 0, 0, 0, 0, 0, 0, en, ex]" by (simp add: numeral_eq_Suc)
  have "ld32 m' sp = 0x202" "ld32 m' (sp + 4) = 0" "ld32 m' (sp + 8) = 0" "ld32 m' (sp + 12) = 0"
    "ld32 m' (sp + 20) = 0" "ld32 m' (sp + 24) = 0" "ld32 m' (sp + 28) = 0" "ld32 m' (sp + 32) = 0"
    "ld32 m' (sp + 36) = en" "ld32 m' (sp + 40) = ex"
    using l [of 0] l [of 1] l [of 2] l [of 3] l [of 5] l [of 6] l [of 7] l [of 8] l [of 9] l [of 10] unfolding rw
    by simp_all
  then show "restore_context m' sp =
      \<lparr>eax = 0, ecx = 0, edx = 0, ebx = 0, cpu_esp = stk + 8188, ebp = 0, esi = 0, edi = 0, eflags = 0x202, eip = en\<rparr>"
    and "ld32 m' (stk + 8188) = ex"
    by (simp_all add: restore_context_def sp add.commute [of stk])
qed

section \<open>Writes outside the page tables and the heap's own bytes\<close>

lemma heap_inv_client:
  assumes inv: "heap_inv s bs"
    and m: "\<And>x. frame_no x \<in> table_frames s \<or> 0xC0000000 \<le> unat x \<and> unat x \<notin> used_bytes bs \<Longrightarrow> m x = mem s x"
  shows "heap_inv (s\<lparr>mem := m\<rparr>) bs" "table_frames (s\<lparr>mem := m\<rparr>) = table_frames s"
proof -
  have h: "tiled 0xC0000000 bs (unat (brk (heap s)))" "unat (brk (heap s)) \<le> 2 ^ 32" "paging_inv s"
    using inv by (simp_all add: heap_inv_def)
  have tm: "paging_inv (s\<lparr>mem := m\<rparr>)" "pte (s\<lparr>mem := m\<rparr>) = pte s" "table_frames (s\<lparr>mem := m\<rparr>) = table_frames s"
    using table_frames_mem [OF h(3), of m] m by blast+
  have "chain m (head (heap s)) bs = chain (mem s) (head (heap s)) bs"
    using m by (intro chain_payload [OF h(1,2)]) blast
  then show "heap_inv (s\<lparr>mem := m\<rparr>) bs"
    using inv tm by (simp add: heap_inv_def backed_def page_of_def)
  show "table_frames (s\<lparr>mem := m\<rparr>) = table_frames s" by (rule tm(3))
qed

end
