(* ===== verification/Task_Inv.thy ===== *)
theory Task_Inv
  imports Task_Stack
begin

text \<open>
  What holds in the task table between two kernel operations, and that every operation keeps it.

  \<open>sched_ok\<close> speaks of the table alone: task 0 can always run, the current task is the only one
  marked running, the quantum is between 1 and 5. \<open>stacks_ok\<close> says that the stacks of the existing
  tasks are different live blocks of the heap, \<open>contexts_ok\<close> that the saved context of every ready
  task lies in its own stack. Task 0 runs on the boot stack, whose bytes are the parameter \<open>B\<close>.
\<close>

section \<open>Reading an updated table\<close>

lemma upd_task_simps [simp]:
  "tasks (upd_task i f sc) = (tasks sc)[i := f (tasks sc ! i)]" "current (upd_task i f sc) = current sc"
  "enabled (upd_task i f sc) = enabled sc" "switches (upd_task i f sc) = switches sc"
  "quantum_left (upd_task i f sc) = quantum_left sc"
  by (simp_all add: upd_task_def)

lemma state_of_upd [simp]:
  "state_of (upd_task i f sc) j = (if i = j \<and> j < length (tasks sc) then tstate (f (tasks sc ! i)) else state_of sc j)"
proof (cases "i = j")
  case True
  then show ?thesis by (cases "j < length (tasks sc)") (simp_all add: state_of_def list_update_beyond)
qed (simp add: state_of_def)

lemma state_of_fields [simp]:
  "state_of (sc\<lparr>current := c\<rparr>) = state_of sc" "state_of (sc\<lparr>quantum_left := q\<rparr>) = state_of sc"
  "state_of (sc\<lparr>switches := w\<rparr>) = state_of sc" "state_of (sc\<lparr>enabled := e\<rparr>) = state_of sc"
  by (simp_all add: fun_eq_iff state_of_def)

lemma on_sched_simps [simp]:
  "sched (on_sched f s) = f (sched s)" "mem (on_sched f s) = mem s" "cpu (on_sched f s) = cpu s"
  "con (on_sched f s) = con s" "heap (on_sched f s) = heap s"
  by (simp_all add: on_sched_def)

lemma table_frames_task [simp]:
  "table_frames (s\<lparr>sched := sc\<rparr>) = table_frames s" "table_frames (s\<lparr>cpu := c\<rparr>) = table_frames s"
  by (simp_all add: table_frames_def dirent_def table_set_def)

lemma pool_task [simp]: "pool (s\<lparr>sched := sc\<rparr>) = pool s" "pool (s\<lparr>cpu := c\<rparr>) = pool s" "pool (on_sched f s) = pool s"
  by (simp_all add: pool_def on_sched_def)

lemma heap_inv_task [simp]:
  "heap_inv (s\<lparr>sched := sc\<rparr>) bs = heap_inv s bs" "heap_inv (s\<lparr>cpu := c\<rparr>) bs = heap_inv s bs"
  "heap_inv (on_sched f s) bs = heap_inv s bs"
  by (simp_all add: on_sched_def heap_inv_def paging_inv_def table_ok_def table_set_def dirent_def mapped_set_def
      pte_def table_entry_def backed_def page_of_def table_frames_def)

lemma kept_task:
  assumes "kept bs s s'"
  shows "sched s' = sched s" "cpu s' = cpu s"
proof -
  have "heap_layer.more s' = heap_layer.more s" using assms by (simp add: kept_def)
  then show "sched s' = sched s" "cpu s' = cpu s" by (cases s; cases s'; simp)+
qed

section \<open>The invariant\<close>

definition sched_ok :: "sched_state \<Rightarrow> bool" where
  "sched_ok sc \<longleftrightarrow>
     length (tasks sc) = 8 \<and> current sc < 8 \<and> runnable sc 0 \<and>
     (\<forall>i < 8. i \<noteq> current sc \<longrightarrow> state_of sc i \<noteq> TASK_RUNNING) \<and>
     (state_of sc (current sc) = TASK_RUNNING \<or> state_of sc (current sc) = TASK_DEAD) \<and>
     1 \<le> unat (quantum_left sc) \<and> unat (quantum_left sc) \<le> 5 \<and>
     (\<forall>i < 8. state_of sc i \<noteq> TASK_UNUSED \<longrightarrow> task_id (tasks sc ! i) = of_nat i) \<and>
     (\<forall>i < 8. length (name (tasks sc ! i)) = 16)"

definition stack_bytes :: "nat set \<Rightarrow> sched_state \<Rightarrow> nat \<Rightarrow> nat set" where
  "stack_bytes B sc i = (if i = 0 then B else block_bytes (stack_base (tasks sc ! i)) TASK_STACK_SIZE)"

definition exists_task :: "sched_state \<Rightarrow> nat \<Rightarrow> bool" where
  "exists_task sc i \<longleftrightarrow> i < 8 \<and> state_of sc i \<noteq> TASK_UNUSED"

definition stacks_ok :: "(u32 \<Rightarrow> u32 option) \<Rightarrow> sched_state \<Rightarrow> bool" where
  "stacks_ok L sc \<longleftrightarrow>
     (\<forall>i. 0 < i \<and> exists_task sc i \<longrightarrow> (\<exists>n. L (stack_base (tasks sc ! i)) = Some n \<and> TASK_STACK_SIZE \<le> n)) \<and>
     (\<forall>i j. 0 < i \<and> exists_task sc i \<and> 0 < j \<and> exists_task sc j \<and> i \<noteq> j \<longrightarrow>
        stack_base (tasks sc ! i) \<noteq> stack_base (tasks sc ! j))"

definition contexts_ok :: "nat set \<Rightarrow> sched_state \<Rightarrow> bool" where
  "contexts_ok B sc \<longleftrightarrow>
     (\<forall>i < 8. i \<noteq> current sc \<and> state_of sc i = TASK_READY \<longrightarrow>
        unat (esp (tasks sc ! i)) + 40 \<le> 2 ^ 32 \<and>
        {unat (esp (tasks sc ! i)) ..< unat (esp (tasks sc ! i)) + 40} \<subseteq> stack_bytes B sc i)"

definition boot_stack_ok :: "nat set \<Rightarrow> 'a task_layer_scheme \<Rightarrow> bool" where
  "boot_stack_ok B s \<longleftrightarrow> B \<subseteq> {..<0xC0000000} \<and> (\<forall>x. unat x \<in> B \<longrightarrow> frame_no x \<notin> pool s)"

definition task_inv :: "nat set \<Rightarrow> hblock list \<Rightarrow> 'a task_layer_scheme \<Rightarrow> bool" where
  "task_inv B bs s \<longleftrightarrow>
     heap_inv s bs \<and> sched_ok (sched s) \<and> stacks_ok (live bs) (sched s) \<and> contexts_ok B (sched s) \<and>
     boot_stack_ok B s"

text \<open>There is room on the current stack to save a context, and a return address above it.\<close>

definition room :: "nat set \<Rightarrow> 'a task_layer_scheme \<Rightarrow> bool" where
  "room B s \<longleftrightarrow>
     (let e = unat (cpu_esp (cpu s))
      in 36 \<le> e \<and> e + 4 \<le> 2 ^ 32 \<and> {e - 36 ..< e + 4} \<subseteq> stack_bytes B (sched s) (current (sched s)))"

lemma stacks_okD:
  assumes "stacks_ok L sc" "0 < i" "exists_task sc i"
  obtains n where "L (stack_base (tasks sc ! i)) = Some n" "TASK_STACK_SIZE \<le> n"
  using assms unfolding stacks_ok_def by blast

lemma stack_used:
  assumes "task_inv B bs s" "0 < i" "exists_task (sched s) i"
  shows "stack_bytes B (sched s) i \<subseteq> used_bytes bs"
proof -
  have inv: "heap_inv s bs" "stacks_ok (live bs) (sched s)" using assms(1) by (simp_all add: task_inv_def)
  obtain n where n: "live bs (stack_base (tasks (sched s) ! i)) = Some n" "TASK_STACK_SIZE \<le> n"
    using stacks_okD [OF inv(2) assms(2,3)] .
  have t: "tiled 0xC0000000 bs (unat (brk (heap s)))" "unat (brk (heap s)) < 2 ^ 32"
    using heap_inv_bounds [OF inv(1)] by simp_all
  have "block_bytes (stack_base (tasks (sched s) ! i)) n \<subseteq> used_bytes bs"
    using live_payload(1,4) [OF t n(1)] by (simp add: block_bytes_def)
  moreover have "stack_bytes B (sched s) i \<subseteq> block_bytes (stack_base (tasks (sched s) ! i)) n"
    using n(2) assms(2) by (auto simp: stack_bytes_def block_bytes_def word_le_nat_alt)
  ultimately show ?thesis by blast
qed

lemma used_high: "task_inv B bs s \<Longrightarrow> used_bytes bs \<subseteq> {0xC0000000..}"
  using heap_inv_bounds [of s bs] tiled_used_bytes by (fastforce simp: task_inv_def)

lemma stacks_disjoint:
  assumes inv: "task_inv B bs s" and i: "exists_task (sched s) i" and j: "exists_task (sched s) j" and ne: "i \<noteq> j"
  shows "stack_bytes B (sched s) i \<inter> stack_bytes B (sched s) j = {}"
proof -
  have low: "B \<inter> stack_bytes B (sched s) k = {}" if "0 < k" "exists_task (sched s) k" for k
  proof -
    have "B \<subseteq> {..<0xC0000000}" using inv by (simp add: task_inv_def boot_stack_ok_def)
    moreover have "stack_bytes B (sched s) k \<subseteq> {0xC0000000..}"
      using stack_used [OF inv that] used_high [OF inv] by (rule subset_trans)
    ultimately show ?thesis by fastforce
  qed
  show ?thesis
  proof (cases "i = 0 \<or> j = 0")
    case True
    have "stack_bytes B (sched s) 0 = B" by (simp add: stack_bytes_def)
    with True low [of i] low [of j] i j ne show ?thesis by auto
  next
    case False
    have h: "heap_inv s bs" "stacks_ok (live bs) (sched s)" using inv by (simp_all add: task_inv_def)
    obtain n k where n: "live bs (stack_base (tasks (sched s) ! i)) = Some n" "TASK_STACK_SIZE \<le> n"
      and k: "live bs (stack_base (tasks (sched s) ! j)) = Some k" "TASK_STACK_SIZE \<le> k"
      using stacks_okD [OF h(2)] False i j by (metis neq0_conv)
    have "stack_base (tasks (sched s) ! i) \<noteq> stack_base (tasks (sched s) ! j)"
      using h(2) False i j ne by (simp add: stacks_ok_def)
    moreover have "heap_rep s (live bs)" using h(1) by (auto simp: heap_rep_def)
    ultimately have "block_bytes (stack_base (tasks (sched s) ! i)) n \<inter> block_bytes (stack_base (tasks (sched s) ! j)) k = {}"
      using ha.rep_disjoint n(1) k(1) by blast
    moreover have "stack_bytes B (sched s) i \<subseteq> block_bytes (stack_base (tasks (sched s) ! i)) n"
      "stack_bytes B (sched s) j \<subseteq> block_bytes (stack_base (tasks (sched s) ! j)) k"
      using n(2) k(2) False by (auto simp: stack_bytes_def block_bytes_def word_le_nat_alt)
    ultimately show ?thesis by blast
  qed
qed

text \<open>A write to a task's own stack.\<close>

lemma own_stack_write:
  assumes inv: "task_inv B bs s" and j: "exists_task (sched s) j"
    and m: "\<And>x. unat x \<notin> stack_bytes B (sched s) j \<Longrightarrow> m x = mem s x"
  shows "heap_inv (s\<lparr>mem := m\<rparr>) bs" "pool (s\<lparr>mem := m\<rparr>) = pool s"
    "exists_task (sched s) i \<Longrightarrow> i \<noteq> j \<Longrightarrow> unat x \<in> stack_bytes B (sched s) i \<Longrightarrow> m x = mem s x"
proof -
  have h: "heap_inv s bs" "boot_stack_ok B s" using inv by (simp_all add: task_inv_def)
  have p: "paging_inv s" using h(1) by (simp add: heap_inv_def)
  have eq: "m x = mem s x" if x: "frame_no x \<in> table_frames s \<or> 0xC0000000 \<le> unat x \<and> unat x \<notin> used_bytes bs" for x
  proof (rule m, cases "j = 0")
    case True
    have "unat x \<notin> B" if "frame_no x \<in> table_frames s" using h(2) that by (auto simp: boot_stack_ok_def pool_def)
    moreover have "B \<subseteq> {..<0xC0000000}" using h(2) by (simp add: boot_stack_ok_def)
    ultimately show "unat x \<notin> stack_bytes B (sched s) j" using True x by (fastforce simp: stack_bytes_def)
  next
    case False
    then have "stack_bytes B (sched s) j \<subseteq> used_bytes bs" using stack_used [OF inv _ j] by simp
    moreover have "unat x < 2 ^ 24" if "frame_no x \<in> table_frames s" using table_frames_low [OF p that] .
    ultimately show "unat x \<notin> stack_bytes B (sched s) j" using x used_high [OF inv] by fastforce
  qed
  from heap_inv_client [OF h(1) eq]
  show "heap_inv (s\<lparr>mem := m\<rparr>) bs" "pool (s\<lparr>mem := m\<rparr>) = pool s" by (simp_all add: pool_def)
  show "m x = mem s x" if "exists_task (sched s) i" "i \<noteq> j" "unat x \<in> stack_bytes B (sched s) i"
    using stacks_disjoint [OF inv that(1) j that(2)] that(3) by (intro m) blast
qed

text \<open>
  The stack and the saved context of a ready task are untouched from \<open>s\<close> to \<open>s'\<close>, as long as it
  can still run.
\<close>

definition stacks_kept :: "nat set \<Rightarrow> 'a task_layer_scheme \<Rightarrow> 'a task_layer_scheme \<Rightarrow> bool" where
  "stacks_kept B s s' \<longleftrightarrow>
     (\<forall>i < 8. i \<noteq> current (sched s) \<and> state_of (sched s) i = TASK_READY \<and> runnable (sched s') i \<longrightarrow>
        esp (tasks (sched s') ! i) = esp (tasks (sched s) ! i) \<and>
        stack_base (tasks (sched s') ! i) = stack_base (tasks (sched s) ! i) \<and>
        (\<forall>x. unat x \<in> stack_bytes B (sched s) i \<longrightarrow> mem s' x = mem s x))"

lemma stacks_kept_sched:
  assumes "mem s' = mem s" "\<And>i. i < 8 \<Longrightarrow> esp (tasks (sched s') ! i) = esp (tasks (sched s) ! i)"
    "\<And>i. i < 8 \<Longrightarrow> stack_base (tasks (sched s') ! i) = stack_base (tasks (sched s) ! i)"
  shows "stacks_kept B s s'"
  using assms by (simp add: stacks_kept_def)

end
