(* ===== verification/Task_Ops.thy ===== *)
theory Task_Ops
  imports Task_Inv
begin

text \<open>
  Every operation of the scheduler keeps the invariant \<open>task_inv\<close> and the stacks and saved contexts of
  the ready tasks; the loops of \<open>reap\<close> and \<open>task_create\<close> return.
\<close>

section \<open>Round robin\<close>

lemma pick_next_spec:
  assumes ok: "sched_ok sc"
  obtains d where "1 \<le> d" "d \<le> 8" "pick_next sc = Some ((current sc + d) mod 8)"
    "runnable sc ((current sc + d) mod 8)"
    "\<And>e. 1 \<le> e \<Longrightarrow> e < d \<Longrightarrow> \<not> runnable sc ((current sc + e) mod 8)"
proof -
  let ?f = "\<lambda>d. (current sc + d) mod 8"
  let ?xs = "map ?f [1..<9]"
  have pn: "pick_next sc = find (runnable sc) ?xs" by (simp add: pick_next_def MAX_TASKS_def)
  have "current sc < 8" "runnable sc 0" using ok by (simp_all add: sched_ok_def)
  then have c: "0 = ?f (8 - current sc)" "8 - current sc \<in> set [1..<9]" by (simp, simp, linarith)
  have "0 \<in> set ?xs" unfolding set_map by (rule image_eqI [where x = "8 - current sc"]) (fact c)+
  with \<open>runnable sc 0\<close> have "pick_next sc \<noteq> None"
    unfolding pn find_None_iff by blast
  then obtain j where j: "find (runnable sc) ?xs = Some j" using pn by auto
  then obtain k where k: "k < 8" "runnable sc (?xs ! k)" "j = ?xs ! k" "\<forall>e < k. \<not> runnable sc (?xs ! e)"
    unfolding find_Some_iff by auto
  have xs: "?xs ! e = ?f (Suc e)" if "e < 8" for e using that by simp
  show thesis
  proof (rule that [of "Suc k"])
    show "pick_next sc = Some (?f (Suc k))" "runnable sc (?f (Suc k))" using pn j k xs by simp_all
    show "\<not> runnable sc (?f e)" if "1 \<le> e" "e < Suc k" for e
      using k(4) [rule_format, of "e - 1"] xs [of "e - 1"] k(1) that by simp
  qed (use k in simp_all)
qed

lemma pick_next_runs:
  assumes "sched_ok sc"
  obtains j where "pick_next sc = Some j" "j < 8" "runnable sc j"
  using pick_next_spec [OF assms] by (metis mod_less_divisor zero_less_numeral)

section \<open>The context switch\<close>

lemma context_switch_fields:
  assumes "save_context (cpu s) (mem s) = (sp, m)"
  shows "context_switch i new s =
    s\<lparr>mem := m, sched := upd_task i (\<lambda>t. t\<lparr>esp := sp\<rparr>) (sched s), cpu := restore_context m new\<rparr>"
  using assms by (cases s) (simp add: context_switch_def on_sched_def)

text \<open>The table after \<open>switch_to\<close>, before the context switch.\<close>

definition switched :: "nat \<Rightarrow> sched_state \<Rightarrow> sched_state" where
  "switched nxt sc =
     (let sc = (if state_of sc (current sc) = TASK_RUNNING
                then upd_task (current sc) (\<lambda>t. t\<lparr>tstate := TASK_READY\<rparr>) sc else sc);
          sc = upd_task nxt (\<lambda>t. t\<lparr>tstate := TASK_RUNNING, slices := slices t + 1\<rparr>) (sc\<lparr>current := nxt\<rparr>)
      in sc\<lparr>switches := switches sc + 1, quantum_left := TASK_QUANTUM\<rparr>)"

lemma switch_to_Some:
  "nxt \<noteq> current (sched s) \<Longrightarrow>
     switch_to (Some nxt) s =
       context_switch (current (sched s)) (esp (tasks (switched nxt (sched s)) ! nxt)) (s\<lparr>sched := switched nxt (sched s)\<rparr>)"
  by (simp add: switch_to_def switched_def Let_def on_sched_def)

lemma switched_table:
  assumes "length (tasks sc) = 8" "current sc < 8" "nxt < 8" "nxt \<noteq> current sc"
  shows "current (switched nxt sc) = nxt" "length (tasks (switched nxt sc)) = 8"
    "enabled (switched nxt sc) = enabled sc" "quantum_left (switched nxt sc) = 5"
    "state_of (switched nxt sc) j =
       (if j = nxt then TASK_RUNNING
        else if j = current sc \<and> state_of sc j = TASK_RUNNING then TASK_READY else state_of sc j)"
    "esp (tasks (switched nxt sc) ! j) = esp (tasks sc ! j)"
    "stack_base (tasks (switched nxt sc) ! j) = stack_base (tasks sc ! j)"
    "task_id (tasks (switched nxt sc) ! j) = task_id (tasks sc ! j)"
    "name (tasks (switched nxt sc) ! j) = name (tasks sc ! j)"
  using assms
  by (cases "j = nxt"; cases "j = current sc"; simp add: switched_def Let_def TASK_QUANTUM_def nth_list_update)+

lemma switched_ok:
  assumes "sched_ok sc" "runnable sc nxt" "nxt < 8" "nxt \<noteq> current sc"
  shows "sched_ok (switched nxt sc)"
proof -
  have a: "length (tasks sc) = 8" "current sc < 8" using assms(1) by (simp_all add: sched_ok_def)
  note st = switched_table [OF a assms(3,4)]
  have "state_of sc nxt \<noteq> TASK_UNUSED" using assms(2) by (auto simp: runnable_def)
  then show ?thesis
    using assms(1,3) unfolding sched_ok_def runnable_def by (auto simp: st)
qed

lemma switch_to_sched:
  assumes inv: "task_inv B bs s" and rm: "room B s" and n: "runnable (sched s) nxt" "nxt < 8" "nxt \<noteq> current (sched s)"
  defines "e \<equiv> cpu_esp (cpu s)"
  obtains sp m where "save_context (cpu s) (mem s) = (sp, m)" "unat sp = unat e - 36"
    "\<And>x. unat x \<notin> stack_bytes B (sched s) (current (sched s)) \<Longrightarrow> m x = mem s x"
    "switch_to (Some nxt) s = s\<lparr>mem := m,
       sched := upd_task (current (sched s)) (\<lambda>t. t\<lparr>esp := sp\<rparr>) (switched nxt (sched s)),
       cpu := restore_context m (esp (tasks (sched s) ! nxt))\<rparr>"
proof -
  let ?c = "current (sched s)"
  obtain sp m where sv: "save_context (cpu s) (mem s) = (sp, m)" by fastforce
  have r: "36 \<le> unat e" "unat e + 4 \<le> 2 ^ 32" "{unat e - 36 ..< unat e + 4} \<subseteq> stack_bytes B (sched s) ?c"
    using rm by (simp_all add: room_def Let_def e_def)
  note sc = save_context [OF sv r(1,2) [unfolded e_def], folded e_def]
  have ok: "sched_ok (sched s)" using inv by (simp add: task_inv_def)
  then have "length (tasks (sched s)) = 8" "?c < 8" by (simp_all add: sched_ok_def)
  note tb = switched_table [OF this n(2,3)]
  have eq: "switch_to (Some nxt) s = s\<lparr>mem := m,
       sched := upd_task ?c (\<lambda>t. t\<lparr>esp := sp\<rparr>) (switched nxt (sched s)),
       cpu := restore_context m (esp (tasks (sched s) ! nxt))\<rparr>"
    unfolding switch_to_Some [OF n(3)]
    using context_switch_fields [of "s\<lparr>sched := switched nxt (sched s)\<rparr>" sp m ?c "esp (tasks (sched s) ! nxt)"] sv
    by (simp add: tb(6))
  have "m x = mem s x" if "unat x \<notin> stack_bytes B (sched s) ?c" for x
  proof (rule sc(2))
    have "unat x \<notin> {unat e - 36 ..< unat e + 4}" using r(3) that by blast
    then show "unat x < unat sp \<or> unat e \<le> unat x" using sc(1) by auto
  qed
  with sv sc(1) eq show thesis by (intro that)
qed

section \<open>Switching keeps the invariant\<close>

lemma exists_runnable: "runnable sc i \<Longrightarrow> i < 8 \<Longrightarrow> exists_task sc i"
  by (auto simp: runnable_def exists_task_def)

lemma current_exists: "sched_ok sc \<Longrightarrow> exists_task sc (current sc)"
  by (auto simp: sched_ok_def exists_task_def)

lemma contexts_okD:
  "contexts_ok B sc \<Longrightarrow> i < 8 \<Longrightarrow> i \<noteq> current sc \<Longrightarrow> state_of sc i = TASK_READY \<Longrightarrow>
     unat (esp (tasks sc ! i)) + 40 \<le> 2 ^ 32 \<and>
     {unat (esp (tasks sc ! i)) ..< unat (esp (tasks sc ! i)) + 40} \<subseteq> stack_bytes B sc i"
  by (simp add: contexts_ok_def)

lemma stack_bytes_cong:
  "stack_base (tasks sc' ! i) = stack_base (tasks sc ! i) \<Longrightarrow> stack_bytes B sc' i = stack_bytes B sc i"
  by (simp add: stack_bytes_def)

lemma switch_to_inv:
  assumes inv: "task_inv B bs s" and rm: "room B s" and n: "runnable (sched s) nxt" "nxt < 8" "nxt \<noteq> current (sched s)"
  shows "task_inv B bs (switch_to (Some nxt) s)" "stacks_kept B s (switch_to (Some nxt) s)"
    "current (sched (switch_to (Some nxt) s)) = nxt"
    "cpu (switch_to (Some nxt) s) = restore_context (mem s) (esp (tasks (sched s) ! nxt))"
proof -
  let ?c = "current (sched s)" and ?sc = "switched nxt (sched s)"
  obtain sp m where sw: "unat sp = unat (cpu_esp (cpu s)) - 36"
    "\<And>x. unat x \<notin> stack_bytes B (sched s) ?c \<Longrightarrow> m x = mem s x"
    "switch_to (Some nxt) s = s\<lparr>mem := m, sched := upd_task ?c (\<lambda>t. t\<lparr>esp := sp\<rparr>) ?sc,
       cpu := restore_context m (esp (tasks (sched s) ! nxt))\<rparr>"
    using switch_to_sched [OF inv rm n] by metis
  define sc' where "sc' = upd_task ?c (\<lambda>t. t\<lparr>esp := sp\<rparr>) ?sc"
  have h: "heap_inv s bs" "sched_ok (sched s)" "stacks_ok (live bs) (sched s)" "contexts_ok B (sched s)"
    "boot_stack_ok B s"
    using inv by (simp_all add: task_inv_def)
  have l: "length (tasks (sched s)) = 8" "?c < 8" using h(2) by (simp_all add: sched_ok_def)
  note tb = switched_table [OF l n(2,3)]
  have ow: "heap_inv (s\<lparr>mem := m\<rparr>) bs" "pool (s\<lparr>mem := m\<rparr>) = pool s"
    using own_stack_write(1,2) [OF inv current_exists [OF h(2)], of m] sw(2) by blast+
  have own: "m x = mem s x"
    if "exists_task (sched s) i" "i \<noteq> ?c" "unat x \<in> stack_bytes B (sched s) i" for i x
    using own_stack_write(3) [OF inv current_exists [OF h(2)] _ that] sw(2) by blast
  have ok: "sched_ok ?sc" using switched_ok [OF h(2) n] .
  have f: "current sc' = nxt" "state_of sc' = state_of ?sc" "length (tasks sc') = 8"
    "\<And>i. stack_base (tasks sc' ! i) = stack_base (tasks (sched s) ! i)"
    "\<And>i. esp (tasks sc' ! i) = (if i = ?c then sp else esp (tasks (sched s) ! i))"
    "\<And>i. task_id (tasks sc' ! i) = task_id (tasks (sched s) ! i)"
    "\<And>i. name (tasks sc' ! i) = name (tasks (sched s) ! i)" "quantum_left sc' = quantum_left ?sc"
    using tb l by (auto simp: sc'_def nth_list_update fun_eq_iff state_of_def)
  have sb: "stack_bytes B sc' i = stack_bytes B (sched s) i" for i using f(4) by (rule stack_bytes_cong)
  have ex: "exists_task sc' i = exists_task (sched s) i" for i
    using n(1) by (auto simp: exists_task_def f(2) tb(5) runnable_def)
  have "sched_ok sc'" using ok by (simp add: sched_ok_def runnable_def f tb)
  moreover have "stacks_ok (live bs) sc'" using h(3) by (simp add: stacks_ok_def ex f(4))
  moreover have "contexts_ok B sc'"
    unfolding contexts_ok_def
  proof (intro allI impI, elim conjE)
    fix i assume i: "i < 8" "i \<noteq> current sc'" "state_of sc' i = TASK_READY"
    show "unat (esp (tasks sc' ! i)) + 40 \<le> 2 ^ 32 \<and>
        {unat (esp (tasks sc' ! i)) ..< unat (esp (tasks sc' ! i)) + 40} \<subseteq> stack_bytes B sc' i"
    proof (cases "i = ?c")
      case True
      with rm sw(1) show ?thesis by (simp add: f(5) sb room_def Let_def add.commute)
    next
      case False
      with i have "state_of (sched s) i = TASK_READY" using tb(5) f(1,2) by (auto split: if_splits)
      from contexts_okD [OF h(4) i(1) False this] show ?thesis using False by (simp add: f(5) sb)
    qed
  qed
  moreover have "boot_stack_ok B (s\<lparr>mem := m\<rparr>)" using h(5) ow(2) by (simp add: boot_stack_ok_def)
  ultimately show "task_inv B bs (switch_to (Some nxt) s)"
    using ow(1) unfolding sw(3) sc'_def [symmetric] by (simp add: task_inv_def boot_stack_ok_def)
  show "current (sched (switch_to (Some nxt) s)) = nxt" using f(1) unfolding sw(3) sc'_def [symmetric] by simp
  have "m x = mem s x" if "i < 8" "i \<noteq> ?c" "state_of (sched s) i = TASK_READY" "unat x \<in> stack_bytes B (sched s) i" for i x
    using that by (intro own [of i]) (simp_all add: exists_task_def)
  then show "stacks_kept B s (switch_to (Some nxt) s)"
    unfolding stacks_kept_def sw(3) sc'_def [symmetric]
    by (simp add: f(4,5))
  have "state_of (sched s) nxt = TASK_READY"
    using n h(2) by (auto simp: runnable_def sched_ok_def)
  note cx = contexts_okD [OF h(4) n(2,3) this]
  have "restore_context m (esp (tasks (sched s) ! nxt)) = restore_context (mem s) (esp (tasks (sched s) ! nxt))"
  proof (rule restore_context_cong)
    fix x :: u32
    assume "unat (esp (tasks (sched s) ! nxt)) \<le> unat x" "unat x < unat (esp (tasks (sched s) ! nxt)) + 40"
    then have "unat x \<in> stack_bytes B (sched s) nxt" using cx by auto
    then show "m x = mem s x" using own [OF exists_runnable [OF n(1,2)] n(3)] by blast
  qed (use cx in simp)
  then show "cpu (switch_to (Some nxt) s) = restore_context (mem s) (esp (tasks (sched s) ! nxt))"
    unfolding sw(3) by simp
qed

section \<open>Reaping\<close>

text \<open>
  \<open>dead_slots is sc\<close>: the slots of \<open>is\<close> that \<open>reap\<close> clears. \<open>reaped\<close>: what clearing them does.
\<close>

definition dead_slots :: "nat list \<Rightarrow> sched_state \<Rightarrow> nat set" where
  "dead_slots is sc = {i \<in> set is. state_of sc i = TASK_DEAD \<and> i \<noteq> current sc}"

definition reaped :: "nat set \<Rightarrow> nat list \<Rightarrow> 'a task_layer_scheme \<Rightarrow> 'a task_layer_scheme \<Rightarrow> bool" where
  "reaped B is s s' \<longleftrightarrow>
     cpu s' = cpu s \<and> con s' = con s \<and> pool s' \<subseteq> pool s \<and>
     current (sched s') = current (sched s) \<and> enabled (sched s') = enabled (sched s) \<and>
     quantum_left (sched s') = quantum_left (sched s) \<and> switches (sched s') = switches (sched s) \<and>
     (\<forall>i < 8. tasks (sched s') ! i =
        (if i \<in> dead_slots is (sched s) then (tasks (sched s) ! i)\<lparr>stack_base := 0, tstate := TASK_UNUSED\<rparr>
         else tasks (sched s) ! i)) \<and>
     (\<forall>i x. exists_task (sched s) i \<and> i \<notin> dead_slots is (sched s) \<and> unat x \<in> stack_bytes B (sched s) i \<longrightarrow>
        mem s' x = mem s x)"

lemma boot_stack_mono: "boot_stack_ok B s \<Longrightarrow> pool s' \<subseteq> pool s \<Longrightarrow> boot_stack_ok B s'"
  unfolding boot_stack_ok_def by blast

lemma kept_pool: "kept bs s s' \<Longrightarrow> pool s' \<subseteq> pool s"
  by (simp add: kept_def pool_kept_def)

lemma reap_step:
  fixes s :: "'a task_layer_scheme"
  assumes inv: "task_inv B bs s" and i: "0 < i" "i < 8" "state_of (sched s) i = TASK_DEAD" "i \<noteq> current (sched s)"
  shows "\<exists>s1 bs1. stack_base (tasks (sched s) ! i) \<noteq> 0 \<and> kfree (stack_base (tasks (sched s) ! i)) s = Some (True, s1) \<and>
    (let s2 = on_sched (upd_task i (\<lambda>t. t\<lparr>stack_base := 0, tstate := TASK_UNUSED\<rparr>)) s1
     in task_inv B bs1 s2 \<and> live bs1 = (live bs)(stack_base (tasks (sched s) ! i) := None) \<and> reaped B [i] s s2)"
proof -
  let ?p = "stack_base (tasks (sched s) ! i)"
  have h: "heap_inv s bs" "sched_ok (sched s)" "stacks_ok (live bs) (sched s)" "contexts_ok B (sched s)"
    "boot_stack_ok B s"
    using inv by (simp_all add: task_inv_def)
  have ex: "exists_task (sched s) i" using i by (simp add: exists_task_def)
  obtain n where n: "live bs ?p = Some n" "TASK_STACK_SIZE \<le> n" using stacks_okD [OF h(3) i(1) ex] .
  have rep: "heap_rep s (live bs)" using h(1) by (auto simp: heap_rep_def)
  have p0: "?p \<noteq> 0" using ha.rep_block [OF rep n(1)] by simp
  define bs1 where "bs1 = merge (free_at (?p - HDR) bs)"
  obtain s1 where s1: "kfree ?p s = Some (True, s1)" "heap_inv s1 bs1" "kept bs1 s s1"
    "live bs1 = (live bs)(?p := None)" "used_bytes bs1 = used_bytes bs - block_bytes ?p n"
    using kfree_spec [OF h(1) n(1), folded bs1_def block_bytes_def] by blast
  define s2 where "s2 = on_sched (upd_task i (\<lambda>t. t\<lparr>stack_base := 0, tstate := TASK_UNUSED\<rparr>)) s1"
  note kt = kept_task [OF s1(3)]
  have l: "length (tasks (sched s)) = 8" using h(2) by (simp add: sched_ok_def)
  have ds: "dead_slots [i] (sched s) = {i}" using i by (auto simp: dead_slots_def)
  have t2: "tasks (sched s2) ! j = (if j = i then (tasks (sched s) ! i)\<lparr>stack_base := 0, tstate := TASK_UNUSED\<rparr>
      else tasks (sched s) ! j)" for j
    using l i(2) by (simp add: s2_def kt nth_list_update)
  have st2: "state_of (sched s2) j = (if j = i then TASK_UNUSED else state_of (sched s) j)" for j
    by (simp add: state_of_def t2)
  have oth: "current (sched s2) = current (sched s)" "quantum_left (sched s2) = quantum_left (sched s)"
    "enabled (sched s2) = enabled (sched s)" "switches (sched s2) = switches (sched s)"
    "length (tasks (sched s2)) = 8" "mem s2 = mem s1" "cpu s2 = cpu s" "con s2 = con s"
    using l kt s1(3) by (simp_all add: s2_def kept_def)
  have ex2: "exists_task (sched s2) j \<longleftrightarrow> exists_task (sched s) j \<and> j \<noteq> i" for j
    by (auto simp: exists_task_def st2)
  have ne: "stack_base (tasks (sched s) ! j) \<noteq> ?p" if "exists_task (sched s) j" "0 < j" "j \<noteq> i" for j
    using h(3) that ex i(1) unfolding stacks_ok_def by blast
  have mem1: "mem s1 x = mem s x" if j: "exists_task (sched s) j" "j \<noteq> i" "unat x \<in> stack_bytes B (sched s) j" for j x
  proof (cases "j = 0")
    case True
    then have "unat x \<in> B" using j(3) by (simp add: stack_bytes_def)
    then have "unat x < 0xC0000000" "frame_no x \<notin> pool s" using h(5) by (auto simp: boot_stack_ok_def)
    then show ?thesis using s1(3) by (simp add: kept_def pool_kept_def)
  next
    case False
    then obtain k where "live bs (stack_base (tasks (sched s) ! j)) = Some k" "TASK_STACK_SIZE \<le> k"
      using stacks_okD [OF h(3) _ j(1)] by auto
    moreover from this have "unat x \<in> block_bytes (stack_base (tasks (sched s) ! j)) k"
      using j(3) False by (auto simp: stack_bytes_def block_bytes_def word_le_nat_alt)
    ultimately show ?thesis using ha.free_keeps [OF rep n(1) s1(1)] ne [OF j(1) _ j(2)] False by blast
  qed
  have "sched_ok (sched s2)" using h(2) i(1,4) unfolding sched_ok_def runnable_def by (auto simp: st2 oth t2)
  moreover have "stacks_ok (live bs1) (sched s2)"
    using h(3) ne unfolding stacks_ok_def by (simp add: ex2 t2 s1(4))
  moreover have "contexts_ok B (sched s2)"
    unfolding contexts_ok_def
  proof (intro allI impI)
    fix j assume j: "j < 8" "j \<noteq> current (sched s2) \<and> state_of (sched s2) j = TASK_READY"
    then have ne: "j \<noteq> i" and t: "tasks (sched s2) ! j = tasks (sched s) ! j"
      and c: "j \<noteq> current (sched s)" "state_of (sched s) j = TASK_READY"
      by (auto simp: st2 t2 oth(1) split: if_splits)
    from contexts_okD [OF h(4) j(1) c] show "unat (esp (tasks (sched s2) ! j)) + 40 \<le> 2 ^ 32 \<and>
        {unat (esp (tasks (sched s2) ! j)) ..< unat (esp (tasks (sched s2) ! j)) + 40} \<subseteq> stack_bytes B (sched s2) j"
      using stack_bytes_cong [of "sched s2" j "sched s" B] by (simp add: t)
  qed
  moreover have "boot_stack_ok B s2"
    using boot_stack_mono [OF h(5), of s2] kept_pool [OF s1(3)] by (simp add: s2_def)
  moreover have "heap_inv s2 bs1" using s1(2) by (simp add: s2_def)
  ultimately have "task_inv B bs1 s2" by (simp add: task_inv_def)
  moreover have "reaped B [i] s s2"
    using oth t2 mem1 kept_pool [OF s1(3)] by (auto simp: reaped_def ds s2_def)
  ultimately show ?thesis using p0 s1(1,4) unfolding s2_def Let_def by blast
qed

lemma reaped_trans:
  assumes "reaped B [i] s t" "reaped B is t u" "i \<notin> set is" "i < 8"
  shows "reaped B (i # is) s u"
proof -
  let ?d = "dead_slots is (sched t)" and ?e = "dead_slots [i] (sched s)"
  have t: "tasks (sched t) ! j = (if j \<in> ?e then (tasks (sched s) ! j)\<lparr>stack_base := 0, tstate := TASK_UNUSED\<rparr>
      else tasks (sched s) ! j)" if "j < 8" for j
    using assms(1) that by (simp add: reaped_def)
  have u: "tasks (sched u) ! j = (if j \<in> ?d then (tasks (sched t) ! j)\<lparr>stack_base := 0, tstate := TASK_UNUSED\<rparr>
      else tasks (sched t) ! j)" if "j < 8" for j
    using assms(2) that by (simp add: reaped_def)
  have st: "state_of (sched t) j = (if j \<in> ?e then TASK_UNUSED else state_of (sched s) j)" if "j < 8" for j
    using t [OF that] by (simp add: state_of_def)
  have c: "current (sched t) = current (sched s)" using assms(1) by (simp add: reaped_def)
  have e: "?e \<subseteq> {i}" by (auto simp: dead_slots_def)
  have d: "j \<in> dead_slots (i # is) (sched s) \<longleftrightarrow> j \<in> ?e \<or> j \<in> ?d" if "j < 8" for j
    using e assms(3) st [OF that] c by (auto simp: dead_slots_def)
  have ed: "?e \<inter> ?d = {}" using e assms(3) by (auto simp: dead_slots_def)
  have "tasks (sched u) ! j = (if j \<in> dead_slots (i # is) (sched s)
      then (tasks (sched s) ! j)\<lparr>stack_base := 0, tstate := TASK_UNUSED\<rparr> else tasks (sched s) ! j)" if "j < 8" for j
    using d [OF that] ed t [OF that] u [OF that] by auto
  moreover have "mem u x = mem s x"
    if j: "exists_task (sched s) j" "j \<notin> dead_slots (i # is) (sched s)" "unat x \<in> stack_bytes B (sched s) j" for j x
  proof -
    have j8: "j < 8" using j(1) by (simp add: exists_task_def)
    have nd: "j \<notin> ?e" "j \<notin> ?d" using d [OF j8] j(2) by simp_all
    have "exists_task (sched t) j" "stack_bytes B (sched t) j = stack_bytes B (sched s) j"
      using j(1) st [OF j8] t [OF j8] nd by (simp_all add: exists_task_def stack_bytes_def)
    then have "mem u x = mem t x" using assms(2) nd j(3) unfolding reaped_def by blast
    moreover have "mem t x = mem s x" using assms(1) nd j unfolding reaped_def by blast
    ultimately show ?thesis by simp
  qed
  ultimately show ?thesis using assms(1,2) unfolding reaped_def by auto
qed

lemma reaped_skip:
  assumes "reaped B is s t" "\<not> (state_of (sched s) i = TASK_DEAD \<and> i \<noteq> current (sched s))"
  shows "reaped B (i # is) s t"
proof -
  have "dead_slots (i # is) (sched s) = dead_slots is (sched s)" using assms(2) by (auto simp: dead_slots_def)
  then show ?thesis using assms(1) by (simp add: reaped_def)
qed

lemma reaped_Nil: "reaped B [] s s"
  by (simp add: reaped_def dead_slots_def)

lemma reap_loop_spec:
  assumes "task_inv B bs s" "distinct is" "set is \<subseteq> {1..<8}"
  shows "\<exists>s' bs'. reap_loop is s = Some s' \<and> task_inv B bs' s' \<and> reaped B is s s' \<and>
    live bs' = live bs |` (- (\<lambda>i. stack_base (tasks (sched s) ! i)) ` dead_slots is (sched s))"
  using assms
proof (induction "is" arbitrary: s bs)
  case Nil
  then show ?case by (auto simp: reaped_Nil dead_slots_def)
next
  case (Cons i ns)
  have i: "0 < i" "i < 8" and ns: "distinct ns" "set ns \<subseteq> {1..<8}" "i \<notin> set ns" using Cons.prems by auto
  show ?case
  proof (cases "state_of (sched s) i = TASK_DEAD \<and> i \<noteq> current (sched s)")
    case False
    obtain t bs' where t: "reap_loop ns s = Some t" "task_inv B bs' t" "reaped B ns s t"
      "live bs' = live bs |` (- (\<lambda>i. stack_base (tasks (sched s) ! i)) ` dead_slots ns (sched s))"
      using Cons.IH [OF Cons.prems(1) ns(1,2)] by blast
    have "dead_slots (i # ns) (sched s) = dead_slots ns (sched s)" using False by (auto simp: dead_slots_def)
    moreover have "reap_loop (i # ns) s = Some t" using False t(1) by auto
    ultimately show ?thesis using t reaped_skip [OF t(3) False] by auto
  next
    case True
    let ?p = "stack_base (tasks (sched s) ! i)"
    obtain s1 bs1 where s1: "?p \<noteq> 0" "kfree ?p s = Some (True, s1)"
      and r: "task_inv B bs1 (on_sched (upd_task i (\<lambda>t. t\<lparr>stack_base := 0, tstate := TASK_UNUSED\<rparr>)) s1)"
        "live bs1 = (live bs)(?p := None)"
        "reaped B [i] s (on_sched (upd_task i (\<lambda>t. t\<lparr>stack_base := 0, tstate := TASK_UNUSED\<rparr>)) s1)"
      using reap_step [OF Cons.prems(1) i] True unfolding Let_def by blast
    define s2 where "s2 = on_sched (upd_task i (\<lambda>t. t\<lparr>stack_base := 0, tstate := TASK_UNUSED\<rparr>)) s1"
    note r = r [folded s2_def]
    obtain t bs' where t: "reap_loop ns s2 = Some t" "task_inv B bs' t" "reaped B ns s2 t"
      "live bs' = live bs1 |` (- (\<lambda>i. stack_base (tasks (sched s2) ! i)) ` dead_slots ns (sched s2))"
      using Cons.IH [OF r(1) ns(1,2)] by blast
    have loop: "reap_loop (i # ns) s = Some t" using True s1 t(1) by (simp add: s2_def)
    have d8: "dead_slots ns (sched s2) \<subseteq> {..<8}" using ns(2) by (auto simp: dead_slots_def)
    have t2: "tasks (sched s2) ! j = (if j \<in> dead_slots [i] (sched s)
        then (tasks (sched s) ! j)\<lparr>stack_base := 0, tstate := TASK_UNUSED\<rparr> else tasks (sched s) ! j)" if "j < 8" for j
      using r(3) that unfolding reaped_def by blast
    have di: "dead_slots [i] (sched s) = {i}" using True by (auto simp: dead_slots_def)
    have c2: "current (sched s2) = current (sched s)" using r(3) unfolding reaped_def by blast
    have st2: "state_of (sched s2) j = state_of (sched s) j" if "j \<in> set ns" for j
    proof -
      have "j < 8" "j \<noteq> i" using that ns(2,3) by auto
      then show ?thesis using t2 [of j] by (simp add: state_of_def di)
    qed
    have dn: "dead_slots ns (sched s2) = dead_slots ns (sched s)"
      using st2 c2 unfolding dead_slots_def by auto
    have im: "(\<lambda>i. stack_base (tasks (sched s2) ! i)) ` dead_slots ns (sched s2) =
        (\<lambda>i. stack_base (tasks (sched s) ! i)) ` dead_slots ns (sched s)"
      unfolding dn using t2 di ns(3) d8 [unfolded dn] by (intro image_cong) (auto simp: dead_slots_def)
    have dc: "dead_slots (i # ns) (sched s) = insert i (dead_slots ns (sched s))"
      using True by (auto simp: dead_slots_def)
    have "live bs' = live bs |` (- (\<lambda>i. stack_base (tasks (sched s) ! i)) ` dead_slots (i # ns) (sched s))"
      unfolding t(4) im r(2) dc by (auto simp: restrict_map_def fun_eq_iff)
    with loop t(2) reaped_trans [OF r(3) t(3) ns(3) i(2)] show ?thesis by blast
  qed
qed

end
