(* ===== verification/Task_Steps.thy ===== *)
theory Task_Steps
  imports Task_Ops
begin

text \<open>
  The remaining operations: timer tick, yield, creation, kill and exit, and the heap operations of
  the tasks' own code. The step relation \<open>kstep\<close> collects everything that can happen to the task
  table between two moments of a run.
\<close>

section \<open>Changes of the table alone\<close>

lemma upd_field: "g t = g (xs ! i) \<Longrightarrow> g (xs[i := t] ! j) = g (xs ! j)"
  by (cases "i < length xs"; cases "i = j") (simp_all add: list_update_beyond)

lemmas upd_fields = upd_field [where g = stack_base] upd_field [where g = esp]
  upd_field [where g = task_id] upd_field [where g = name] upd_field [where g = tstate]

lemma task_inv_table:
  assumes "task_inv B bs s" "sched_ok (f (sched s))" "current (f (sched s)) = current (sched s)"
    and "\<And>i. i < 8 \<Longrightarrow> stack_base (tasks (f (sched s)) ! i) = stack_base (tasks (sched s) ! i)"
    and "\<And>i. i < 8 \<Longrightarrow> esp (tasks (f (sched s)) ! i) = esp (tasks (sched s) ! i)"
    and "\<And>i. i < 8 \<Longrightarrow> state_of (f (sched s)) i = state_of (sched s) i \<or>
      state_of (f (sched s)) i = TASK_DEAD \<and> state_of (sched s) i \<noteq> TASK_UNUSED"
  shows "task_inv B bs (on_sched f s)" "stacks_kept B s (on_sched f s)"
proof -
  let ?sc = "f (sched s)"
  have ex: "exists_task ?sc i = exists_task (sched s) i" for i
    using assms(6) [of i] by (auto simp: exists_task_def)
  have "stacks_ok (live bs) ?sc"
    unfolding stacks_ok_def ex using assms(1,4) by (simp add: task_inv_def stacks_ok_def exists_task_def)
  moreover have "contexts_ok B ?sc"
    unfolding contexts_ok_def
  proof (intro allI impI)
    fix i assume i: "i < 8" "i \<noteq> current ?sc \<and> state_of ?sc i = TASK_READY"
    then have c: "i \<noteq> current (sched s)" "state_of (sched s) i = TASK_READY"
      using assms(3) assms(6) [OF i(1)] by auto
    have "contexts_ok B (sched s)" using assms(1) by (simp add: task_inv_def)
    from contexts_okD [OF this i(1) c] show "unat (esp (tasks ?sc ! i)) + 40 \<le> 2 ^ 32 \<and>
        {unat (esp (tasks ?sc ! i)) ..< unat (esp (tasks ?sc ! i)) + 40} \<subseteq> stack_bytes B ?sc i"
      using stack_bytes_cong [OF assms(4) [OF i(1)]] assms(5) [OF i(1)] by simp
  qed
  ultimately show "task_inv B bs (on_sched f s)"
    using assms(1,2) by (simp add: task_inv_def boot_stack_ok_def)
  show "stacks_kept B s (on_sched f s)"
    using assms(4,5) by (intro stacks_kept_sched) simp_all
qed

lemma task_inv_cpu [simp]: "task_inv B bs (s\<lparr>cpu := c\<rparr>) = task_inv B bs s"
  by (simp add: task_inv_def boot_stack_ok_def)

lemma task_kill_inv:
  assumes inv: "task_inv B bs s"
  shows "task_inv B bs (snd (task_kill tid s))" "stacks_kept B s (snd (task_kill tid s))"
    "current (sched (snd (task_kill tid s))) = current (sched s)"
proof -
  have ok: "sched_ok (sched s)" using inv by (simp add: task_inv_def)
  consider "snd (task_kill tid s) = on_sched (\<lambda>sc. sc) s"
    | "snd (task_kill tid s) = on_sched (upd_task (unat tid) (\<lambda>t. t\<lparr>tstate := TASK_DEAD\<rparr>)) s"
      "tid \<noteq> 0" "unat tid < 8" "state_of (sched s) (unat tid) \<noteq> TASK_UNUSED"
    by (force simp: task_kill_def MAX_TASKS_def on_sched_def)
  then have "task_inv B bs (snd (task_kill tid s)) \<and> stacks_kept B s (snd (task_kill tid s)) \<and>
      current (sched (snd (task_kill tid s))) = current (sched s)"
  proof cases
    case 1
    show ?thesis unfolding 1 using task_inv_table [OF inv, of "\<lambda>sc. sc"] ok by simp
  next
    case 2
    let ?f = "upd_task (unat tid) (\<lambda>t. t\<lparr>tstate := TASK_DEAD\<rparr>)"
    have l: "length (tasks (sched s)) = 8" using ok by (simp add: sched_ok_def)
    have "unat tid \<noteq> 0" using 2(2) by (simp add: unat_eq_0)
    then have "sched_ok (?f (sched s))"
      using ok 2(3,4) unfolding sched_ok_def runnable_def by (auto simp: upd_fields)
    then show ?thesis
      unfolding 2(1) using 2(4) l by (intro conjI task_inv_table [OF inv]) (auto simp: upd_fields)
  qed
  then show "task_inv B bs (snd (task_kill tid s))" "stacks_kept B s (snd (task_kill tid s))"
    "current (sched (snd (task_kill tid s))) = current (sched s)" by blast+
qed

lemma task_exit_inv:
  assumes inv: "task_inv B bs s" and nz: "current (sched s) \<noteq> 0"
  shows "task_inv B bs (task_exit s)" "stacks_kept B s (task_exit s)"
    "current (sched (task_exit s)) = current (sched s)"
proof -
  let ?f = "\<lambda>sc. upd_task (current sc) (\<lambda>t. t\<lparr>tstate := TASK_DEAD\<rparr>) sc"
  have ok: "sched_ok (sched s)" using inv by (simp add: task_inv_def)
  have l: "length (tasks (sched s)) = 8" "current (sched s) < 8"
    "state_of (sched s) (current (sched s)) \<noteq> TASK_UNUSED" using ok by (auto simp: sched_ok_def)
  have ok': "sched_ok (?f (sched s))"
    using ok nz unfolding sched_ok_def runnable_def by (auto simp: upd_fields)
  have t: "task_inv B bs (on_sched ?f s)" "stacks_kept B s (on_sched ?f s)"
    using ok' l by (intro task_inv_table [OF inv]; auto simp: upd_fields)+
  then show "task_inv B bs (task_exit s)" "stacks_kept B s (task_exit s)"
    by (simp_all add: task_exit_def Let_def stacks_kept_def)
  show "current (sched (task_exit s)) = current (sched s)" by (simp add: task_exit_def)
qed

lemma counter_task_inv:
  assumes inv: "task_inv B bs s"
  shows "task_inv B bs (counter_task i s)" "stacks_kept B s (counter_task i s)"
    "state_of (sched (counter_task i s)) = state_of (sched s)"
proof -
  let ?f = "upd_task i (\<lambda>t. t\<lparr>counter := counter t + 1\<rparr>)"
  have ok: "sched_ok (sched s)" using inv by (simp add: task_inv_def)
  have l: "length (tasks (sched s)) = 8" using ok by (simp add: sched_ok_def)
  have st: "state_of (?f (sched s)) = state_of (sched s)" by (simp add: fun_eq_iff state_of_def upd_fields)
  have f: "stack_base (tasks (?f (sched s)) ! j) = stack_base (tasks (sched s) ! j)"
    "esp (tasks (?f (sched s)) ! j) = esp (tasks (sched s) ! j)"
    "task_id (tasks (?f (sched s)) ! j) = task_id (tasks (sched s) ! j)"
    "name (tasks (?f (sched s)) ! j) = name (tasks (sched s) ! j)" for j
    by (simp_all add: upd_fields)
  have "sched_ok (?f (sched s))" using ok f by (simp add: sched_ok_def runnable_def st)
  then show "task_inv B bs (counter_task i s)" "stacks_kept B s (counter_task i s)"
    unfolding counter_task_def by (intro task_inv_table [OF inv]; simp add: f st del: upd_task_simps(1) state_of_upd)+
  show "state_of (sched (counter_task i s)) = state_of (sched s)" by (simp add: counter_task_def st)
qed

lemma scheduler_enable_inv:
  assumes inv: "task_inv B bs s"
  shows "task_inv B bs (scheduler_enable on s)" "stacks_kept B s (scheduler_enable on s)"
  using inv unfolding scheduler_enable_def
  by (intro task_inv_table [OF inv]; simp add: task_inv_def sched_ok_def runnable_def)+

lemma quantum_inv:
  assumes inv: "task_inv B bs s" and q: "quantum_left (sched s) > 1"
  shows "task_inv B bs (on_sched (\<lambda>sc. sc\<lparr>quantum_left := quantum_left sc - 1\<rparr>) s)"
    "stacks_kept B s (on_sched (\<lambda>sc. sc\<lparr>quantum_left := quantum_left sc - 1\<rparr>) s)"
    "unat (quantum_left (sched s) - 1) = unat (quantum_left (sched s)) - 1"
proof -
  have "unat (quantum_left (sched s)) > 1" using q by (simp add: word_less_nat_alt)
  then show u: "unat (quantum_left (sched s) - 1) = unat (quantum_left (sched s)) - 1"
    by (simp add: unat_sub word_le_nat_alt)
  have "sched_ok (sched s)" using inv by (simp add: task_inv_def)
  moreover have "1 \<le> unat (quantum_left (sched s) - 1)" "unat (quantum_left (sched s) - 1) \<le> unat (quantum_left (sched s))"
    using u \<open>unat (quantum_left (sched s)) > 1\<close> by simp_all
  ultimately have "sched_ok ((sched s)\<lparr>quantum_left := quantum_left (sched s) - 1\<rparr>)"
    by (simp add: sched_ok_def runnable_def)
  then show "task_inv B bs (on_sched (\<lambda>sc. sc\<lparr>quantum_left := quantum_left sc - 1\<rparr>) s)"
    "stacks_kept B s (on_sched (\<lambda>sc. sc\<lparr>quantum_left := quantum_left sc - 1\<rparr>) s)"
    by (intro task_inv_table [OF inv]; simp)+
qed

section \<open>The timer tick\<close>

lemma dead_slots_not_current: "current sc \<notin> dead_slots is sc"
  by (simp add: dead_slots_def)

lemma reaped_state:
  "reaped B is s t \<Longrightarrow> i < 8 \<Longrightarrow>
     state_of (sched t) i = (if i \<in> dead_slots is (sched s) then TASK_UNUSED else state_of (sched s) i)"
  by (simp add: reaped_def state_of_def)

lemma reaped_room:
  assumes "reaped B is s t" "sched_ok (sched s)" "room B s"
  shows "room B t"
proof -
  have "current (sched s) < 8" using assms(2) by (simp add: sched_ok_def)
  then have "stack_base (tasks (sched t) ! current (sched s)) = stack_base (tasks (sched s) ! current (sched s))"
    using assms(1) dead_slots_not_current [of "sched s" "is"] by (simp add: reaped_def)
  note stack_bytes_cong [OF this]
  then show ?thesis using assms(1,3) by (simp add: room_def reaped_def)
qed

lemma reaped_ready:
  assumes "reaped B is s t" "i < 8" "state_of (sched s) i = TASK_READY"
  shows "state_of (sched t) i = TASK_READY" "tasks (sched t) ! i = tasks (sched s) ! i"
    "unat x \<in> stack_bytes B (sched s) i \<Longrightarrow> mem t x = mem s x"
proof -
  have nd: "i \<notin> dead_slots is (sched s)" using assms(3) by (simp add: dead_slots_def)
  then show "tasks (sched t) ! i = tasks (sched s) ! i" using assms(1,2) by (simp add: reaped_def)
  then show "state_of (sched t) i = TASK_READY" using assms(3) by (simp add: state_of_def)
  have "exists_task (sched s) i" using assms(2,3) by (simp add: exists_task_def)
  then show "unat x \<in> stack_bytes B (sched s) i \<Longrightarrow> mem t x = mem s x"
    using assms(1) nd unfolding reaped_def by blast
qed

lemma stacks_kept_reaped:
  assumes r: "reaped B is s t" and k: "stacks_kept B t u"
  shows "stacks_kept B s u"
  unfolding stacks_kept_def
proof (intro allI impI, elim conjE)
  fix i assume i: "i < 8" "i \<noteq> current (sched s)" "state_of (sched s) i = TASK_READY" "runnable (sched u) i"
  note rr = reaped_ready [OF r i(1,3)]
  have "current (sched t) = current (sched s)" using r by (simp add: reaped_def)
  then have u: "esp (tasks (sched u) ! i) = esp (tasks (sched t) ! i)"
    "stack_base (tasks (sched u) ! i) = stack_base (tasks (sched t) ! i)"
    "\<And>x. unat x \<in> stack_bytes B (sched t) i \<Longrightarrow> mem u x = mem t x"
    using k i rr(1) by (simp_all add: stacks_kept_def)
  have "stack_bytes B (sched t) i = stack_bytes B (sched s) i" using rr(2) by (intro stack_bytes_cong) simp
  then show "esp (tasks (sched u) ! i) = esp (tasks (sched s) ! i) \<and>
        stack_base (tasks (sched u) ! i) = stack_base (tasks (sched s) ! i) \<and>
        (\<forall>x. unat x \<in> stack_bytes B (sched s) i \<longrightarrow> mem u x = mem s x)"
    using u rr(2,3) by simp
qed

lemma stacks_kept_refl [simp]: "stacks_kept B s s"
  by (simp add: stacks_kept_def)

lemma pick_and_switch:
  assumes inv: "task_inv B bs s" and rm: "room B s"
  shows "task_inv B bs (switch_to (pick_next (sched s)) s)" "stacks_kept B s (switch_to (pick_next (sched s)) s)"
proof -
  have ok: "sched_ok (sched s)" using inv by (simp add: task_inv_def)
  obtain j where j: "pick_next (sched s) = Some j" "j < 8" "runnable (sched s) j" using pick_next_runs [OF ok] .
  show "task_inv B bs (switch_to (pick_next (sched s)) s)" "stacks_kept B s (switch_to (pick_next (sched s)) s)"
    using switch_to_inv(1,2) [OF inv rm j(3,2)] inv stacks_kept_refl [of B s] unfolding j(1)
    by (cases "j = current (sched s)"; simp add: switch_to_def)+
qed

lemma scheduler_tick_spec:
  assumes inv: "task_inv B bs s" and rm: "room B s" and en: "enabled (sched s) \<noteq> 0"
  obtains t bs' where "reap s = Some t" "task_inv B bs' t" "room B t" "reaped B [1..<8] s t"
    "live bs' = live bs |` (- (\<lambda>i. stack_base (tasks (sched s) ! i)) ` dead_slots [1..<8] (sched s))"
    "scheduler_tick s = Some (if quantum_left (sched s) > 1
       then on_sched (\<lambda>sc. sc\<lparr>quantum_left := quantum_left sc - 1\<rparr>) t
       else switch_to (pick_next (sched t)) t)"
proof -
  obtain t bs' where t: "reap_loop [1..<8] s = Some t" "task_inv B bs' t" "reaped B [1..<8] s t"
    "live bs' = live bs |` (- (\<lambda>i. stack_base (tasks (sched s) ! i)) ` dead_slots [1..<8] (sched s))"
    using reap_loop_spec [OF inv, of "[1..<8]"] by auto
  have r: "reap s = Some t" using t(1) by (simp add: reap_def MAX_TASKS_def)
  have "sched_ok (sched s)" using inv by (simp add: task_inv_def)
  from reaped_room [OF t(3) this rm] have "room B t" .
  moreover have "quantum_left (sched t) = quantum_left (sched s)" using t(3) by (simp add: reaped_def)
  then have "scheduler_tick s = Some (if quantum_left (sched s) > 1
       then on_sched (\<lambda>sc. sc\<lparr>quantum_left := quantum_left sc - 1\<rparr>) t
       else switch_to (pick_next (sched t)) t)"
    using r en by (simp add: scheduler_tick_def)
  ultimately show thesis using r t by (intro that)
qed

lemma scheduler_tick_inv:
  assumes inv: "task_inv B bs s" and rm: "room B s"
  shows "\<exists>s' bs'. scheduler_tick s = Some s' \<and> task_inv B bs' s' \<and> stacks_kept B s s'"
proof (cases "enabled (sched s) = 0")
  case True
  then have "scheduler_tick s = Some s" by (simp add: scheduler_tick_def)
  then show ?thesis using inv stacks_kept_refl by blast
next
  case False
  obtain t bs' where "reap s = Some t" and t: "task_inv B bs' t" "room B t" "reaped B [1..<8] s t"
    and "live bs' = live bs |` (- (\<lambda>i. stack_base (tasks (sched s) ! i)) ` dead_slots [1..<8] (sched s))"
    and t4: "scheduler_tick s = Some (if quantum_left (sched s) > 1
       then on_sched (\<lambda>sc. sc\<lparr>quantum_left := quantum_left sc - 1\<rparr>) t
       else switch_to (pick_next (sched t)) t)"
    using scheduler_tick_spec [OF inv rm False] .
  have q: "quantum_left (sched t) = quantum_left (sched s)" using t(3) by (simp add: reaped_def)
  show ?thesis
  proof (cases "quantum_left (sched s) > 1")
    case True
    with quantum_inv(1,2) [OF t(1)] q t4 stacks_kept_reaped [OF t(3)] show ?thesis by auto
  next
    case False
    with pick_and_switch [OF t(1,2)] t4 stacks_kept_reaped [OF t(3)] show ?thesis by auto
  qed
qed

lemma task_yield_inv:
  assumes "task_inv B bs s" "room B s"
  shows "task_inv B bs (task_yield s)" "stacks_kept B s (task_yield s)"
  using assms pick_and_switch [OF assms] by (simp_all add: task_yield_def)

section \<open>Memory for the tasks\<close>

text \<open>A heap operation keeps every stack it does not free.\<close>

lemma kept_stacks:
  assumes inv: "task_inv B bs s" and k: "kept bs' s s'" and i: "exists_task (sched s) i"
    and u: "0 < i \<Longrightarrow> stack_bytes B (sched s) i \<subseteq> used_bytes bs'" and x: "unat x \<in> stack_bytes B (sched s) i"
  shows "mem s' x = mem s x"
proof (cases "i = 0")
  case True
  then have "unat x \<in> B" using x by (simp add: stack_bytes_def)
  then have "unat x < 0xC0000000" "frame_no x \<notin> pool s" using inv by (auto simp: task_inv_def boot_stack_ok_def)
  then show ?thesis using k by (simp add: kept_def pool_kept_def)
next
  case False
  then show ?thesis using u x k by (auto simp: kept_def)
qed

lemma task_inv_heap:
  assumes inv: "task_inv B bs s" and h: "heap_inv s' bs'" and k: "kept bs'' s s'"
    and l: "\<And>i n. 0 < i \<Longrightarrow> exists_task (sched s) i \<Longrightarrow> live bs (stack_base (tasks (sched s) ! i)) = Some n \<Longrightarrow>
      live bs' (stack_base (tasks (sched s) ! i)) = Some n"
  shows "task_inv B bs' s'"
proof -
  note kt = kept_task [OF k]
  have so: "stacks_ok (live bs) (sched s)" using inv by (simp add: task_inv_def)
  have "stacks_ok (live bs') (sched s)"
    unfolding stacks_ok_def
  proof (intro conjI allI impI, elim conjE)
    fix i assume i: "0 < i" "exists_task (sched s) i"
    obtain n where "live bs (stack_base (tasks (sched s) ! i)) = Some n" "TASK_STACK_SIZE \<le> n"
      using stacks_okD [OF so i] .
    with l [OF i] show "\<exists>n. live bs' (stack_base (tasks (sched s) ! i)) = Some n \<and> TASK_STACK_SIZE \<le> n" by blast
  next
    fix i j assume "0 < i \<and> exists_task (sched s) i \<and> 0 < j \<and> exists_task (sched s) j \<and> i \<noteq> j"
    then show "stack_base (tasks (sched s) ! i) \<noteq> stack_base (tasks (sched s) ! j)"
      using so by (simp add: stacks_ok_def)
  qed
  moreover have "boot_stack_ok B s'"
    using inv boot_stack_mono [OF _ kept_pool [OF k]] by (simp add: task_inv_def)
  ultimately show ?thesis using inv h by (simp add: task_inv_def kt)
qed

lemma stacks_kept_mem:
  assumes "sched s' = sched s" "\<And>i x. exists_task (sched s) i \<Longrightarrow> unat x \<in> stack_bytes B (sched s) i \<Longrightarrow> mem s' x = mem s x"
  shows "stacks_kept B s s'"
proof -
  have "mem s' x = mem s x"
    if "i < 8" "state_of (sched s) i = TASK_READY" "unat x \<in> stack_bytes B (sched s) i" for i x
    using that by (intro assms(2) [of i]) (simp_all add: exists_task_def)
  then show ?thesis by (simp add: stacks_kept_def assms(1))
qed

lemma kmalloc_task:
  assumes inv: "task_inv B bs s" and sz: "sz \<noteq> 0" "unat sz \<le> 0x3EFFFFF8"
  shows "\<exists>p s' bs'. kmalloc sz s = Some (p, s') \<and> task_inv B bs' s' \<and> kept bs s s' \<and> sched s' = sched s \<and> cpu s' = cpu s \<and>
    (\<forall>i x. exists_task (sched s) i \<and> unat x \<in> stack_bytes B (sched s) i \<longrightarrow> mem s' x = mem s x) \<and>
    (p \<noteq> 0 \<longrightarrow> fresh_block (align8 sz) p bs bs') \<and> (p = 0 \<longrightarrow> bs' = bs)"
proof -
  have h: "heap_inv s bs" using inv by (simp add: task_inv_def)
  obtain p s' bs' where k: "kmalloc sz s = Some (p, s')" "heap_inv s' bs'" "kept bs s s'"
    "p \<noteq> 0 \<longrightarrow> fresh_block (align8 sz) p bs bs'" "p = 0 \<longrightarrow> bs' = bs"
    using kmalloc_spec [OF h sz] by blast
  have "live bs' q = Some n" if "live bs q = Some n" for q n
    using k(4,5) that by (cases "p = 0") (auto simp: fresh_block_def)
  then have "task_inv B bs' s'" using task_inv_heap [OF inv k(2,3)] by blast
  moreover have "mem s' x = mem s x" if "exists_task (sched s) i" "unat x \<in> stack_bytes B (sched s) i" for i x
    using kept_stacks [OF inv k(3) that(1) _ that(2)] stack_used [OF inv _ that(1)] by blast
  ultimately show ?thesis using k kept_task [OF k(3)] by blast
qed

lemma kfree_task:
  assumes inv: "task_inv B bs s" and p: "live bs p = Some n"
    and np: "\<And>i. 0 < i \<Longrightarrow> exists_task (sched s) i \<Longrightarrow> stack_base (tasks (sched s) ! i) \<noteq> p"
  shows "\<exists>s' bs'. kfree p s = Some (True, s') \<and> task_inv B bs' s' \<and> stacks_kept B s s' \<and> sched s' = sched s"
proof -
  have h: "heap_inv s bs" "stacks_ok (live bs) (sched s)" using inv by (simp_all add: task_inv_def)
  define bs' where "bs' = merge (free_at (p - HDR) bs)"
  obtain s' where k: "kfree p s = Some (True, s')" "heap_inv s' bs'" "kept bs' s s'"
    "live bs' = (live bs)(p := None)" 
    using kfree_spec [OF h(1) p, folded bs'_def] by blast
  have ti: "task_inv B bs' s'" using np by (intro task_inv_heap [OF inv k(2,3)]) (simp add: k(4))
  have "mem s' x = mem s x" if i: "exists_task (sched s) i" and x: "unat x \<in> stack_bytes B (sched s) i" for i x
  proof (rule kept_stacks [OF inv k(3) i _ x])
    assume "0 < i"
    with stack_used [OF ti] i show "stack_bytes B (sched s) i \<subseteq> used_bytes bs'" by (simp add: kept_task [OF k(3)])
  qed
  then have "stacks_kept B s s'" by (intro stacks_kept_mem) (simp_all add: kept_task [OF k(3)])
  with ti k(1) kept_task [OF k(3)] show ?thesis by blast
qed

end
