(* ===== verification/Task_Props.thy ===== *)
theory Task_Props
  imports Task_Steps
begin

text \<open>
  The properties of the scheduler: creation, the invariant over all runs, what happens to the
  context of a task while it waits, and how long it waits.
\<close>

section \<open>Names\<close>

definition cstring :: "string \<Rightarrow> string" where
  "cstring s = takeWhile (\<lambda>c. c \<noteq> NUL) s"

lemma cstring_simps [simp]: "cstring [] = []" "cstring (c # s) = (if c = NUL then [] else c # cstring s)"
  by (simp_all add: cstring_def)

lemma set_name_loop:
  "i \<le> 15 \<Longrightarrow> length dest = 16 \<Longrightarrow>
     set_name_loop i src dest =
       take i dest @ take (15 - i) (cstring src) @ NUL # drop (Suc (i + length (take (15 - i) (cstring src)))) dest"
proof (induction i src dest rule: set_name_loop.induct)
  case (1 i src dest)
  show ?case
  proof (cases "chr0 src \<noteq> NUL \<and> i < 15")
    case True
    then obtain c cs where src: "src = c # cs" "c \<noteq> NUL" by (cases src) auto
    have "15 - i = Suc (14 - i)" using True by arith
    moreover have "take (Suc i) (dest[i := c]) = take i dest @ [c]"
      using True 1(3) by (simp add: take_Suc_conv_app_nth)
    ultimately show ?thesis
      using "1.IH" [OF True] True 1(3) src by (subst set_name_loop.simps) simp
  next
    case False
    then have t: "take (15 - i) (cstring src) = []" by (cases src) auto
    have "set_name_loop i src dest = dest[i := NUL]" by (subst set_name_loop.simps) (rule if_not_P [OF False])
    also have "dest[i := NUL] = take i dest @ NUL # drop (Suc i) dest"
      using 1(2,3) by (intro upd_conv_take_nth_drop) simp
    finally show ?thesis unfolding t by simp
  qed
qed

lemma set_name:
  assumes "length dest = 16"
  shows "length (set_name dest src) = 16" "cstring (set_name dest src) = take 15 (cstring src)"
proof -
  let ?t = "take 15 (cstring src)"
  have eq: "set_name dest src = ?t @ NUL # drop (Suc (length ?t)) dest"
    using set_name_loop [of 0 dest src] assms by (simp add: set_name_def)
  then show "length (set_name dest src) = 16" using assms by simp
  have "\<forall>c \<in> set ?t. c \<noteq> NUL" by (auto simp: cstring_def dest: in_set_takeD set_takeWhileD)
  then have "cstring (?t @ NUL # r) = ?t" for r
    unfolding cstring_def [of "?t @ NUL # r"] by (simp add: takeWhile_append2)
  then show "cstring (set_name dest src) = ?t" by (simp only: eq)
qed

section \<open>Creating a task\<close>

lemma free_slot:
  assumes "free_slot sc = Some sl"
  shows "0 < sl" "sl < 8" "state_of sc sl = TASK_UNUSED"
proof -
  obtain k where "k < length [1..<8]" "state_of sc ([1..<8] ! k) = TASK_UNUSED" "sl = [1..<8] ! k"
    using assms unfolding free_slot_def MAX_TASKS_def find_Some_iff by auto
  then show "0 < sl" "sl < 8" "state_of sc sl = TASK_UNUSED" by auto
qed

definition new_task :: "nat \<Rightarrow> u32 \<Rightarrow> u32 \<Rightarrow> string \<Rightarrow> task \<Rightarrow> task" where
  "new_task sl stack sp nm t = t\<lparr>esp := sp, stack_base := stack, task_id := of_nat sl, tstate := TASK_READY,
     slices := 0, counter := 0, name := set_name (name t) nm\<rparr>"

lemma fresh_write:
  assumes inv: "task_inv B bs s" and h: "heap_inv s1 bs1" and k: "kept bs s s1" and f: "fresh_block n p bs bs1"
    and n: "n = TASK_STACK_SIZE"
    and m: "\<And>x. unat x \<notin> block_bytes p TASK_STACK_SIZE \<Longrightarrow> m x = mem s1 x"
  shows "heap_inv (s1\<lparr>mem := m\<rparr>) bs1" "pool (s1\<lparr>mem := m\<rparr>) = pool s1" "unat p + 8192 < 2 ^ 32" "0xC0000000 \<le> unat p"
    "exists_task (sched s) i \<Longrightarrow> unat x \<in> stack_bytes B (sched s) i \<Longrightarrow> m x = mem s x"
proof -
  obtain l where l: "n \<le> l" "live bs1 p = Some l" "used_bytes bs1 = {unat p ..< unat p + unat l} \<union> used_bytes bs"
      "{unat p ..< unat p + unat l} \<inter> used_bytes bs = {}"
    using f by (auto simp: fresh_block_def)
  have t: "tiled 0xC0000000 bs1 (unat (brk (heap s1)))" "unat (brk (heap s1)) < 2 ^ 32"
    "unat (brk (heap s1)) \<le> 0xC0400000" "paging_inv s1"
    using h heap_inv_bounds [OF h] by (simp_all add: heap_inv_def)
  note lp = live_payload(2,3) [OF t(1,2) l(2)]
  have big: "8192 \<le> unat l" using l(1) by (simp add: n word_le_nat_alt TASK_STACK_SIZE_def)
  then show "unat p + 8192 < 2 ^ 32" "0xC0000000 \<le> unat p" using lp t(2) by simp_all
  have sub: "block_bytes p TASK_STACK_SIZE \<subseteq> {unat p ..< unat p + unat l}"
    using big by (auto simp: block_bytes_def TASK_STACK_SIZE_def)
  have eq: "m x = mem s1 x" if "frame_no x \<in> table_frames s1 \<or> 0xC0000000 \<le> unat x \<and> unat x \<notin> used_bytes bs1" for x
  proof (rule m)
    have "unat x < 2 ^ 24" if "frame_no x \<in> table_frames s1" using table_frames_low [OF t(4) that] .
    then have "unat x \<notin> {unat p ..< unat p + unat l}" using that lp(1) l(3) by auto
    then show "unat x \<notin> block_bytes p TASK_STACK_SIZE" using sub by blast
  qed
  show "heap_inv (s1\<lparr>mem := m\<rparr>) bs1" "pool (s1\<lparr>mem := m\<rparr>) = pool s1"
    using heap_inv_client [OF h eq] by (simp_all add: pool_def)
  show "m x = mem s x" if i: "exists_task (sched s) i" "unat x \<in> stack_bytes B (sched s) i"
  proof -
    have "mem s1 x = mem s x"
      using kept_stacks [OF inv k i(1) _ i(2)] stack_used [OF inv _ i(1)] by blast
    moreover have "unat x \<notin> {unat p ..< unat p + unat l}"
    proof (cases "i = 0")
      case True
      then have "unat x < 0xC0000000" using inv i(2) by (auto simp: task_inv_def boot_stack_ok_def stack_bytes_def)
      then show ?thesis using lp(1) by auto
    next
      case False
      then show ?thesis using stack_used [OF inv _ i(1)] i(2) l(4) by blast
    qed
    ultimately show ?thesis using m sub by (metis subsetD)
  qed
qed

lemma new_task_table:
  assumes "length (tasks sc) = 8" "sl < 8"
  shows "tasks (upd_task sl (new_task sl p sp nm) sc) ! j =
      (if j = sl then new_task sl p sp nm (tasks sc ! sl) else tasks sc ! j)"
    "state_of (upd_task sl (new_task sl p sp nm) sc) j = (if j = sl then TASK_READY else state_of sc j)"
proof -
  show t: "tasks (upd_task sl (new_task sl p sp nm) sc) ! j =
      (if j = sl then new_task sl p sp nm (tasks sc ! sl) else tasks sc ! j)"
    using assms by (simp add: nth_list_update)
  show "state_of (upd_task sl (new_task sl p sp nm) sc) j = (if j = sl then TASK_READY else state_of sc j)"
    unfolding state_of_def t by (simp add: new_task_def)
qed

lemma new_task_ok:
  assumes ok: "sched_ok sc" and sl: "0 < sl" "sl < 8" "state_of sc sl = TASK_UNUSED"
  shows "sched_ok (upd_task sl (new_task sl p sp nm) sc)"
proof -
  let ?sc = "upd_task sl (new_task sl p sp nm) sc"
  have len: "length (tasks sc) = 8" "length (name (tasks sc ! sl)) = 16"
    using ok sl(2) by (simp_all add: sched_ok_def)
  note t = new_task_table [OF len(1) sl(2), of p sp nm]
  have c: "current ?sc = current sc" "quantum_left ?sc = quantum_left sc" "length (tasks ?sc) = 8" "current sc \<noteq> sl"
    using ok sl(3) len by (auto simp: sched_ok_def)
  have 1: "task_id (tasks ?sc ! i) = of_nat i" if "i < 8" "state_of ?sc i \<noteq> TASK_UNUSED" for i
    using ok that unfolding t sched_ok_def by (cases "i = sl") (simp_all add: new_task_def)
  have 2: "length (name (tasks ?sc ! i)) = 16" if "i < 8" for i
    using ok that set_name(1) [OF len(2)] unfolding t sched_ok_def by (cases "i = sl") (simp_all add: new_task_def)
  have 3: "state_of ?sc i \<noteq> TASK_RUNNING" if "i < 8" "i \<noteq> current sc" for i
    using ok that unfolding t sched_ok_def by simp
  have 4: "runnable ?sc 0" using ok sl(1) unfolding runnable_def t sched_ok_def by simp
  have 5: "state_of ?sc (current sc) = state_of sc (current sc)" unfolding t using c(4) by simp
  have 6: "current sc < 8" "state_of sc (current sc) = TASK_RUNNING \<or> state_of sc (current sc) = TASK_DEAD"
    "1 \<le> unat (quantum_left sc)" "unat (quantum_left sc) \<le> 5" using ok by (simp_all add: sched_ok_def)
  show ?thesis unfolding sched_ok_def c 5
    by (intro conjI allI impI) (rule 1 2 3 4 6 refl; assumption)+
qed

lemma task_create_spec:
  assumes inv: "task_inv B bs s"
  shows "\<exists>r s' bs'. task_create ex nm en s = Some (r, s') \<and> task_inv B bs' s' \<and> stacks_kept B s s' \<and>
    current (sched s') = current (sched s) \<and> cpu s' = cpu s \<and>
    (if r = - 1 then sched s' = sched s \<and> bs' = bs \<and> (free_slot (sched s) = None \<or> (\<exists>t. kmalloc 8192 s = Some (0, t)))
     else \<exists>sl p k sp. r = int sl \<and> free_slot (sched s) = Some sl \<and>
       (\<exists>t. kmalloc 8192 s = Some (p, t)) \<and> sp = p + 8148 \<and> live bs p = None \<and> live bs' = (live bs)(p \<mapsto> k) \<and>
       8192 \<le> unat k \<and> unat p + 8192 < 2 ^ 32 \<and> sched s' = upd_task sl (new_task sl p sp nm) (sched s) \<and>
       restore_context (mem s') sp = \<lparr>eax = 0, ecx = 0, edx = 0, ebx = 0, cpu_esp = p + 8188, ebp = 0,
         esi = 0, edi = 0, eflags = 0x202, eip = en\<rparr> \<and> ld32 (mem s') (p + 8188) = ex)"
proof (cases "free_slot (sched s)")
  case None
  then have "task_create ex nm en s = Some (- 1, s)" by (simp add: task_create_def)
  then show ?thesis using inv None by (intro exI [of _ "- 1"] exI [of _ s] exI [of _ bs]) simp
next
  case (Some sl)
  note sl = free_slot [OF Some]
  have al: "align8 8192 = 8192" by (simp add: align8_def)
  have sz: "TASK_STACK_SIZE \<noteq> 0" "unat TASK_STACK_SIZE \<le> 0x3EFFFFF8" by (simp_all add: TASK_STACK_SIZE_def)
  obtain p s1 bs1 where k: "kmalloc TASK_STACK_SIZE s = Some (p, s1)" "task_inv B bs1 s1" "kept bs s s1"
    "sched s1 = sched s" "cpu s1 = cpu s"
    "\<forall>i x. exists_task (sched s) i \<and> unat x \<in> stack_bytes B (sched s) i \<longrightarrow> mem s1 x = mem s x"
    "p \<noteq> 0 \<longrightarrow> fresh_block (align8 TASK_STACK_SIZE) p bs bs1" "p = 0 \<longrightarrow> bs1 = bs"
    using kmalloc_task [OF inv sz] by blast
  show ?thesis
  proof (cases "p = 0")
    case True
    have "task_create ex nm en s = Some (- 1, s1)" using Some k(1) True by (simp add: task_create_def)
    moreover have "stacks_kept B s s1" using k(4,6) by (intro stacks_kept_mem) blast+
    ultimately show ?thesis
      using k True by (intro exI [of _ "- 1"] exI [of _ s1] exI [of _ bs1]) (simp add: TASK_STACK_SIZE_def)
  next
    case False
    then have f: "fresh_block TASK_STACK_SIZE p bs bs1" using k(7) al by (simp add: TASK_STACK_SIZE_def)
    obtain sp m where cr: "craft_stack ex en p (mem s1) = (sp, m)" by fastforce
    let ?sc = "upd_task sl (new_task sl p sp nm) (sched s)"
    define s' where "s' = s1\<lparr>mem := m, sched := ?sc\<rparr>"
    have create: "task_create ex nm en s = Some (int sl, s')"
      using Some k(1,4) False cr by (simp add: task_create_def on_sched_def new_task_def [abs_def] s'_def)
    have h1: "heap_inv s1 bs1" using k(2) by (simp add: task_inv_def)
    have p32: "unat p + 8192 < 2 ^ 32" "0xC0000000 \<le> unat p"
      using fresh_write(3,4) [OF inv h1 k(3) f refl, of "mem s1"] by simp_all
    note cs = craft_stack [OF cr p32(1)]
    have out: "m x = mem s1 x" if "unat x \<notin> block_bytes p TASK_STACK_SIZE" for x
      using that cs(1) p32 by (intro cs(2)) (auto simp: block_bytes_def TASK_STACK_SIZE_def)
    have fw: "heap_inv (s1\<lparr>mem := m\<rparr>) bs1" "pool (s1\<lparr>mem := m\<rparr>) = pool s1"
      using fresh_write(1,2) [OF inv h1 k(3) f refl, of m] out by blast+
    have own: "m x = mem s x" if "exists_task (sched s) i" "unat x \<in> stack_bytes B (sched s) i" for i x
      using fresh_write(5) [OF inv h1 k(3) f refl _ that, of m] out by blast
    obtain l where l: "TASK_STACK_SIZE \<le> l" "live bs p = None" "live bs1 = (live bs)(p \<mapsto> l)"
      using f by (auto simp: fresh_block_def)
    have ok: "sched_ok (sched s)" "stacks_ok (live bs) (sched s)" "contexts_ok B (sched s)"
      using inv by (simp_all add: task_inv_def)
    have len: "length (tasks (sched s)) = 8" using ok(1) by (simp add: sched_ok_def)
    note t = new_task_table(1) [OF len sl(2), of p sp nm] and st = new_task_table(2) [OF len sl(2), of p sp nm]
    have ex: "exists_task ?sc j \<longleftrightarrow> j = sl \<or> exists_task (sched s) j" for j
      using sl(2) unfolding exists_task_def st by auto
    have nsl: "\<not> exists_task (sched s) sl" using sl(3) by (simp add: exists_task_def)
    have csl: "current (sched s) \<noteq> sl" using ok(1) sl(3) by (auto simp: sched_ok_def)
    have "sched_ok ?sc" using new_task_ok [OF ok(1) sl] .
    moreover have pne: "stack_base (tasks (sched s) ! j) \<noteq> p" if j: "0 < j" "exists_task (sched s) j" for j
    proof
      obtain n where "live bs (stack_base (tasks (sched s) ! j)) = Some n" "TASK_STACK_SIZE \<le> n"
        using stacks_okD [OF ok(2) j] .
      then show "stack_base (tasks (sched s) ! j) = p \<Longrightarrow> False" using l(2) by simp
    qed
    have "stacks_ok (live bs1) ?sc"
      unfolding stacks_ok_def
    proof (intro conjI allI impI)
      fix j assume j: "0 < j \<and> exists_task ?sc j"
      show "\<exists>n. live bs1 (stack_base (tasks ?sc ! j)) = Some n \<and> TASK_STACK_SIZE \<le> n"
      proof (cases "j = sl")
        case True
        then show ?thesis using l by (simp only: t) (simp add: new_task_def)
      next
        case False
        then have "exists_task (sched s) j" using j ex by blast
        then obtain n where "live bs (stack_base (tasks (sched s) ! j)) = Some n" "TASK_STACK_SIZE \<le> n"
          using stacks_okD [OF ok(2)] j by blast
        with pne [of j] j l(3) False \<open>exists_task (sched s) j\<close> show ?thesis unfolding t by simp
      qed
    next
      fix i j assume ij: "0 < i \<and> exists_task ?sc i \<and> 0 < j \<and> exists_task ?sc j \<and> i \<noteq> j"
      show "stack_base (tasks ?sc ! i) \<noteq> stack_base (tasks ?sc ! j)"
        using ij pne [of i] pne [of j] ok(2) unfolding ex t stacks_ok_def by (auto simp: new_task_def)
    qed
    moreover have "contexts_ok B ?sc"
      unfolding contexts_ok_def
    proof (intro allI impI)
      fix j assume j: "j < 8" "j \<noteq> current ?sc \<and> state_of ?sc j = TASK_READY"
      show "unat (esp (tasks ?sc ! j)) + 40 \<le> 2 ^ 32 \<and>
        {unat (esp (tasks ?sc ! j)) ..< unat (esp (tasks ?sc ! j)) + 40} \<subseteq> stack_bytes B ?sc j"
      proof (cases "j = sl")
        case True
        have "stack_bytes B ?sc sl = block_bytes p TASK_STACK_SIZE" "esp (tasks ?sc ! sl) = sp"
          using sl(1) unfolding stack_bytes_def t by (simp_all add: new_task_def)
        then show ?thesis using True cs(1) p32(1) by (auto simp: block_bytes_def TASK_STACK_SIZE_def)
      next
        case False
        then have "state_of (sched s) j = TASK_READY" "j \<noteq> current (sched s)" using j st by simp_all
        note cx = contexts_okD [OF ok(3) j(1) this(2,1)]
        have tj: "tasks ?sc ! j = tasks (sched s) ! j" using False t by simp
        show ?thesis using cx stack_bytes_cong [of ?sc j "sched s" B] unfolding tj by simp
      qed
    qed
    moreover have "boot_stack_ok B s'"
      using inv boot_stack_mono [of B s s'] kept_pool [OF k(3)] fw(2) by (simp add: task_inv_def s'_def)
    ultimately have "task_inv B bs1 s'" using fw(1) by (simp add: task_inv_def s'_def)
    moreover have "stacks_kept B s s'"
      unfolding stacks_kept_def
    proof (intro allI impI, elim conjE)
      fix i assume "i < 8" "state_of (sched s) i = TASK_READY"
      then have e: "exists_task (sched s) i" by (simp add: exists_task_def)
      then have "i \<noteq> sl" using nsl by blast
      then have "tasks (sched s') ! i = tasks (sched s) ! i" by (simp add: s'_def)
      with own [OF e] show "esp (tasks (sched s') ! i) = esp (tasks (sched s) ! i) \<and>
        stack_base (tasks (sched s') ! i) = stack_base (tasks (sched s) ! i) \<and>
        (\<forall>x. unat x \<in> stack_bytes B (sched s) i \<longrightarrow> mem s' x = mem s x)" by (simp add: s'_def)
    qed
    moreover have "sp = p + 8148" using cs(1) p32(1) by (simp add: word_unat_eq_iff)
    moreover have "\<exists>t. kmalloc 8192 s = Some (p, t)" using k(1) by (simp add: TASK_STACK_SIZE_def)
    moreover have "8192 \<le> unat l" using l(1) by (simp add: TASK_STACK_SIZE_def word_le_nat_alt)
    moreover have "mem s' = m" "sched s' = ?sc" "cpu s' = cpu s" by (simp_all add: s'_def k(5))
    ultimately show ?thesis
      using create Some l(2,3) p32(1) cs(3,4)
      by (intro exI [of _ "int sl"] exI [of _ s'] exI [of _ bs1]) auto
  qed
qed

end
