(* ===== verification/Task_Runs.thy ===== *)
theory Task_Runs
  imports Task_Props
begin

text \<open>
  Runs of the scheduler. \<open>kstep\<close> collects everything that can happen to the task table between two
  moments of a run: the current task's own code works on its registers and its stack, the timer
  ticks, a task yields, exits, counts, creates or kills a task, or uses the heap. The first argument
  is the set of bytes of the boot stack, on which task 0 runs; the second the address of \<^verbatim>\<open>task_exit\<close>;
  the third is \<open>True\<close> for a timer tick. The theorems: the invariant holds in every run from boot;
  a task that is switched away resumes with its registers, its flags and its stack as they were,
  whatever ran in between; a ready task waits at most 34 ticks.
\<close>

section \<open>Steps\<close>

definition is_stack :: "sched_state \<Rightarrow> u32 \<Rightarrow> bool" where
  "is_stack sc p \<longleftrightarrow> (\<exists>i. 0 < i \<and> exists_task sc i \<and> stack_base (tasks sc ! i) = p)"

inductive kstep :: "nat set \<Rightarrow> u32 \<Rightarrow> bool \<Rightarrow> 'a task_layer_scheme \<Rightarrow> 'a task_layer_scheme \<Rightarrow> bool" for B ex where
  Run: "(\<And>x. unat x \<notin> stack_bytes B (sched s) (current (sched s)) \<Longrightarrow> m x = mem s x) \<Longrightarrow>
    kstep B ex False s (s\<lparr>mem := m, cpu := c\<rparr>)"
| Tick: "room B s \<Longrightarrow> scheduler_tick s = Some s' \<Longrightarrow> kstep B ex True s s'"
| Yield: "room B s \<Longrightarrow> kstep B ex False s (task_yield s)"
| Exit: "current (sched s) \<noteq> 0 \<Longrightarrow> kstep B ex False s (task_exit s)"
| Kill: "kstep B ex False s (snd (task_kill tid s))"
| Create: "task_create ex nm en s = Some (r, s') \<Longrightarrow> kstep B ex False s s'"
| Count: "kstep B ex False s (counter_task (current (sched s)) s)"
| Enable: "kstep B ex False s (scheduler_enable on s)"
| Malloc: "sz \<noteq> 0 \<Longrightarrow> unat sz \<le> 0x3EFFFFF8 \<Longrightarrow> kmalloc sz s = Some (p, s') \<Longrightarrow> kstep B ex False s s'"
| Free: "heap_rep s L \<Longrightarrow> L p = Some n \<Longrightarrow> \<not> is_stack (sched s) p \<Longrightarrow> kfree p s = Some (ok, s') \<Longrightarrow>
    kstep B ex False s s'"

inductive_cases kstep_tick: "kstep B ex True s s'"

lemma kstep_inv:
  assumes "kstep B ex b s s'" "task_inv B bs s"
  shows "\<exists>bs'. task_inv B bs' s' \<and> stacks_kept B s s'"
  using assms(1)
proof cases
  case (Run m c)
  have ex: "exists_task (sched s) (current (sched s))"
    using assms(2) current_exists by (simp add: task_inv_def)
  have m: "\<And>x. unat x \<notin> stack_bytes B (sched s) (current (sched s)) \<Longrightarrow> m x = mem s x" using Run by blast
  have "heap_inv (s\<lparr>mem := m\<rparr>) bs" "pool (s\<lparr>mem := m\<rparr>) = pool s"
    using own_stack_write(1,2) [OF assms(2) ex, of m] m by blast+
  then have "task_inv B bs s'" using assms(2) Run by (simp add: task_inv_def boot_stack_ok_def)
  moreover have "m x = mem s x" if "i < 8" "i \<noteq> current (sched s)" "state_of (sched s) i = TASK_READY"
      "unat x \<in> stack_bytes B (sched s) i" for i x
    using own_stack_write(3) [OF assms(2) ex, of m i x] m that by (simp add: exists_task_def)
  then have "stacks_kept B s s'" using Run by (simp add: stacks_kept_def)
  ultimately show ?thesis by blast
next
  case Tick
  then show ?thesis using scheduler_tick_inv [OF assms(2)] by auto
next
  case Yield
  then show ?thesis using task_yield_inv [OF assms(2)] by blast
next
  case Exit
  then show ?thesis using task_exit_inv [OF assms(2)] by blast
next
  case (Kill tid)
  then show ?thesis using task_kill_inv [OF assms(2)] by blast
next
  case (Create nm en r)
  then show ?thesis using task_create_spec [OF assms(2), of ex nm en] by auto
next
  case Count
  then show ?thesis using counter_task_inv [OF assms(2)] by blast
next
  case (Enable on)
  then show ?thesis using scheduler_enable_inv [OF assms(2)] by blast
next
  case (Malloc sz p)
  obtain p' t bs' where t: "kmalloc sz s = Some (p', t)" "task_inv B bs' t" "sched t = sched s"
    "\<forall>i x. exists_task (sched s) i \<and> unat x \<in> stack_bytes B (sched s) i \<longrightarrow> mem t x = mem s x"
    using kmalloc_task [OF assms(2) Malloc(2,3)] by blast
  have "stacks_kept B s t" using t(3,4) by (intro stacks_kept_mem) blast+
  then show ?thesis using t(1,2) Malloc(4) by auto
next
  case (Free L p n ok)
  have "heap_rep s (live bs)" using assms(2) by (auto simp: task_inv_def heap_rep_def)
  then have "live bs p = Some n" using heap_rep_unique Free(2,3) by metis
  from kfree_task [OF assms(2) this] Free(4,5) show ?thesis unfolding is_stack_def by auto
qed

lemma ksteps_inv:
  "(\<lambda>s s'. \<exists>b. kstep B ex b s s')\<^sup>*\<^sup>* s s' \<Longrightarrow> task_inv B bs s \<Longrightarrow> \<exists>bs'. task_inv B bs' s'"
  by (induction rule: rtranclp_induct) (blast dest: kstep_inv)+

section \<open>Boot\<close>

lemma scheduler_init_inv:
  assumes h: "heap_inv s bs" and B: "boot_stack_ok B s" and sc: "sched s = sched_boot"
  shows "task_inv B bs (scheduler_init s)" "current (sched (scheduler_init s)) = 0"
    "i < 8 \<Longrightarrow> state_of (sched (scheduler_init s)) i = (if i = 0 then TASK_RUNNING else TASK_UNUSED)"
    "cpu (scheduler_init s) = cpu s" "mem (scheduler_init s) = mem s" "enabled (sched (scheduler_init s)) = 1"
    "quantum_left (sched (scheduler_init s)) = 5"
proof -
  have keep: "foldl (\<lambda>sc i. upd_task i (\<lambda>t. t\<lparr>tstate := TASK_UNUSED\<rparr>) sc) sched_boot is = sched_boot" for "is"
  proof (induction "is")
    case (Cons i ns)
    have "upd_task i (\<lambda>t. t\<lparr>tstate := TASK_UNUSED\<rparr>) sched_boot = sched_boot"
      by (cases "i < 8") (simp_all add: upd_task_def sched_boot_def zero_task_def MAX_TASKS_def list_update_beyond
          list_update_same_conv)
    with Cons show ?case by simp
  qed simp
  define t0 where "t0 = zero_task\<lparr>task_id := 0, tstate := TASK_RUNNING, stack_base := 0, esp := 0,
                  slices := 1, counter := 0, name := set_name (name zero_task) ''kernel''\<rparr>"
  have sch: "sched (scheduler_init s) = \<lparr>tasks = t0 # replicate 7 zero_task, current = 0, enabled = 1, switches = 0,
      quantum_left = 5\<rparr>"
    by (simp add: scheduler_init_def sc keep) (simp add: upd_task_def sched_boot_def MAX_TASKS_def t0_def TASK_QUANTUM_def
        numeral_eq_Suc)
  then have st: "tasks (sched (scheduler_init s)) ! j = (if j = 0 then t0 else replicate 7 zero_task ! (j - 1))" for j
    by (simp add: nth_Cons')
  have z: "replicate 7 zero_task ! (j - 1) = zero_task" if "0 < j" "j < 8" for j
    using that by (intro nth_replicate) simp
  have s0: "state_of (sched (scheduler_init s)) j = (if j = 0 then TASK_RUNNING else TASK_UNUSED)" if "j < 8" for j
    using z [of j] that by (simp add: state_of_def st t0_def) (simp add: zero_task_def)
  have nm: "length (name zero_task) = 16" by (simp add: zero_task_def)
  have nm: "length (name (tasks (sched (scheduler_init s)) ! j)) = 16" if "j < 8" for j
    using z [of j] that set_name(1) [OF nm] nm by (simp add: st t0_def)
  have f: "length (tasks (sched (scheduler_init s))) = 8" "current (sched (scheduler_init s)) = 0"
    "quantum_left (sched (scheduler_init s)) = 5" "task_id (tasks (sched (scheduler_init s)) ! 0) = 0"
    by (simp_all add: sch t0_def)
  have "task_id (tasks (sched (scheduler_init s)) ! j) = of_nat j"
    if "j < 8" "state_of (sched (scheduler_init s)) j \<noteq> TASK_UNUSED" for j
    using s0 [OF that(1)] that(2) f(4) by (cases "j = 0") simp_all
  then have "sched_ok (sched (scheduler_init s))"
    unfolding sched_ok_def runnable_def f using nm s0 by simp
  moreover have "\<not> exists_task (sched (scheduler_init s)) j" if "0 < j" for j
    using that s0 by (simp add: exists_task_def)
  then have "stacks_ok (live bs) (sched (scheduler_init s))" unfolding stacks_ok_def by blast
  moreover have "contexts_ok B (sched (scheduler_init s))"
    using s0 by (simp add: contexts_ok_def f)
  moreover have "boot_stack_ok B (scheduler_init s)" "heap_inv (scheduler_init s) bs"
    using h B by (simp_all add: scheduler_init_def boot_stack_ok_def)
  ultimately show "task_inv B bs (scheduler_init s)" by (simp add: task_inv_def)
  show "current (sched (scheduler_init s)) = 0" "enabled (sched (scheduler_init s)) = 1"
    "quantum_left (sched (scheduler_init s)) = 5" by (simp_all add: sch)
  show "cpu (scheduler_init s) = cpu s" "mem (scheduler_init s) = mem s" by (simp_all add: scheduler_init_def)
  show "state_of (sched (scheduler_init s)) i = (if i = 0 then TASK_RUNNING else TASK_UNUSED)" if "i < 8"
    using s0 that by blast
qed

section \<open>Leaving and resuming\<close>

text \<open>Only a tick or a yield changes the current task, and both do it through \<open>switch_to\<close>.\<close>

definition undisturbed :: "nat set \<Rightarrow> 'a task_layer_scheme \<Rightarrow> 'a task_layer_scheme \<Rightarrow> bool" where
  "undisturbed B s t \<longleftrightarrow> cpu t = cpu s \<and> current (sched t) = current (sched s) \<and>
     (\<forall>i < 8. i = current (sched s) \<or> state_of (sched s) i = TASK_READY \<or> state_of (sched t) i = TASK_READY \<longrightarrow>
        tasks (sched t) ! i = tasks (sched s) ! i \<and>
        (\<forall>x. unat x \<in> stack_bytes B (sched s) i \<longrightarrow> mem t x = mem s x))"

lemma reaped_undisturbed:
  assumes r: "reaped B is s t" and ok: "sched_ok (sched s)"
  shows "undisturbed B s t"
  unfolding undisturbed_def
proof (intro conjI allI impI)
  fix i assume i: "i < 8" "i = current (sched s) \<or> state_of (sched s) i = TASK_READY \<or> state_of (sched t) i = TASK_READY"
  then have nd: "i \<notin> dead_slots is (sched s)" using reaped_state [OF r i(1)] by (auto simp: dead_slots_def split: if_splits)
  then show "tasks (sched t) ! i = tasks (sched s) ! i" using r i(1) by (simp add: reaped_def)
  then have "state_of (sched t) i = state_of (sched s) i" by (simp add: state_of_def)
  then have "exists_task (sched s) i" using i current_exists [OF ok] by (auto simp: exists_task_def)
  then show "mem t x = mem s x" if "unat x \<in> stack_bytes B (sched s) i" for x
    using r nd that unfolding reaped_def by blast
qed (use r in \<open>simp_all add: reaped_def\<close>)

lemma switch_to_moves:
  assumes inv: "task_inv B bs t" and moved: "current (sched (switch_to (pick_next (sched t)) t)) \<noteq> current (sched t)"
  obtains nxt where "pick_next (sched t) = Some nxt" "runnable (sched t) nxt" "nxt < 8" "nxt \<noteq> current (sched t)"
proof -
  have ok: "sched_ok (sched t)" using inv by (simp add: task_inv_def)
  obtain j where j: "pick_next (sched t) = Some j" "j < 8" "runnable (sched t) j" using pick_next_runs [OF ok] .
  have "j \<noteq> current (sched t)" using moved unfolding j(1) by (auto simp: switch_to_def)
  with j show thesis by (intro that)
qed

lemma kstep_same_table:
  assumes "kstep B ex b s s'" "task_inv B bs s" "current (sched s') \<noteq> current (sched s)"
  obtains t nxt bs' where "task_inv B bs' t" "room B t" "undisturbed B s t" "runnable (sched t) nxt" "nxt < 8"
    "nxt \<noteq> current (sched t)" "pick_next (sched t) = Some nxt" "s' = switch_to (Some nxt) t"
  using assms(1)
proof cases
  case Tick
  show thesis
  proof (cases "enabled (sched s) = 0")
    case True
    then have "s' = s" using Tick(3) by (simp add: scheduler_tick_def)
    then show thesis using assms(3) by simp
  next
    case False
    obtain t bs' where "reap s = Some t" and t: "task_inv B bs' t" "room B t" "reaped B [1..<8] s t"
      and "live bs' = live bs |` (- (\<lambda>i. stack_base (tasks (sched s) ! i)) ` dead_slots [1..<8] (sched s))"
      and t4: "scheduler_tick s = Some (if quantum_left (sched s) > 1
        then on_sched (\<lambda>sc. sc\<lparr>quantum_left := quantum_left sc - 1\<rparr>) t
        else switch_to (pick_next (sched t)) t)"
      using scheduler_tick_spec [OF assms(2) Tick(2) False] .
    have u: "undisturbed B s t" using t(3) assms(2) by (intro reaped_undisturbed) (simp_all add: task_inv_def)
    then have "current (sched t) = current (sched s)" by (simp add: undisturbed_def)
    moreover from this have "\<not> quantum_left (sched s) > 1" using t4 Tick(3) assms(3) by auto
    then have s': "s' = switch_to (pick_next (sched t)) t" using t4 Tick(3) by simp
    ultimately have "current (sched (switch_to (pick_next (sched t)) t)) \<noteq> current (sched t)" using assms(3) by simp
    then obtain nxt where "pick_next (sched t) = Some nxt" "runnable (sched t) nxt" "nxt < 8" "nxt \<noteq> current (sched t)"
      by (rule switch_to_moves [OF t(1)])
    with t(1,2) u s' show thesis by (intro that) simp_all
  qed
next
  case Yield
  then have s': "s' = switch_to (pick_next (sched s)) s" using assms(3) by (auto simp: task_yield_def split: if_splits)
  then have "current (sched (switch_to (pick_next (sched s)) s)) \<noteq> current (sched s)" using assms(3) by simp
  then obtain nxt where "pick_next (sched s) = Some nxt" "runnable (sched s) nxt" "nxt < 8" "nxt \<noteq> current (sched s)"
    by (rule switch_to_moves [OF assms(2)])
  moreover have "undisturbed B s s" by (simp add: undisturbed_def)
  ultimately show thesis using assms(2) Yield s' by (intro that [of bs s nxt]) auto
next
  case Exit
  with task_exit_inv(3) [OF assms(2)] assms(3) show thesis by simp
next
  case (Kill tid)
  with task_kill_inv(3) [OF assms(2)] assms(3) show thesis by simp
next
  case (Create nm en r)
  with task_create_spec [OF assms(2), of ex nm en] assms(3) show thesis by auto
next
  case (Malloc sz p)
  with kmalloc_task [OF assms(2) Malloc(2,3)] assms(3) show thesis by auto
next
  case (Free L p n ok)
  have "heap_rep s (live bs)" using assms(2) by (auto simp: task_inv_def heap_rep_def)
  then have "live bs p = Some n" using heap_rep_unique Free(2,3) by metis
  moreover have "stack_base (tasks (sched s) ! i) \<noteq> p" if "0 < i" "exists_task (sched s) i" for i
    using Free(4) that by (auto simp: is_stack_def)
  ultimately show thesis using kfree_task [OF assms(2), of p n] Free(5) assms(3) by auto
qed (use assms(3) in \<open>simp_all add: counter_task_def scheduler_enable_def\<close>)

lemma switch_away:
  assumes "kstep B ex b s s'" "task_inv B bs s" "state_of (sched s) (current (sched s)) = TASK_RUNNING"
    and "current (sched s') \<noteq> current (sched s)"
  shows "state_of (sched s') (current (sched s)) = TASK_READY"
    "restore_context (mem s') (esp (tasks (sched s') ! current (sched s))) =
      (cpu s)\<lparr>cpu_esp := cpu_esp (cpu s) + 4, eip := ld32 (mem s) (cpu_esp (cpu s))\<rparr>"
    "stack_base (tasks (sched s') ! current (sched s)) = stack_base (tasks (sched s) ! current (sched s))"
    "unat x \<in> stack_bytes B (sched s) (current (sched s)) \<Longrightarrow> unat (cpu_esp (cpu s)) \<le> unat x \<Longrightarrow> mem s' x = mem s x"
proof -
  let ?c = "current (sched s)"
  obtain t nxt bs' where t: "task_inv B bs' t" "room B t" "undisturbed B s t" "runnable (sched t) nxt" "nxt < 8"
    "nxt \<noteq> current (sched t)" "pick_next (sched t) = Some nxt" "s' = switch_to (Some nxt) t"
    by (rule kstep_same_table [OF assms(1,2,4)])
  obtain sp m where sv: "save_context (cpu t) (mem t) = (sp, m)" "unat sp = unat (cpu_esp (cpu t)) - 36"
    "\<And>x. unat x \<notin> stack_bytes B (sched t) (current (sched t)) \<Longrightarrow> m x = mem t x"
    "switch_to (Some nxt) t = t\<lparr>mem := m,
       sched := upd_task (current (sched t)) (\<lambda>t. t\<lparr>esp := sp\<rparr>) (switched nxt (sched t)),
       cpu := restore_context m (esp (tasks (sched t) ! nxt))\<rparr>"
    using switch_to_sched [OF t(1,2,4,5,6)] by metis
  have ok: "sched_ok (sched s)" "sched_ok (sched t)" using assms(2) t(1) by (simp_all add: task_inv_def)
  have c8: "?c < 8" "length (tasks (sched t)) = 8" using ok by (simp_all add: sched_ok_def)
  have u: "cpu t = cpu s" "current (sched t) = ?c" "tasks (sched t) ! ?c = tasks (sched s) ! ?c"
    "\<And>x. unat x \<in> stack_bytes B (sched s) ?c \<Longrightarrow> mem t x = mem s x"
    using t(3) c8(1) by (simp_all add: undisturbed_def)
  note tb = switched_table [OF c8(2) c8(1) [folded u(2)] t(5,6), unfolded u(2)]
  have st: "state_of (sched t) ?c = TASK_RUNNING" using assms(3) u(3) by (simp add: state_of_def)
  have r: "36 \<le> unat (cpu_esp (cpu s))" "unat (cpu_esp (cpu s)) + 4 \<le> 2 ^ 32"
    "{unat (cpu_esp (cpu s)) - 36 ..< unat (cpu_esp (cpu s)) + 4} \<subseteq> stack_bytes B (sched t) ?c"
    using t(2) u(1,2) by (simp_all add: room_def Let_def)
  have sb: "stack_bytes B (sched t) ?c = stack_bytes B (sched s) ?c" using u(3) by (intro stack_bytes_cong) simp
  note sc = save_context [OF sv(1) [unfolded u(1)] r(1,2)]
  have s': "sched s' = upd_task ?c (\<lambda>t. t\<lparr>esp := sp\<rparr>) (switched nxt (sched t))" "mem s' = m"
    using t(8) sv(4) u(2) by simp_all
  have e: "esp (tasks (sched s') ! ?c) = sp" using c8(1) tb(2) by (simp add: s'(1))
  show "state_of (sched s') ?c = TASK_READY" using st t(6) u(2) tb(5) [of ?c] by (simp add: s'(1) state_of_def upd_fields)
  have "ld32 (mem t) (cpu_esp (cpu s)) = ld32 (mem s) (cpu_esp (cpu s))"
  proof (rule ld32_cong)
    fix x :: u32
    assume "unat (cpu_esp (cpu s)) \<le> unat x" "unat x < unat (cpu_esp (cpu s)) + 4"
    then have "unat x \<in> stack_bytes B (sched s) ?c" using r(3) sb by auto
    then show "mem t x = mem s x" by (rule u(4))
  qed (use r(2) in simp)
  then show "restore_context (mem s') (esp (tasks (sched s') ! ?c)) =
      (cpu s)\<lparr>cpu_esp := cpu_esp (cpu s) + 4, eip := ld32 (mem s) (cpu_esp (cpu s))\<rparr>"
    using sc(3) unfolding e s'(2) by simp
  show "stack_base (tasks (sched s') ! ?c) = stack_base (tasks (sched s) ! ?c)"
    using tb(7) u(3) by (simp add: s'(1) upd_fields)
  show "mem s' x = mem s x" if "unat x \<in> stack_bytes B (sched s) ?c" "unat (cpu_esp (cpu s)) \<le> unat x"
    using sc(2) [of x] that u(4) by (simp add: s'(2))
qed

lemma switch_back:
  assumes "kstep B ex b s s'" "task_inv B bs s" "current (sched s') = i" "i \<noteq> current (sched s)" "i < 8"
  shows "state_of (sched s) i = TASK_READY" "cpu s' = restore_context (mem s) (esp (tasks (sched s) ! i))"
    "state_of (sched s') i = TASK_RUNNING"
proof -
  obtain t nxt bs' where t: "task_inv B bs' t" "room B t" "undisturbed B s t" "runnable (sched t) nxt" "nxt < 8"
    "nxt \<noteq> current (sched t)" "pick_next (sched t) = Some nxt" "s' = switch_to (Some nxt) t"
    using assms by (elim kstep_same_table) auto
  note sw = switch_to_inv [OF t(1,2,4,5,6)]
  have i: "nxt = i" using sw(3) assms(3) t(8) by simp
  have "sched_ok (sched t)" using t(1) by (simp add: task_inv_def)
  then have "state_of (sched t) i = TASK_READY" using t(4,6) assms(5) i by (auto simp: sched_ok_def runnable_def)
  then have u: "tasks (sched t) ! i = tasks (sched s) ! i"
    "\<And>x. unat x \<in> stack_bytes B (sched s) i \<Longrightarrow> mem t x = mem s x"
    using t(3) assms(5) by (auto simp: undisturbed_def)
  then show rs: "state_of (sched s) i = TASK_READY"
    using \<open>state_of (sched t) i = TASK_READY\<close> by (simp add: state_of_def)
  have "contexts_ok B (sched s)" using assms(2) by (simp add: task_inv_def)
  note cx = contexts_okD [OF this assms(5,4) rs]
  have "restore_context (mem t) (esp (tasks (sched s) ! i)) = restore_context (mem s) (esp (tasks (sched s) ! i))"
    using cx by (intro restore_context_cong u(2)) auto
  then show "cpu s' = restore_context (mem s) (esp (tasks (sched s) ! i))"
    using sw(4) t(8) i u(1) by simp
  have "sched_ok (sched t)" using t(1) by (simp add: task_inv_def)
  then have l: "length (tasks (sched t)) = 8" "current (sched t) < 8" by (simp_all add: sched_ok_def)
  obtain sp m where "switch_to (Some nxt) t = t\<lparr>mem := m,
       sched := upd_task (current (sched t)) (\<lambda>t. t\<lparr>esp := sp\<rparr>) (switched nxt (sched t)),
       cpu := restore_context m (esp (tasks (sched t) ! nxt))\<rparr>"
    using switch_to_sched [OF t(1,2,4,5,6)] by metis
  then have "sched s' = upd_task (current (sched t)) (\<lambda>t. t\<lparr>esp := sp\<rparr>) (switched nxt (sched t))" using t(8) by simp
  moreover have "state_of (switched nxt (sched t)) nxt = TASK_RUNNING"
    using switched_table(5) [OF l t(5,6), of nxt] by simp
  ultimately show "state_of (sched s') i = TASK_RUNNING" by (simp add: state_of_def upd_fields i)
qed

text \<open>Steps of the others while task \<open>i\<close> waits.\<close>

definition away :: "nat set \<Rightarrow> u32 \<Rightarrow> nat \<Rightarrow> 'a task_layer_scheme \<Rightarrow> 'a task_layer_scheme \<Rightarrow> bool" where
  "away B ex i s s' \<longleftrightarrow>
     (\<exists>b. kstep B ex b s s') \<and> current (sched s') \<noteq> i \<and> state_of (sched s') i = TASK_READY"

lemma away_keeps:
  assumes "(away B ex i)\<^sup>*\<^sup>* s s'" "task_inv B bs s" "i < 8" "i \<noteq> current (sched s)" "state_of (sched s) i = TASK_READY"
  shows "\<exists>bs'. task_inv B bs' s' \<and> i \<noteq> current (sched s') \<and> state_of (sched s') i = TASK_READY \<and>
    esp (tasks (sched s') ! i) = esp (tasks (sched s) ! i) \<and>
    stack_base (tasks (sched s') ! i) = stack_base (tasks (sched s) ! i) \<and>
    (\<forall>x. unat x \<in> stack_bytes B (sched s) i \<longrightarrow> mem s' x = mem s x)"
  using assms(1)
proof (induction rule: rtranclp_induct)
  case base
  show ?case using assms(2-) by blast
next
  case (step t u)
  then obtain bs' where t: "task_inv B bs' t" "i \<noteq> current (sched t)" "state_of (sched t) i = TASK_READY"
    "esp (tasks (sched t) ! i) = esp (tasks (sched s) ! i)"
    "stack_base (tasks (sched t) ! i) = stack_base (tasks (sched s) ! i)"
    "\<forall>x. unat x \<in> stack_bytes B (sched s) i \<longrightarrow> mem t x = mem s x" by blast
  from step(2) obtain b where u: "kstep B ex b t u" "current (sched u) \<noteq> i" "state_of (sched u) i = TASK_READY"
    by (auto simp: away_def)
  obtain bs'' where k: "task_inv B bs'' u" "stacks_kept B t u" using kstep_inv [OF u(1) t(1)] by blast
  have "runnable (sched u) i" using u(3) by (simp add: runnable_def)
  then have "esp (tasks (sched u) ! i) = esp (tasks (sched t) ! i)"
    "stack_base (tasks (sched u) ! i) = stack_base (tasks (sched t) ! i)"
    "\<forall>x. unat x \<in> stack_bytes B (sched t) i \<longrightarrow> mem u x = mem t x"
    using k(2) assms(3) t(2,3) by (simp_all add: stacks_kept_def)
  with t(4,5,6) stack_bytes_cong [OF t(5)] u(2,3) k(1) show ?case by (intro exI [of _ bs'']) simp
qed

section \<open>How long a ready task waits\<close>

definition distance :: "sched_state \<Rightarrow> nat \<Rightarrow> nat" where
  "distance sc i = (i + 8 - current sc) mod 8"

definition wait_bound :: "sched_state \<Rightarrow> nat \<Rightarrow> nat" where
  "wait_bound sc i = (distance sc i - 1) * 5 + unat (quantum_left sc)"

definition waiting :: "nat \<Rightarrow> 'a task_layer_scheme \<Rightarrow> bool" where
  "waiting i s \<longleftrightarrow> i \<noteq> current (sched s) \<and> state_of (sched s) i = TASK_READY \<and> enabled (sched s) \<noteq> 0"

lemma mod8: "n < 16 \<Longrightarrow> n mod 8 = (if n < 8 then n else n - 8)" for n :: nat
  by (simp add: mod_if)

lemma distance_alt:
  "i < 8 \<Longrightarrow> current sc < 8 \<Longrightarrow> i \<noteq> current sc \<Longrightarrow>
     distance sc i = (if current sc < i then i - current sc else i + 8 - current sc)"
  unfolding distance_def by (subst mod8) auto

lemma distance_pos: "i < 8 \<Longrightarrow> current sc < 8 \<Longrightarrow> i \<noteq> current sc \<Longrightarrow> 1 \<le> distance sc i \<and> distance sc i \<le> 7"
  using distance_alt [of i sc] by (auto split: if_splits)

lemma distance_reach: "i < 8 \<Longrightarrow> current sc < 8 \<Longrightarrow> i \<noteq> current sc \<Longrightarrow> (current sc + distance sc i) mod 8 = i"
  using distance_alt [of i sc] by (subst mod8) (auto split: if_splits)

lemma distance_after:
  assumes "i < 8" "current sc < 8" "i \<noteq> current sc" "1 \<le> d" "d < distance sc i" "current sc' = (current sc + d) mod 8"
  shows "current sc' \<noteq> current sc" "distance sc' i = distance sc i - d"
proof -
  have d7: "d < 7" using assms(5) distance_pos [OF assms(1-3)] by simp
  then have c: "current sc' = (if current sc + d < 8 then current sc + d else current sc + d - 8)"
    using assms(2,6) by (simp add: mod8)
  with d7 assms(2,4) show "current sc' \<noteq> current sc" by (auto split: if_splits)
  have lt: "d < (if current sc < i then i - current sc else i + 8 - current sc)"
    using assms(5) distance_alt [OF assms(1-3)] by simp
  have "i \<noteq> current sc'" "current sc' < 8" using c lt assms(1-3) d7 by (auto split: if_splits)
  then show "distance sc' i = distance sc i - d"
    using distance_alt [OF assms(1-3)] distance_alt [of i sc'] assms(1,3) c lt d7 by (auto split: if_splits)
qed

text \<open>A switch that does not reach task \<open>i\<close> brings it nearer.\<close>

lemma switch_nearer:
  assumes inv: "task_inv B bs t" and rm: "room B t" and i: "i < 8" "i \<noteq> current (sched t)" "state_of (sched t) i = TASK_READY"
    and pn: "pick_next (sched t) = Some nxt" and ne: "nxt \<noteq> i"
  defines "s' \<equiv> switch_to (Some nxt) t"
  shows "nxt \<noteq> current (sched t)" "wait_bound (sched s') i + unat (quantum_left (sched t)) \<le> wait_bound (sched t) i"
proof -
  have ok: "sched_ok (sched t)" using inv by (simp add: task_inv_def)
  have c: "current (sched t) < 8" "length (tasks (sched t)) = 8" using ok by (simp_all add: sched_ok_def)
  obtain d where d: "1 \<le> d" "d \<le> 8" "pick_next (sched t) = Some ((current (sched t) + d) mod 8)"
    "runnable (sched t) ((current (sched t) + d) mod 8)"
    "\<And>e. 1 \<le> e \<Longrightarrow> e < d \<Longrightarrow> \<not> runnable (sched t) ((current (sched t) + e) mod 8)"
    using pick_next_spec [OF ok] by metis
  have nxt: "nxt = (current (sched t) + d) mod 8" "nxt < 8" "runnable (sched t) nxt" using pn d by simp_all
  note dp = distance_pos [OF i(1) c(1) i(2)] and dr = distance_reach [OF i(1) c(1) i(2)]
  have "runnable (sched t) i" using i(3) by (simp add: runnable_def)
  then have "\<not> distance (sched t) i < d" using d(5) [of "distance (sched t) i"] dp dr by auto
  moreover have "d \<noteq> distance (sched t) i" using ne nxt(1) dr by auto
  ultimately have lt: "d < distance (sched t) i" by simp
  note da = distance_after [OF i(1) c(1) i(2) d(1) lt]
  show nc: "nxt \<noteq> current (sched t)"
    using da(1) [of "(sched t)\<lparr>current := nxt\<rparr>"] nxt(1) by simp
  obtain sp m where "switch_to (Some nxt) t = t\<lparr>mem := m,
       sched := upd_task (current (sched t)) (\<lambda>t. t\<lparr>esp := sp\<rparr>) (switched nxt (sched t)),
       cpu := restore_context m (esp (tasks (sched t) ! nxt))\<rparr>"
    using switch_to_sched [OF inv rm nxt(3,2) nc] by metis
  then have s': "current (sched s') = nxt" "quantum_left (sched s') = 5"
    using switched_table [OF c(2,1) nxt(2) nc] by (simp_all add: s'_def)
  have "distance (sched s') i = distance (sched t) i - d"
    using da(2) s'(1) nxt(1) by simp
  then have "distance (sched s') i - 1 + 1 \<le> distance (sched t) i - 1" using d(1) lt by simp
  then have "(distance (sched s') i - 1) * 5 + 5 \<le> (distance (sched t) i - 1) * 5" by simp
  then show "wait_bound (sched s') i + unat (quantum_left (sched t)) \<le> wait_bound (sched t) i"
    by (simp add: wait_bound_def s'(2))
qed

end
