(* ===== verification/Task_Claims.thy ===== *)
theory Task_Claims
  imports Task_Runs
begin

text \<open>
  The properties of the scheduler, on a concrete kernel for their witnesses: the heap of
  \<open>Heap_Props\<close>, the scheduler just initialised, the boot stack at 0x9000 to 0xA000.
\<close>

section \<open>Progress of a waiting task\<close>

lemma switch_waiting:
  assumes "task_inv B bs t" "room B t" "i < 8" "waiting i t" "current (sched (switch_to (pick_next (sched t)) t)) \<noteq> i"
  shows "wait_bound (sched (switch_to (pick_next (sched t)) t)) i + unat (quantum_left (sched t)) \<le> wait_bound (sched t) i"
proof -
  have w: "i \<noteq> current (sched t)" "state_of (sched t) i = TASK_READY" using assms(4) by (simp_all add: waiting_def)
  have ok: "sched_ok (sched t)" using assms(1) by (simp add: task_inv_def)
  obtain j where j: "pick_next (sched t) = Some j" "j < 8" "runnable (sched t) j" using pick_next_runs [OF ok] .
  have "j \<noteq> i"
  proof
    assume "j = i"
    then have "current (sched (switch_to (Some j) t)) = i"
      using switch_to_inv(3) [OF assms(1,2) j(3,2)] w(1) by simp
    then show False using assms(5) j(1) by simp
  qed
  from switch_nearer(2) [OF assms(1,2,3) w j(1) this] show ?thesis unfolding j(1) .
qed

lemma wait_bound_cong:
  "current sc' = current sc \<Longrightarrow> quantum_left sc' = quantum_left sc \<Longrightarrow> wait_bound sc' i = wait_bound sc i"
  by (simp add: wait_bound_def distance_def)

lemma wait_step:
  assumes st: "kstep B ex b s s'" and inv: "task_inv B bs s" and i: "i < 8" "waiting i s" "waiting i s'"
  shows "wait_bound (sched s') i + (if b then 1 else 0) \<le> wait_bound (sched s) i"
  using st
proof cases
  case Tick
  have en: "enabled (sched s) \<noteq> 0" using i(2) by (simp add: waiting_def)
  obtain t bs' where "reap s = Some t" and t: "task_inv B bs' t" "room B t" "reaped B [1..<8] s t"
    and "live bs' = live bs |` (- (\<lambda>i. stack_base (tasks (sched s) ! i)) ` dead_slots [1..<8] (sched s))"
    and t4: "scheduler_tick s = Some (if quantum_left (sched s) > 1
        then on_sched (\<lambda>sc. sc\<lparr>quantum_left := quantum_left sc - 1\<rparr>) t
        else switch_to (pick_next (sched t)) t)"
    using scheduler_tick_spec [OF inv Tick(2) en] .
  have r: "current (sched t) = current (sched s)" "quantum_left (sched t) = quantum_left (sched s)"
    "enabled (sched t) = enabled (sched s)"
    using t(3) by (simp_all add: reaped_def)
  have wt: "waiting i t" using reaped_ready(1) [OF t(3) i(1)] i(2) r by (simp add: waiting_def)
  have wb: "wait_bound (sched t) i = wait_bound (sched s) i" using r by (intro wait_bound_cong)
  have q1: "1 \<le> unat (quantum_left (sched t))" using t(1) by (simp add: task_inv_def sched_ok_def)
  show ?thesis
  proof (cases "quantum_left (sched s) > 1")
    case True
    then have s': "s' = on_sched (\<lambda>sc. sc\<lparr>quantum_left := quantum_left sc - 1\<rparr>) t" using t4 Tick(3) by simp
    have "unat (quantum_left (sched t) - 1) = unat (quantum_left (sched t)) - 1"
      using quantum_inv(3) [OF t(1)] True r(2) by simp
    then have "wait_bound (sched s') i + 1 = wait_bound (sched t) i"
      using q1 by (simp add: s' wait_bound_def distance_def)
    then show ?thesis using wb by simp
  next
    case False
    then have s': "s' = switch_to (pick_next (sched t)) t" using t4 Tick(3) by simp
    have "current (sched s') \<noteq> i" using i(3) by (auto simp: waiting_def)
    with switch_waiting [OF t(1,2) i(1) wt] s' q1 wb Tick show ?thesis by simp
  qed
next
  case Yield
  have "enabled (sched s) \<noteq> 0" using i(2) by (simp add: waiting_def)
  then have s': "s' = switch_to (pick_next (sched s)) s" using Yield by (simp add: task_yield_def)
  have "current (sched s') \<noteq> i" using i(3) by (auto simp: waiting_def)
  with switch_waiting [OF inv _ i(1,2)] Yield s' show ?thesis by simp
next
  case (Kill tid)
  then have "wait_bound (sched s') i = wait_bound (sched s) i"
    by (intro wait_bound_cong) (simp_all add: task_kill_def)
  then show ?thesis using Kill by simp
next
  case (Create nm en r)
  obtain r' t where t: "task_create ex nm en s = Some (r', t)"
    "sched t = sched s \<or> (\<exists>sl f. sched t = upd_task sl f (sched s))"
    using task_create_spec [OF inv, of ex nm en] by (auto split: if_splits)
  then have "wait_bound (sched s') i = wait_bound (sched s) i"
    using Create by (intro wait_bound_cong) auto
  then show ?thesis using Create by simp
next
  case (Malloc sz p)
  have "sched s' = sched s" using kmalloc_task [OF inv Malloc(2,3)] Malloc(4) by auto
  then show ?thesis using Malloc by simp
next
  case (Free L p n ok)
  have "heap_rep s (live bs)" using inv by (auto simp: task_inv_def heap_rep_def)
  then have "live bs p = Some n" using heap_rep_unique Free(2,3) by metis
  moreover have "stack_base (tasks (sched s) ! i) \<noteq> p" if "0 < i" "exists_task (sched s) i" for i
    using Free(4) that by (auto simp: is_stack_def)
  ultimately have "sched s' = sched s" using kfree_task [OF inv, of p n] Free(5) by auto
  then show ?thesis using Free by simp
qed (simp_all add: wait_bound_def distance_def task_exit_def Let_def counter_task_def scheduler_enable_def)

text \<open>\<open>waits B ex i s n t\<close>: a run from \<open>s\<close> to \<open>t\<close> with \<open>n\<close> ticks, all through which task \<open>i\<close> is waiting.\<close>

inductive waits :: "nat set \<Rightarrow> u32 \<Rightarrow> nat \<Rightarrow> 'a task_layer_scheme \<Rightarrow> nat \<Rightarrow> 'a task_layer_scheme \<Rightarrow> bool" for B ex i s where
  Start: "waiting i s \<Longrightarrow> waits B ex i s 0 s"
| Ticks: "waits B ex i s n t \<Longrightarrow> kstep B ex True t u \<Longrightarrow> waiting i u \<Longrightarrow> waits B ex i s (Suc n) u"
| Other: "waits B ex i s n t \<Longrightarrow> kstep B ex False t u \<Longrightarrow> waiting i u \<Longrightarrow> waits B ex i s n u"

lemma waits_bound:
  assumes "waits B ex i s n t" "task_inv B bs s" "i < 8"
  shows "waiting i t \<and> (\<exists>bs'. task_inv B bs' t) \<and> wait_bound (sched t) i + n \<le> wait_bound (sched s) i"
  using assms(1)
proof induction
  case Start
  then show ?case using assms(2) by auto
next
  case (Ticks n t u)
  then obtain bs' where "task_inv B bs' t" "waiting i t" by blast
  with wait_step [OF Ticks(2) this(1) assms(3) this(2) Ticks(3)] kstep_inv [OF Ticks(2) this(1)] Ticks show ?case by auto
next
  case (Other n t u)
  then obtain bs' where "task_inv B bs' t" "waiting i t" by blast
  with wait_step [OF Other(2) this(1) assms(3) this(2) Other(3)] kstep_inv [OF Other(2) this(1)] Other show ?case by auto
qed

lemma wait_bound_range:
  assumes "task_inv B bs s" "i < 8" "waiting i s"
  shows "1 \<le> wait_bound (sched s) i" "wait_bound (sched s) i \<le> 35"
proof -
  have "sched_ok (sched s)" using assms(1) by (simp add: task_inv_def)
  then have q: "1 \<le> unat (quantum_left (sched s))" "unat (quantum_left (sched s)) \<le> 5" "current (sched s) < 8"
    by (simp_all add: sched_ok_def)
  have "distance (sched s) i \<le> 7" using distance_pos [OF assms(2) q(3)] assms(3) by (simp add: waiting_def)
  then show "1 \<le> wait_bound (sched s) i" "wait_bound (sched s) i \<le> 35" using q by (simp_all add: wait_bound_def)
qed

section \<open>A concrete kernel\<close>

definition demo_stack :: "nat set" where
  "demo_stack = {0x9000..<0xA000}"

definition demo_cpu :: cpu where
  "demo_cpu = \<lparr>eax = 1, ecx = 2, edx = 3, ebx = 4, cpu_esp = 0x9F00, ebp = 5, esi = 6, edi = 7, eflags = 0x202, eip = 8\<rparr>"

definition demo_task :: "'a \<Rightarrow> 'a task_layer_scheme" where
  "demo_task m = scheduler_init (demo_heap \<lparr>sched = sched_boot, cpu = demo_cpu, \<dots> = m\<rparr>)"

lemma demo_boot_stack: "boot_stack_ok demo_stack (demo_heap m)"
proof -
  have "frame_no x \<notin> pool (demo_heap m)" if "unat x \<in> demo_stack" for x
  proof -
    have "frame_no x = 9" using that by (auto simp: demo_stack_def frame_no_def intro!: div_nat_eqI)
    then show ?thesis using demo_heap(8) [of m] by auto
  qed
  then show ?thesis by (auto simp: boot_stack_ok_def demo_stack_def)
qed

lemma demo_task:
  "task_inv demo_stack [(HEAP_START, 0xFFF0, True)] (demo_task m)" "current (sched (demo_task m)) = 0"
  "i < 8 \<Longrightarrow> state_of (sched (demo_task m)) i = (if i = 0 then TASK_RUNNING else TASK_UNUSED)"
  "cpu (demo_task m) = demo_cpu" "enabled (sched (demo_task m)) = 1" "room demo_stack (demo_task m)"
  "quantum_left (sched (demo_task m)) = 5"
proof -
  let ?m = "\<lparr>sched = sched_boot, cpu = demo_cpu, \<dots> = m\<rparr>"
  have more: "heap_layer.more (demo_heap ?m) = ?m" by (rule demo_heap(5))
  then have sc: "sched (demo_heap ?m) = sched_boot" "cpu (demo_heap ?m) = demo_cpu" by (cases "demo_heap ?m"; simp)+
  note si = scheduler_init_inv [OF demo_heap(1) [of ?m] demo_boot_stack [of ?m] sc(1), folded demo_task_def]
  show "task_inv demo_stack [(HEAP_START, 0xFFF0, True)] (demo_task m)" "current (sched (demo_task m)) = 0"
    "i < 8 \<Longrightarrow> state_of (sched (demo_task m)) i = (if i = 0 then TASK_RUNNING else TASK_UNUSED)"
    "enabled (sched (demo_task m)) = 1" "quantum_left (sched (demo_task m)) = 5"
    using si(1,2,3,6,7) by simp_all
  show c: "cpu (demo_task m) = demo_cpu" using si(4) sc(2) by simp
  show "room demo_stack (demo_task m)"
    by (simp add: room_def Let_def c si(2) stack_bytes_def demo_cpu_def demo_stack_def)
qed

lemma demo_free_slot: "free_slot (sched (demo_task m)) = Some 1"
  using demo_task(3) [of 1 m] by (simp add: free_slot_def MAX_TASKS_def upt_rec)

lemma demo_stack_block: "\<exists>u. kmalloc 8192 (demo_task m) = Some (0xC0000010, u)"
proof -
  have inv: "heap_inv (demo_task m) [(HEAP_START, 0xFFF0, True)]"
    using demo_task(1) [of m] by (simp add: task_inv_def)
  have "fst (first_fit (align8 8192) [(HEAP_START, 0xFFF0, True)]) = Some 0xC0000010"
    by (simp add: align8_def heap_consts)
  moreover have "(8192 :: u32) \<noteq> 0" "unat (8192 :: u32) \<le> 0x3EFFFFF8" by simp_all
  ultimately obtain u where "kmalloc 8192 (demo_task m) = Some (0xC0000010, (demo_task m)\<lparr>mem := u\<rparr>)"
    using kmalloc_fit [OF inv] by blast
  then show ?thesis by (rule exI)
qed

text \<open>The same kernel after one \<open>task_create\<close>.\<close>

lemma demo_create:
  obtains t bs where "task_create ex ''worker'' en (demo_task m) = Some (1, t)" "task_inv demo_stack bs t"
    "current (sched t) = 0" "cpu t = demo_cpu" "enabled (sched t) = 1" "room demo_stack t"
    "\<forall>i < 8. state_of (sched t) i = (if i = 0 then TASK_RUNNING else if i = 1 then TASK_READY else TASK_UNUSED)"
    "stack_base (tasks (sched t) ! 1) = 0xC0000010" "esp (tasks (sched t) ! 1) = 0xC0001FE4"
    "restore_context (mem t) 0xC0001FE4 = \<lparr>eax = 0, ecx = 0, edx = 0, ebx = 0,
      cpu_esp = 0xC000200C, ebp = 0, esi = 0, edi = 0, eflags = 0x202, eip = en\<rparr>"
    "ld32 (mem t) 0xC000200C = ex" "quantum_left (sched t) = 5"
    "cstring (name (tasks (sched t) ! 1)) = ''worker''"
proof -
  let ?d = "demo_task m"
  have inv: "heap_inv ?d [(HEAP_START, 0xFFF0, True)]" "sched_ok (sched ?d)"
    using demo_task(1) [of m] by (simp_all add: task_inv_def)
  obtain u where km: "kmalloc 8192 ?d = Some (0xC0000010, u)" using demo_stack_block ..
  note fs = demo_free_slot [of m]
  obtain r t bs where t: "task_create ex ''worker'' en ?d = Some (r, t)" "task_inv demo_stack bs t"
    "current (sched t) = current (sched ?d)" "cpu t = cpu ?d"
    "if r = - 1 then sched t = sched ?d \<and> bs = [(HEAP_START, 0xFFF0, True)] \<and>
         (free_slot (sched ?d) = None \<or> (\<exists>t. kmalloc 8192 ?d = Some (0, t)))
     else \<exists>sl p k sp. r = int sl \<and> free_slot (sched ?d) = Some sl \<and> (\<exists>t. kmalloc 8192 ?d = Some (p, t)) \<and> sp = p + 8148 \<and>
       live [(HEAP_START, 0xFFF0, True)] p = None \<and> live bs = (live [(HEAP_START, 0xFFF0, True)])(p \<mapsto> k) \<and>
       8192 \<le> unat k \<and> unat p + 8192 < 2 ^ 32 \<and> sched t = upd_task sl (new_task sl p sp ''worker'') (sched ?d) \<and>
       restore_context (mem t) sp = \<lparr>eax = 0, ecx = 0, edx = 0, ebx = 0, cpu_esp = p + 8188, ebp = 0,
         esi = 0, edi = 0, eflags = 0x202, eip = en\<rparr> \<and> ld32 (mem t) (p + 8188) = ex"
    using task_create_spec [OF demo_task(1) [of m], of ex "''worker''" en] by blast
  have r: "r = 1" "sched t = upd_task 1 (new_task 1 0xC0000010 0xC0001FE4 ''worker'') (sched ?d)"
    "restore_context (mem t) 0xC0001FE4 = \<lparr>eax = 0, ecx = 0, edx = 0, ebx = 0,
      cpu_esp = 0xC000200C, ebp = 0, esi = 0, edi = 0, eflags = 0x202, eip = en\<rparr>"
    "ld32 (mem t) 0xC000200C = ex"
    using t(5) km fs by (auto split: if_splits)
  have len: "length (tasks (sched ?d)) = 8" "length (name (tasks (sched ?d) ! 1)) = 16"
    using inv(2) by (simp_all add: sched_ok_def)
  note tb = new_task_table [OF len(1), of 1 "0xC0000010" "0xC0001FE4" "''worker''", folded r(2)]
  show thesis
  proof (rule that)
    show "task_create ex ''worker'' en ?d = Some (1, t)" using t(1) r(1) by simp
    show "\<forall>i < 8. state_of (sched t) i = (if i = 0 then TASK_RUNNING else if i = 1 then TASK_READY else TASK_UNUSED)"
      using tb(2) demo_task(3) [of _ m] by simp
    show "stack_base (tasks (sched t) ! 1) = 0xC0000010" "esp (tasks (sched t) ! 1) = 0xC0001FE4"
      using tb(1) [of 1] by (simp_all add: new_task_def)
    show "cstring (name (tasks (sched t) ! 1)) = ''worker''"
      using tb(1) [of 1] set_name(2) [OF len(2), of "''worker''"] by (simp add: new_task_def)
    show "room demo_stack t" using demo_task(6) [of m] t(3,4) demo_task(2) [of m] by (simp add: room_def Let_def stack_bytes_def)
    show "current (sched t) = 0" "cpu t = demo_cpu" using t(3,4) demo_task(2,4) [of m] by simp_all
    show "enabled (sched t) = 1" "quantum_left (sched t) = 5" using r(2) demo_task(5,7) [of m] by simp_all
  qed (use t(2) r(3,4) in simp_all)
qed

text \<open>And after a \<open>task_yield\<close>, which switches to the new task.\<close>

lemma demo_yield:
  assumes t: "task_inv demo_stack bs t" "room demo_stack t" "current (sched t) = 0" "enabled (sched t) = 1"
    and st: "\<And>i. i < 8 \<Longrightarrow> state_of (sched t) i = (if i = 0 then TASK_RUNNING else if i = 1 then TASK_READY else TASK_UNUSED)"
    and sb: "stack_base (tasks (sched t) ! 1) = 0xC0000010" "esp (tasks (sched t) ! 1) = 0xC0001FE4"
    and rc: "restore_context (mem t) 0xC0001FE4 = \<lparr>eax = 0, ecx = 0, edx = 0, ebx = 0,
      cpu_esp = 0xC000200C, ebp = 0, esi = 0, edi = 0, eflags = 0x202, eip = en\<rparr>"
  shows "task_inv demo_stack bs (task_yield t)" "current (sched (task_yield t)) = 1" "room demo_stack (task_yield t)"
    "current (sched (task_yield (task_yield t))) = 0" "eip (cpu (task_yield t)) = en"
    "state_of (sched (task_yield t)) 0 = TASK_READY"
proof -
  let ?u = "task_yield t"
  have rn: "runnable (sched t) i \<longleftrightarrow> i = 0 \<or> i = 1" if "i < 8" for i using st [OF that] by (simp add: runnable_def)
  have pn: "pick_next (sched t) = Some 1"
    using t(3) rn by (simp add: pick_next_def MAX_TASKS_def upt_rec)
  have y: "?u = switch_to (Some 1) t" using t(4) pn by (simp add: task_yield_def)
  have r1: "runnable (sched t) 1" "1 < (8 :: nat)" "1 \<noteq> current (sched t)" using rn t(3) by simp_all
  note sw = switch_to_inv [OF t(1,2) r1, folded y]
  show ti: "task_inv demo_stack bs ?u" and c1: "current (sched ?u) = 1" by (rule sw(1), rule sw(3))
  have cpu: "cpu ?u = \<lparr>eax = 0, ecx = 0, edx = 0, ebx = 0,
      cpu_esp = 0xC000200C, ebp = 0, esi = 0, edi = 0, eflags = 0x202, eip = en\<rparr>"
    using sw(4) sb(2) rc by simp
  then show "eip (cpu ?u) = en" by simp
  obtain sp m where "switch_to (Some 1) t = t\<lparr>mem := m,
       sched := upd_task (current (sched t)) (\<lambda>t. t\<lparr>esp := sp\<rparr>) (switched 1 (sched t)),
       cpu := restore_context m (esp (tasks (sched t) ! 1))\<rparr>"
    using switch_to_sched [OF t(1,2) r1] by metis
  then have sc: "sched ?u = upd_task 0 (\<lambda>t. t\<lparr>esp := sp\<rparr>) (switched 1 (sched t))" using y t(3) by simp
  have len: "length (tasks (sched t)) = 8" "current (sched t) < 8" using t(1) by (simp_all add: task_inv_def sched_ok_def)
  note tb = switched_table [OF len r1(2,3)]
  have su: "state_of (sched ?u) i = (if i = 1 then TASK_RUNNING else if i = 0 then TASK_READY else TASK_UNUSED)" if "i < 8" for i
    using tb(5) [of i] st [OF that] t(3) by (simp add: sc state_of_def upd_fields)
  then show "state_of (sched ?u) 0 = TASK_READY" by simp
  have en: "enabled (sched ?u) = 1" using tb(3) t(4) by (simp add: sc)
  have sbu: "stack_base (tasks (sched ?u) ! 1) = 0xC0000010" using tb(7) sb(1) by (simp add: sc upd_fields)
  show rm: "room demo_stack ?u"
    by (simp add: room_def Let_def cpu c1 stack_bytes_def sbu [unfolded One_nat_def] block_bytes_def TASK_STACK_SIZE_def)
  have rn: "runnable (sched ?u) i \<longleftrightarrow> i = 0 \<or> i = 1" if "i < 8" for i using su [OF that] by (simp add: runnable_def)
  have pn: "pick_next (sched ?u) = Some 0"
    using c1 rn by (simp add: pick_next_def MAX_TASKS_def upt_rec)
  have "task_yield ?u = switch_to (Some 0) ?u" using en pn by (simp add: task_yield_def)
  with switch_to_inv(3) [OF ti rm, of 0] rn c1 show "current (sched (task_yield ?u)) = 0" by simp
qed

section \<open>Properties\<close>

text \<open>
  C18: the scheduler's invariant. From a freshly initialised scheduler on a sound heap, in every run of
  ticks, yields, exits, kills, creations, heap operations and task code: task 0 can run, only the
  current task is marked running, there is always a next task to run, every task's id is its slot,
  every task above 0 owns a live heap block of at least 8192 bytes for its stack, no two tasks' stacks
  overlap, and a timer tick returns.
\<close>

theorem scheduler_invariant:
  assumes "heap_inv s bs" and "boot_stack_ok B s" and "sched s = sched_boot"
    and "(\<lambda>s s'. \<exists>b. kstep B ex b s s')\<^sup>*\<^sup>* (scheduler_init s) t"
  shows "current (sched t) < 8 \<and> runnable (sched t) 0 \<and>
    (\<forall>i < 8. state_of (sched t) i = TASK_RUNNING \<longrightarrow> i = current (sched t)) \<and>
    (\<exists>j < 8. pick_next (sched t) = Some j \<and> runnable (sched t) j) \<and>
    task_current_id t = of_nat (current (sched t)) \<and>
    (\<exists>L. heap_rep t L \<and> (\<forall>i. 0 < i \<and> exists_task (sched t) i \<longrightarrow>
       (\<exists>n. L (stack_base (tasks (sched t) ! i)) = Some n \<and> TASK_STACK_SIZE \<le> n))) \<and>
    (\<forall>i j. exists_task (sched t) i \<and> exists_task (sched t) j \<and> i \<noteq> j \<longrightarrow>
       stack_bytes B (sched t) i \<inter> stack_bytes B (sched t) j = {}) \<and>
    (room B t \<longrightarrow> (\<exists>u. scheduler_tick t = Some u))"
proof -
  obtain bs' where inv: "task_inv B bs' t"
    using ksteps_inv [OF assms(4) scheduler_init_inv(1) [OF assms(1-3)]] by blast
  then have h: "heap_inv t bs'" "sched_ok (sched t)" "stacks_ok (live bs') (sched t)" by (simp_all add: task_inv_def)
  obtain j where "pick_next (sched t) = Some j" "j < 8" "runnable (sched t) j" using pick_next_runs [OF h(2)] .
  moreover have "task_current_id t = of_nat (current (sched t))"
    using h(2) current_exists [OF h(2)] by (simp add: task_current_id_def sched_ok_def exists_task_def)
  moreover have "heap_rep t (live bs')" using h(1) by (auto simp: heap_rep_def)
  moreover have "\<forall>i. 0 < i \<and> exists_task (sched t) i \<longrightarrow>
       (\<exists>n. live bs' (stack_base (tasks (sched t) ! i)) = Some n \<and> TASK_STACK_SIZE \<le> n)"
    using h(3) unfolding stacks_ok_def by blast
  moreover have "\<exists>u. scheduler_tick t = Some u" if "room B t" using scheduler_tick_inv [OF inv that] by blast
  moreover have "current (sched t) < 8" "runnable (sched t) 0"
    "\<forall>i < 8. state_of (sched t) i = TASK_RUNNING \<longrightarrow> i = current (sched t)"
    using h(2) by (auto simp: sched_ok_def)
  ultimately show ?thesis using stacks_disjoint [OF inv] by blast
qed

theorem scheduler_invariant_witness:
  "\<exists>t. task_create 9 ''worker'' 7 (demo_task ()) = Some (1, t) \<and> task_current_id t = 0 \<and>
     stack_bytes demo_stack (sched t) 0 \<inter> stack_bytes demo_stack (sched t) 1 = {}"
proof -
  let ?s = "demo_heap \<lparr>sched = sched_boot, cpu = demo_cpu\<rparr>"
  obtain t bs where t: "task_create 9 ''worker'' 7 (demo_task ()) = Some (1, t)" "current (sched t) = 0"
    "\<forall>i < 8. state_of (sched t) i = (if i = 0 then TASK_RUNNING else if i = 1 then TASK_READY else TASK_UNUSED)"
    using demo_create [where ex = 9 and en = 7 and m = "()"] by metis
  have "heap_layer.more ?s = \<lparr>sched = sched_boot, cpu = demo_cpu\<rparr>" by (rule demo_heap(5))
  then have sc: "sched ?s = sched_boot" by (cases ?s) simp
  have d: "scheduler_init ?s = demo_task ()" by (simp add: demo_task_def)
  have "(\<lambda>s s'. \<exists>b. kstep demo_stack 9 b s s')\<^sup>*\<^sup>* (scheduler_init ?s) t"
    unfolding d using Create [OF t(1)] by blast
  from scheduler_invariant [OF demo_heap(1) demo_boot_stack sc this]
  have "task_current_id t = 0"
    "\<forall>i j. exists_task (sched t) i \<and> exists_task (sched t) j \<and> i \<noteq> j \<longrightarrow>
       stack_bytes demo_stack (sched t) i \<inter> stack_bytes demo_stack (sched t) j = {}" using t(2) by auto
  moreover have "exists_task (sched t) 0" "exists_task (sched t) 1" using t(3) by (simp_all add: exists_task_def)
  ultimately show ?thesis using t(1) by (intro exI [of _ t]) simp
qed

text \<open>
  C19: preemption is invisible. Let the current task be switched away at a tick or a yield, let the
  others do anything while it stays ready (task code on their own stacks, ticks, creations, kills,
  heap operations), and let it be switched to again: it continues with every register and flag as it
  left them, at the return address of its call, and the bytes of its stack from its stack pointer
  up are unchanged.
\<close>

theorem preempted_task_resumes:
  assumes "task_inv B bs s" and "state_of (sched s) (current (sched s)) = TASK_RUNNING"
    and "kstep B ex b s s1" and "current (sched s1) \<noteq> current (sched s)"
    and "(away B ex (current (sched s)))\<^sup>*\<^sup>* s1 s2"
    and "kstep B ex b' s2 s3" and "current (sched s3) = current (sched s)"
  shows "cpu s3 = (cpu s)\<lparr>cpu_esp := cpu_esp (cpu s) + 4, eip := ld32 (mem s) (cpu_esp (cpu s))\<rparr> \<and>
    (\<forall>x. unat x \<in> stack_bytes B (sched s) (current (sched s)) \<and> unat (cpu_esp (cpu s)) \<le> unat x \<longrightarrow>
       mem s3 x = mem s x)"
proof -
  let ?i = "current (sched s)"
  have "sched_ok (sched s)" using assms(1) by (simp add: task_inv_def)
  then have i: "?i < 8" by (simp add: sched_ok_def)
  note sa = switch_away [OF assms(3,1,2,4)]
  obtain bs1 where inv1: "task_inv B bs1 s1" using kstep_inv [OF assms(3,1)] by blast
  obtain bs2 where k: "task_inv B bs2 s2" "?i \<noteq> current (sched s2)" "state_of (sched s2) ?i = TASK_READY"
    "esp (tasks (sched s2) ! ?i) = esp (tasks (sched s1) ! ?i)"
    "stack_base (tasks (sched s2) ! ?i) = stack_base (tasks (sched s1) ! ?i)"
    "\<forall>x. unat x \<in> stack_bytes B (sched s1) ?i \<longrightarrow> mem s2 x = mem s1 x"
    using away_keeps [OF assms(5) inv1 i assms(4) [symmetric] sa(1)] by blast
  note sb = switch_back [OF assms(6) k(1) assms(7) k(2) i]
  have sk: "stacks_kept B s2 s3" using kstep_inv [OF assms(6) k(1)] by blast
  have sb1: "stack_bytes B (sched s1) ?i = stack_bytes B (sched s) ?i"
    "stack_bytes B (sched s2) ?i = stack_bytes B (sched s) ?i"
    using sa(3) k(5) by (simp_all add: stack_bytes_def)
  have m3: "mem s3 x = mem s1 x" if "unat x \<in> stack_bytes B (sched s) ?i" for x
    using sk i k(2,3,6) sb(3) that sb1 by (simp add: stacks_kept_def runnable_def)
  have "contexts_ok B (sched s1)" using inv1 by (simp add: task_inv_def)
  note cx = contexts_okD [OF this i assms(4) [symmetric] sa(1)]
  have "restore_context (mem s2) (esp (tasks (sched s1) ! ?i)) = restore_context (mem s1) (esp (tasks (sched s1) ! ?i))"
  proof (rule restore_context_cong)
    fix x :: u32
    assume "unat (esp (tasks (sched s1) ! ?i)) \<le> unat x" "unat x < unat (esp (tasks (sched s1) ! ?i)) + 40"
    then have "unat x \<in> stack_bytes B (sched s1) ?i" using cx by auto
    then show "mem s2 x = mem s1 x" using k(6) by blast
  qed (use cx in simp)
  then have "cpu s3 = (cpu s)\<lparr>cpu_esp := cpu_esp (cpu s) + 4, eip := ld32 (mem s) (cpu_esp (cpu s))\<rparr>"
    using sb(2) k(4) sa(2) by simp
  then show ?thesis using m3 sa(4) by simp
qed

theorem preempted_task_resumes_witness:
  "\<exists>t. task_create 9 ''worker'' 7 (demo_task ()) = Some (1, t) \<and> eip (cpu (task_yield t)) = 7 \<and>
     cpu (task_yield (task_yield t)) = (cpu t)\<lparr>cpu_esp := 0x9F04, eip := ld32 (mem t) 0x9F00\<rparr>"
proof -
  obtain t bs where c: "task_create 9 ''worker'' 7 (demo_task ()) = Some (1, t)" "task_inv demo_stack bs t"
    "current (sched t) = 0" "cpu t = demo_cpu" "enabled (sched t) = 1" "room demo_stack t"
    and st: "\<forall>i < 8. state_of (sched t) i = (if i = 0 then TASK_RUNNING else if i = 1 then TASK_READY else TASK_UNUSED)"
    and s: "stack_base (tasks (sched t) ! 1) = 0xC0000010" "esp (tasks (sched t) ! 1) = 0xC0001FE4"
    "restore_context (mem t) 0xC0001FE4 = \<lparr>eax = 0, ecx = 0, edx = 0, ebx = 0,
      cpu_esp = 0xC000200C, ebp = 0, esi = 0, edi = 0, eflags = 0x202, eip = 7\<rparr>"
    and "ld32 (mem t) 0xC000200C = 9" "quantum_left (sched t) = 5" "cstring (name (tasks (sched t) ! 1)) = ''worker''"
    using demo_create [where ex = 9 and en = 7 and m = "()"] .
  note y = demo_yield [OF c(2,6,3,5) st [rule_format] s]
  have "state_of (sched t) (current (sched t)) = TASK_RUNNING" using st c(3) by simp
  moreover have "kstep demo_stack 9 False t (task_yield t)" by (rule Yield [OF c(6)])
  moreover have "current (sched (task_yield t)) \<noteq> current (sched t)" using y(2) c(3) by simp
  moreover have "kstep demo_stack 9 False (task_yield t) (task_yield (task_yield t))" by (rule Yield [OF y(3)])
  moreover have "current (sched (task_yield (task_yield t))) = current (sched t)" using y(4) c(3) by simp
  ultimately have "cpu (task_yield (task_yield t)) =
      (cpu t)\<lparr>cpu_esp := cpu_esp (cpu t) + 4, eip := ld32 (mem t) (cpu_esp (cpu t))\<rparr>"
    using preempted_task_resumes [OF c(2), of 9 False "task_yield t" "task_yield t"] by blast
  then show ?thesis using c(1,4) y(5) by (intro exI [of _ t]) (simp add: demo_cpu_def)
qed

text \<open>
  C20: round robin is fair. In no run is a ready task passed over for 35 timer ticks: while it is ready,
  not yet running, and the scheduler is enabled, at most 34 ticks go by, whatever the others do
  (at most six other tasks come before it, five ticks each, after the rest of the current quantum).
\<close>

theorem ready_task_waits:
  assumes "task_inv B bs s" and "i < 8" and "waits B ex i s n t"
  shows "n \<le> 34"
proof -
  have w: "waiting i s" using assms(3) by induction simp_all
  have "waiting i t" "wait_bound (sched t) i + n \<le> wait_bound (sched s) i" "\<exists>bs'. task_inv B bs' t"
    using waits_bound [OF assms(3,1,2)] by blast+
  then show ?thesis using wait_bound_range [OF assms(1,2) w] wait_bound_range(1) [OF _ assms(2)] by fastforce
qed

theorem ready_task_waits_witness:
  "\<exists>t u. task_create 9 ''worker'' 7 (demo_task ()) = Some (1, t) \<and> scheduler_tick t = Some u \<and>
     waits demo_stack 9 1 t 1 u \<and> (1 :: nat) \<le> 34"
proof -
  obtain t bs where c: "task_create 9 ''worker'' 7 (demo_task ()) = Some (1, t)" "task_inv demo_stack bs t"
    "current (sched t) = 0" "enabled (sched t) = 1" "room demo_stack t" "quantum_left (sched t) = 5"
    and st: "\<forall>i < 8. state_of (sched t) i = (if i = 0 then TASK_RUNNING else if i = 1 then TASK_READY else TASK_UNUSED)"
    using demo_create [where ex = 9 and en = 7 and m = "()"] by metis
  have en: "enabled (sched t) \<noteq> 0" using c(4) by simp
  obtain v bs' where "reap t = Some v" and "task_inv demo_stack bs' v" "room demo_stack v" and
    v: "reaped demo_stack [1..<8] t v"
    and "live bs' = live bs |` (- (\<lambda>i. stack_base (tasks (sched t) ! i)) ` dead_slots [1..<8] (sched t))"
    and tick: "scheduler_tick t = Some (if quantum_left (sched t) > 1
        then on_sched (\<lambda>sc. sc\<lparr>quantum_left := quantum_left sc - 1\<rparr>) v
        else switch_to (pick_next (sched v)) v)"
    using scheduler_tick_spec [OF c(2,5) en] .
  define u where "u = on_sched (\<lambda>sc. sc\<lparr>quantum_left := quantum_left sc - 1\<rparr>) v"
  have u: "scheduler_tick t = Some u" using tick c(6) by (simp add: u_def)
  have "state_of (sched t) 1 = TASK_READY" using st by simp
  then have w: "waiting 1 t" "waiting 1 u"
    using c(3,4) reaped_ready(1) [OF v, of 1] v by (simp_all add: waiting_def u_def reaped_def)
  have "waits demo_stack 9 1 t (Suc 0) u" by (rule Ticks [OF Start [OF w(1)] Tick [OF c(5) u] w(2)])
  moreover from this have "Suc 0 \<le> 34" by (rule ready_task_waits [OF c(2), of 1, rotated]) simp
  ultimately show ?thesis using c(1) u by auto
qed

text \<open>
  C21: \<open>task_create\<close>. It always returns. It fails, leaving the task table alone, when no slot is unused
  or the heap gives no stack; otherwise it fills the first unused slot above 0 with a ready task whose
  name is the first fifteen characters of the one given, on a fresh block of the heap. The stack it
  builds is a saved context: switching to it enters \<open>entry\<close> with all registers zero, interrupts
  enabled, and \<^verbatim>\<open>task_exit\<close> as return address. The invariant and the stacks of the other tasks are kept.
\<close>

theorem task_create_correct:
  assumes "task_inv B bs s"
  shows "\<exists>r t bs'. task_create ex nm entry s = Some (r, t) \<and> task_inv B bs' t \<and> stacks_kept B s t \<and>
    (if r = - 1 then sched t = sched s \<and> bs' = bs \<and>
       (free_slot (sched s) = None \<or> (\<exists>u. kmalloc TASK_STACK_SIZE s = Some (0, u)))
     else \<exists>i stack. r = int i \<and> 0 < i \<and> i < 8 \<and> free_slot (sched s) = Some i \<and> state_of (sched s) i = TASK_UNUSED \<and>
       live bs stack = None \<and> live bs' stack \<noteq> None \<and>
       (\<forall>j. j \<noteq> i \<longrightarrow> tasks (sched t) ! j = tasks (sched s) ! j) \<and>
       state_of (sched t) i = TASK_READY \<and> stack_base (tasks (sched t) ! i) = stack \<and>
       task_id (tasks (sched t) ! i) = of_nat i \<and> cstring (name (tasks (sched t) ! i)) = take 15 (cstring nm) \<and>
       restore_context (mem t) (esp (tasks (sched t) ! i)) = \<lparr>eax = 0, ecx = 0, edx = 0, ebx = 0,
         cpu_esp = stack + 8188, ebp = 0, esi = 0, edi = 0, eflags = 0x202, eip = entry\<rparr> \<and>
       ld32 (mem t) (stack + 8188) = ex)"
proof -
  obtain r t bs' where t: "task_create ex nm entry s = Some (r, t)" "task_inv B bs' t" "stacks_kept B s t"
    and r: "if r = - 1 then sched t = sched s \<and> bs' = bs \<and> (free_slot (sched s) = None \<or> (\<exists>t. kmalloc 8192 s = Some (0, t)))
     else \<exists>sl p k sp. r = int sl \<and> free_slot (sched s) = Some sl \<and> (\<exists>t. kmalloc 8192 s = Some (p, t)) \<and> sp = p + 8148 \<and>
       live bs p = None \<and> live bs' = (live bs)(p \<mapsto> k) \<and>
       8192 \<le> unat k \<and> unat p + 8192 < 2 ^ 32 \<and> sched t = upd_task sl (new_task sl p sp nm) (sched s) \<and>
       restore_context (mem t) sp = \<lparr>eax = 0, ecx = 0, edx = 0, ebx = 0, cpu_esp = p + 8188, ebp = 0,
         esi = 0, edi = 0, eflags = 0x202, eip = entry\<rparr> \<and> ld32 (mem t) (p + 8188) = ex"
    using task_create_spec [OF assms, of ex nm entry] by blast
  show ?thesis
  proof (cases "r = - 1")
    case True
    with t r show ?thesis by (intro exI [of _ r] exI [of _ t] exI [of _ bs']) (simp add: TASK_STACK_SIZE_def)
  next
    case False
    then obtain i p k where i: "r = int i" "free_slot (sched s) = Some i" "live bs p = None" "live bs' = (live bs)(p \<mapsto> k)"
      "sched t = upd_task i (new_task i p (p + 8148) nm) (sched s)"
      "restore_context (mem t) (p + 8148) = \<lparr>eax = 0, ecx = 0, edx = 0, ebx = 0, cpu_esp = p + 8188, ebp = 0,
         esi = 0, edi = 0, eflags = 0x202, eip = entry\<rparr>" "ld32 (mem t) (p + 8188) = ex"
      using r by auto
    note sl = free_slot [OF i(2)]
    have len: "length (tasks (sched s)) = 8" "length (name (tasks (sched s) ! i)) = 16"
      using assms sl(2) by (simp_all add: task_inv_def sched_ok_def)
    note tb = new_task_table [OF len(1) sl(2), of p "p + 8148" nm, folded i(5)]
    have "live bs' p \<noteq> None" using i(4) by simp
    with False t i sl tb set_name(2) [OF len(2), of nm] show ?thesis
      by (intro exI [of _ r] exI [of _ t] exI [of _ bs'])
        (simp only: if_False, intro conjI exI [of _ i] exI [of _ p], simp_all add: new_task_def)
  qed
qed

theorem task_create_correct_witness:
  "\<exists>t. task_create 9 ''a name longer than fifteen'' 7 (demo_task ()) = Some (1, t) \<and>
     cstring (name (tasks (sched t) ! 1)) = ''a name longer t''"
proof -
  obtain u where km: "kmalloc 8192 (demo_task ()) = Some (0xC0000010, u)" using demo_stack_block ..
  let ?nm = "''a name longer than fifteen''"
  obtain r t bs' where t: "task_create 9 ?nm 7 (demo_task ()) = Some (r, t)" "task_inv demo_stack bs' t"
    "stacks_kept demo_stack (demo_task ()) t" and
    r: "if r = - 1 then sched t = sched (demo_task ()) \<and> bs' = [(HEAP_START, 0xFFF0, True)] \<and>
       (free_slot (sched (demo_task ())) = None \<or> (\<exists>u. kmalloc TASK_STACK_SIZE (demo_task ()) = Some (0, u)))
     else \<exists>i stack. r = int i \<and> 0 < i \<and> i < 8 \<and> free_slot (sched (demo_task ())) = Some i \<and>
       state_of (sched (demo_task ())) i = TASK_UNUSED \<and>
       live [(HEAP_START, 0xFFF0, True)] stack = None \<and> live bs' stack \<noteq> None \<and>
       (\<forall>j. j \<noteq> i \<longrightarrow> tasks (sched t) ! j = tasks (sched (demo_task ())) ! j) \<and>
       state_of (sched t) i = TASK_READY \<and> stack_base (tasks (sched t) ! i) = stack \<and>
       task_id (tasks (sched t) ! i) = of_nat i \<and> cstring (name (tasks (sched t) ! i)) = take 15 (cstring ?nm) \<and>
       restore_context (mem t) (esp (tasks (sched t) ! i)) = \<lparr>eax = 0, ecx = 0, edx = 0, ebx = 0,
         cpu_esp = stack + 8188, ebp = 0, esi = 0, edi = 0, eflags = 0x202, eip = 7\<rparr> \<and>
       ld32 (mem t) (stack + 8188) = 9"
    using task_create_correct [OF demo_task(1) [of "()"], of 9 ?nm 7] by blast
  have "r \<noteq> - 1" using r km demo_free_slot [of "()"] by (auto simp: TASK_STACK_SIZE_def)
  then obtain i where "r = int i" "free_slot (sched (demo_task ())) = Some i"
      "cstring (name (tasks (sched t) ! i)) = take 15 (cstring ?nm)"
    using r unfolding if_not_P [OF \<open>r \<noteq> - 1\<close>] by blast
  then have "r = 1" "cstring (name (tasks (sched t) ! 1)) = take 15 (cstring ?nm)"
    using demo_free_slot [of "()"] by simp_all
  then show ?thesis using t(1) by (intro exI [of _ t]) simp
qed

lemma unused_stays:
  assumes inv: "task_inv B bs t" and rm: "room B t" and st: "state_of (sched t) i = TASK_UNUSED"
  shows "state_of (sched (switch_to (pick_next (sched t)) t)) i = TASK_UNUSED"
proof -
  have ok: "sched_ok (sched t)" using inv by (simp add: task_inv_def)
  obtain j where j: "pick_next (sched t) = Some j" "j < 8" "runnable (sched t) j" using pick_next_runs [OF ok] .
  show ?thesis
  proof (cases "j = current (sched t)")
    case True
    then show ?thesis using st by (simp add: j(1) switch_to_def)
  next
    case nc: False
    have l: "length (tasks (sched t)) = 8" "current (sched t) < 8" using ok by (simp_all add: sched_ok_def)
    obtain sp m where "switch_to (Some j) t = t\<lparr>mem := m,
       sched := upd_task (current (sched t)) (\<lambda>t. t\<lparr>esp := sp\<rparr>) (switched j (sched t)),
       cpu := restore_context m (esp (tasks (sched t) ! j))\<rparr>"
      using switch_to_sched [OF inv rm j(3,2) nc] by metis
    moreover have "state_of (switched j (sched t)) i = TASK_UNUSED"
      using switched_table(5) [OF l j(2) nc, of i] st j(3) by (auto simp: runnable_def)
    ultimately show ?thesis by (simp add: j(1) state_of_def upd_fields)
  qed
qed

text \<open>A tick takes a dead task that does not run out of the table, and the stacks of all such tasks out of the heap.\<close>

lemma tick_reaps:
  assumes inv: "task_inv B bs s" and rm: "room B s" and en: "enabled (sched s) \<noteq> 0" and i: "i \<in> dead_slots [1..<8] (sched s)"
  shows "\<exists>s' bs'. scheduler_tick s = Some s' \<and> heap_inv s' bs' \<and> state_of (sched s') i = TASK_UNUSED \<and>
    live bs' = live bs |` (- (\<lambda>i. stack_base (tasks (sched s) ! i)) ` dead_slots [1..<8] (sched s))"
proof -
  obtain t bs' where "reap s = Some t" and t: "task_inv B bs' t" "room B t" "reaped B [1..<8] s t"
    "live bs' = live bs |` (- (\<lambda>i. stack_base (tasks (sched s) ! i)) ` dead_slots [1..<8] (sched s))"
    and tick: "scheduler_tick s = Some (if quantum_left (sched s) > 1
       then on_sched (\<lambda>sc. sc\<lparr>quantum_left := quantum_left sc - 1\<rparr>) t
       else switch_to (pick_next (sched t)) t)"
    using scheduler_tick_spec [OF inv rm en] .
  have i8: "i < 8" using i by (simp add: dead_slots_def)
  have st: "state_of (sched t) i = TASK_UNUSED" using reaped_state [OF t(3) i8] i by simp
  have "heap_inv t bs'" "heap_inv (switch_to (pick_next (sched t)) t) bs'"
    using t(1) pick_and_switch(1) [OF t(1,2)] by (simp_all add: task_inv_def)
  with tick t(4) st unused_stays [OF t(1,2) st] show ?thesis by auto
qed

text \<open>
  C22: killing and reaping. \<open>task_kill\<close> refuses task 0, slots outside the table and unused slots. A killed
  task that is not running is gone after the next tick, if the scheduler is enabled and the running task's
  stack has room for the context: its slot is unused and exactly the stacks of the
  dead tasks have been returned to the heap.
\<close>

theorem killed_task_is_reaped:
  assumes "task_inv B bs s" and "room B s" and "enabled (sched s) \<noteq> 0"
    and "0 < i" and "exists_task (sched s) i" and "i \<noteq> current (sched s)"
  shows "task_kill 0 s = (False, s) \<and>
    (\<exists>s1 s2 L. task_kill (of_nat i) s = (True, s1) \<and> scheduler_tick s1 = Some s2 \<and>
       state_of (sched s2) i = TASK_UNUSED \<and> heap_rep s2 L \<and> L (stack_base (tasks (sched s) ! i)) = None \<and>
       (\<forall>p. (\<forall>j. 0 < j \<and> j < 8 \<and> state_of (sched s1) j = TASK_DEAD \<longrightarrow> stack_base (tasks (sched s) ! j) \<noteq> p) \<longrightarrow>
          L p = live bs p))"
proof -
  have i8: "i < 8" "state_of (sched s) i \<noteq> TASK_UNUSED" using assms(5) by (simp_all add: exists_task_def)
  have u: "unat (of_nat i :: u32) = i" using i8(1) by (intro unat_of_nat_small) simp
  have nz: "(of_nat i :: u32) \<noteq> 0" using u assms(4) by (metis unat_0 less_irrefl)
  define s1 where "s1 = on_sched (upd_task i (\<lambda>t. t\<lparr>tstate := TASK_DEAD\<rparr>)) s"
  have kill: "task_kill (of_nat i) s = (True, s1)" using u nz i8 by (simp add: task_kill_def MAX_TASKS_def s1_def)
  have inv1: "task_inv B bs s1" using task_kill_inv(1) [OF assms(1), of "of_nat i"] by (simp add: kill)
  have len: "length (tasks (sched s)) = 8" using assms(1) by (simp add: task_inv_def sched_ok_def)
  have sb: "stack_base (tasks (sched s1) ! j) = stack_base (tasks (sched s) ! j)" for j by (simp add: s1_def upd_fields)
  have rm: "room B s1" using assms(2) stack_bytes_cong [OF sb, of B] by (simp add: room_def s1_def)
  have en: "enabled (sched s1) \<noteq> 0" using assms(3) by (simp add: s1_def)
  have d: "state_of (sched s1) i = TASK_DEAD" "current (sched s1) = current (sched s)" using len i8(1) by (simp_all add: s1_def)
  have ids: "i \<in> dead_slots [1..<8] (sched s1)" using d assms(4,6) i8(1) by (simp add: dead_slots_def)
  obtain s2 bs' where s2: "scheduler_tick s1 = Some s2" "heap_inv s2 bs'" "state_of (sched s2) i = TASK_UNUSED"
    and l: "live bs' = live bs |` (- (\<lambda>i. stack_base (tasks (sched s1) ! i)) ` dead_slots [1..<8] (sched s1))"
    using tick_reaps [OF inv1 rm en ids] by blast
  have "heap_rep s2 (live bs')" using s2(2) by (auto simp: heap_rep_def)
  moreover have "live bs' (stack_base (tasks (sched s) ! i)) = None" using l ids by (auto simp: sb)
  moreover have "live bs' p = live bs p"
    if p: "\<forall>j. 0 < j \<and> j < 8 \<and> state_of (sched s1) j = TASK_DEAD \<longrightarrow> stack_base (tasks (sched s) ! j) \<noteq> p" for p
  proof -
    have "p \<notin> (\<lambda>i. stack_base (tasks (sched s1) ! i)) ` dead_slots [1..<8] (sched s1)"
      using p by (auto simp: dead_slots_def sb Suc_le_eq)
    then show ?thesis using l by simp
  qed
  ultimately show ?thesis using kill s2(1,3) by (auto simp: task_kill_def)
qed

theorem killed_task_is_reaped_witness:
  "\<exists>t t1 t2. task_create 9 ''worker'' 7 (demo_task ()) = Some (1, t) \<and> task_kill 1 t = (True, t1) \<and>
     scheduler_tick t1 = Some t2 \<and> state_of (sched t2) 1 = TASK_UNUSED"
proof -
  obtain t bs where c: "task_create 9 ''worker'' 7 (demo_task ()) = Some (1, t)" "task_inv demo_stack bs t"
    "current (sched t) = 0" "enabled (sched t) = 1" "room demo_stack t"
    and st: "\<forall>i < 8. state_of (sched t) i = (if i = 0 then TASK_RUNNING else if i = 1 then TASK_READY else TASK_UNUSED)"
    using demo_create [where ex = 9 and en = 7 and m = "()"] by metis
  have "enabled (sched t) \<noteq> 0" "exists_task (sched t) 1" "1 \<noteq> current (sched t)"
    using c(3,4) st by (simp_all add: exists_task_def)
  from killed_task_is_reaped [OF c(2,5) this(1) _ this(2,3)] show ?thesis using c(1) by auto
qed

end
