(* ===== verification/Timer.thy ===== *)
theory Timer
  imports Task_Claims
begin

text \<open>
  The interval timer (\<^verbatim>\<open>timer.c\<close>, \<^verbatim>\<open>timer.h\<close>). \<open>timer_tick\<close> is what IRQ0 runs: it counts the tick and
  calls the scheduler. \<open>timer_sleep\<close> waits with \<^verbatim>\<open>hlt\<close>; what happens to the machine until the
  processor wakes again is the parameter \<open>hlt\<close> (\<open>None\<close> when it never wakes). \<open>kout\<close> and \<open>kin\<close> are
  the port instructions on the kernel state.

  The lemmas show that a sleep whose tick count does not overflow ends, at the tick it asked for.
\<close>

definition kout :: "u16 \<Rightarrow> u8 \<Rightarrow> 'a machine_scheme \<Rightarrow> 'a machine_scheme" where
  "kout port data s = s\<lparr>con := outb port data (con s)\<rparr>"

definition kin :: "u16 \<Rightarrow> 'a machine_scheme \<Rightarrow> u8 \<times> 'a machine_scheme" where
  "kin port s = (let (b, c) = inb port (con s) in (b, s\<lparr>con := c\<rparr>))"

definition PIT_FREQUENCY :: u32 where "PIT_FREQUENCY = 1193182"
definition PIT_CHANNEL0 :: u16 where "PIT_CHANNEL0 = 0x40"
definition PIT_COMMAND :: u16 where "PIT_COMMAND = 0x43"
definition TIMER_HZ :: u32 where "TIMER_HZ = 100"

record timer_layer = task_layer +
  ticks :: u32

definition timer_init :: "'a machine_scheme \<Rightarrow> 'a machine_scheme" where
  "timer_init s =
     (let divisor = PIT_FREQUENCY div TIMER_HZ;
          s = kout PIT_COMMAND 0x36 s;
          s = kout PIT_CHANNEL0 (ucast (divisor AND 0xFF)) s
      in kout PIT_CHANNEL0 (ucast (drop_bit 8 divisor AND 0xFF)) s)"

definition timer_tick :: "'a timer_layer_scheme \<Rightarrow> 'a timer_layer_scheme option" where
  "timer_tick s = scheduler_tick (s\<lparr>ticks := ticks s + 1\<rparr>)"

definition timer_ticks :: "'a timer_layer_scheme \<Rightarrow> u32" where
  "timer_ticks s = ticks s"

definition timer_seconds :: "'a timer_layer_scheme \<Rightarrow> u32" where
  "timer_seconds s = ticks s div TIMER_HZ"

partial_function (option) sleep_loop ::
  "('a timer_layer_scheme \<Rightarrow> 'a timer_layer_scheme option) \<Rightarrow> u32 \<Rightarrow>
     'a timer_layer_scheme \<Rightarrow> 'a timer_layer_scheme option" where
  "sleep_loop hlt target s =
     (if ticks s < target then Option.bind (hlt s) (sleep_loop hlt target) else Some s)"

definition timer_sleep ::
  "('a timer_layer_scheme \<Rightarrow> 'a timer_layer_scheme option) \<Rightarrow> u32 \<Rightarrow>
     'a timer_layer_scheme \<Rightarrow> 'a timer_layer_scheme option" where
  "timer_sleep hlt ms s = sleep_loop hlt (ticks s + (ms * TIMER_HZ) div 1000) s"

section \<open>A sleep ends\<close>

text \<open>
  The loop ends when every wake-up either counts one tick or brings the next tick nearer, as
  measured by \<open>m\<close>: the processor also wakes for the keyboard and the UART.
\<close>



lemma sleep_loop_ends:
  assumes wake: "\<And>s. I s \<Longrightarrow> ticks s < target \<Longrightarrow> \<exists>s'. hlt s = Some s' \<and> I s' \<and>
      (ticks s' = ticks s + 1 \<or> ticks s' = ticks s \<and> m s' < (m s :: nat))"
  shows "I s \<Longrightarrow> ticks s \<le> target \<Longrightarrow>
     \<exists>s'. sleep_loop hlt target s = Some s' \<and> I s' \<and> ticks s' = target"
proof (induction s rule: wf_induct [OF wf_measures [of "[\<lambda>s. unat (target - ticks s), m]"]])
  case (1 s)
  show ?case
  proof (cases "ticks s < target")
    case True
    from wake [OF "1.prems"(1) True] obtain s' where s': "hlt s = Some s'" "I s'"
      and adv: "ticks s' = ticks s + 1 \<or> ticks s' = ticks s \<and> m s' < m s" by blast
    have le: "ticks s' \<le> target"
      using adv True by (auto simp: inc_le)
    have "unat (ticks s + 1) = unat (ticks s) + 1"
      using True unat_u32_less [of target] by (intro unat_add_one) (simp add: word_less_nat_alt)
    then have "unat (target - (ticks s + 1)) < unat (target - ticks s)"
      using True by (simp add: unat_sub_if' word_less_nat_alt word_le_nat_alt)
    then have "(s', s) \<in> measures [\<lambda>s. unat (target - ticks s), m]"
      using adv by auto
    with "1.IH" s'(2) le obtain s'' where
      "sleep_loop hlt target s' = Some s''" "I s''" "ticks s'' = target" by blast
    with True s'(1) show ?thesis
      by (simp add: sleep_loop.simps [of hlt target s])
  next
    case False
    with "1.prems" show ?thesis
      by (simp add: sleep_loop.simps)
  qed
qed

lemma no_sleep: "\<not> ticks s < target \<Longrightarrow> sleep_loop hlt target s = Some s"
  by (simp add: sleep_loop.simps)

text \<open>The target tick, when the arithmetic of \<open>timer_sleep\<close> does not overflow.\<close>

lemma sleep_target:
  assumes "unat ms * 100 < 2 ^ 32" and "unat (ticks s) + unat ms div 10 < 2 ^ 32"
  shows "unat (ticks s + (ms * TIMER_HZ) div 1000) = unat (ticks s) + unat ms div 10"
    and "ticks s \<le> ticks s + (ms * TIMER_HZ) div 1000"
proof -
  have "unat (ms * TIMER_HZ) = unat ms * 100"
    using assms(1) by (simp add: TIMER_HZ_def unat_word_ariths)
  then have "unat ((ms * TIMER_HZ) div 1000) = unat ms div 10"
    by (simp add: unat_div_distrib flip: div_mult2_eq)
  then show "unat (ticks s + (ms * TIMER_HZ) div 1000) = unat (ticks s) + unat ms div 10"
    using assms(2) by (simp add: unat_word_ariths)
  then show "ticks s \<le> ticks s + (ms * TIMER_HZ) div 1000"
    by (simp add: word_le_nat_alt)
qed

end
