(* ===== verification/Input.thy ===== *)
theory Input
  imports Timer
begin

text \<open>
  The input path: the ring buffer between the interrupt handlers and the kernel task (the end of
  \<^verbatim>\<open>shell.c\<close>), the PS/2 keyboard handler (\<^verbatim>\<open>keyboard.c\<close>) and the receive half of the UART driver
  (\<^verbatim>\<open>serial_handler\<close> of \<^verbatim>\<open>serial.c\<close>).

  The locale \<open>bounded_queue\<close> is the contract of the buffer: first in, first out, and a character
  that finds it full is dropped. It is interpreted on the ring of 256 characters, which holds at
  most 255; the lemmas proved in the locale follow a queue through any interleaving of pushes and
  pops.
\<close>

section \<open>The ring buffer\<close>

definition RING_SIZE :: u32 where "RING_SIZE = 256"

record input_layer = timer_layer +
  ring :: string
  ring_head :: u32
  ring_tail :: u32
  shift_down :: bool

definition shell_push_char :: "char \<Rightarrow> 'a input_layer_scheme \<Rightarrow> 'a input_layer_scheme" where
  "shell_push_char c s =
     (let nxt = (ring_head s + 1) mod RING_SIZE
      in if nxt = ring_tail s then s
         else s\<lparr>ring := (ring s)[unat (ring_head s) := c], ring_head := nxt\<rparr>)"

text \<open>The condition and the first two statements of the loop of \<^verbatim>\<open>shell_poll\<close>.\<close>

definition ring_pop :: "'a input_layer_scheme \<Rightarrow> (char \<times> 'a input_layer_scheme) option" where
  "ring_pop s =
     (if ring_tail s \<noteq> ring_head s
      then let c = ring s ! unat (ring_tail s)
           in Some (c, s\<lparr>ring_tail := (ring_tail s + 1) mod RING_SIZE\<rparr>)
      else None)"

section \<open>The keyboard\<close>

definition normal_map :: string where
  "normal_map =
     [NUL, NUL] @ ''1234567890-='' @ [NUL] @
     [CHR 0x09] @ ''qwertyuiop[]'' @ [CHR 0x0A] @
     [NUL] @ ''asdfghjkl;'' @ [CHR 0x27, CHR 0x60] @
     [NUL, CHR 0x5C] @ ''zxcvbnm,./'' @ [NUL] @
     ''*'' @ [NUL] @ '' '' @ [NUL]"

definition shift_map :: string where
  "shift_map =
     [NUL, NUL] @ ''!@#$%^&*()_+'' @ [NUL] @
     [CHR 0x09] @ ''QWERTYUIOP{}'' @ [CHR 0x0A] @
     [NUL] @ ''ASDFGHJKL:'' @ [CHR 0x22, CHR ''~''] @
     [NUL, CHR ''|''] @ ''ZXCVBNM<>?'' @ [NUL] @
     ''*'' @ [NUL] @ '' '' @ [NUL]"

definition keyboard_handler :: "'a input_layer_scheme \<Rightarrow> 'a input_layer_scheme" where
  "keyboard_handler s =
     (let (sc, s) = kin 0x60 s
      in if sc = 0x2A \<or> sc = 0x36 then s\<lparr>shift_down := True\<rparr>
         else if sc = 0xAA \<or> sc = 0xB6 then s\<lparr>shift_down := False\<rparr>
         else if sc AND 0x80 \<noteq> 0 then s
         else if sc = 0x0E then shell_push_char CHR 0x08 s
         else let c = (if unat sc < length normal_map
                       then if shift_down s then shift_map ! unat sc else normal_map ! unat sc
                       else NUL)
              in if c = NUL then s else shell_push_char c s)"

section \<open>Receiving from the UART\<close>

partial_function (option) serial_handler :: "'a input_layer_scheme \<Rightarrow> 'a input_layer_scheme option" where
  "serial_handler s =
     (let (lsr, s) = kin (COM1 + REG_LSR) s
      in if lsr AND LSR_DATA_READY \<noteq> 0
         then let (byte, s) = kin (COM1 + REG_DATA) s;
                  s = s\<lparr>con := (con s)\<lparr>rx_count := rx_count (con s) + 1\<rparr>\<rparr>;
                  byte = (if byte = 0x0D then 0x0A else byte);
                  byte = (if byte = 0x7F then 0x08 else byte)
              in serial_handler (shell_push_char (char_of (unat byte)) s)
         else Some s)"

definition serial_rx_count :: "'a machine_scheme \<Rightarrow> u32" where "serial_rx_count s = rx_count (con s)"
definition serial_tx_count :: "'a machine_scheme \<Rightarrow> u32" where "serial_tx_count s = tx_count (con s)"

section \<open>Bounded queues\<close>

datatype 'c queue_op = Push 'c | Pop

locale bounded_queue =
  fixes push :: "'c \<Rightarrow> 's \<Rightarrow> 's"
    and pop :: "'s \<Rightarrow> ('c \<times> 's) option"
    and items :: "'s \<Rightarrow> 'c list"
    and inv :: "'s \<Rightarrow> bool"
    and capacity :: nat
  assumes inv_push: "inv s \<Longrightarrow> inv (push c s)"
    and items_push: "inv s \<Longrightarrow>
      items (push c s) = (if length (items s) < capacity then items s @ [c] else items s)"
    and pop_empty: "inv s \<Longrightarrow> items s = [] \<Longrightarrow> pop s = None"
    and pop_items: "inv s \<Longrightarrow> items s = c # cs \<Longrightarrow> \<exists>s'. pop s = Some (c, s') \<and> inv s' \<and> items s' = cs"
    and items_bound: "inv s \<Longrightarrow> length (items s) \<le> capacity"
begin

text \<open>A run of operations: what the pops delivered, what the pushes accepted, and the end state.\<close>

fun run :: "'c queue_op list \<Rightarrow> 's \<Rightarrow> 'c list \<times> 'c list \<times> 's" where
  "run [] s = ([], [], s)"
| "run (Push c # ops) s =
     (let (out, acc, s') = run ops (push c s)
      in (out, if length (items s) < capacity then c # acc else acc, s'))"
| "run (Pop # ops) s =
     (case pop s of
        None \<Rightarrow> run ops s
      | Some (c, s) \<Rightarrow> let (out, acc, s') = run ops s in (c # out, acc, s'))"

lemma run_fifo:
  "inv s \<Longrightarrow> run ops s = (out, acc, s') \<Longrightarrow> inv s' \<and> out @ items s' = items s @ acc"
proof (induction ops s arbitrary: out acc rule: run.induct)
  case (2 c ops s)
  obtain out' acc' where r: "run ops (push c s) = (out', acc', s')"
    and out: "out = out'" "acc = (if length (items s) < capacity then c # acc' else acc')"
    using "2.prems"(2) by (auto split: prod.splits)
  from "2.IH" [OF inv_push [OF "2.prems"(1)] r] out show ?case
    by (simp add: items_push [OF "2.prems"(1)] split: if_splits)
next
  case (3 ops s)
  show ?case
  proof (cases "items s")
    case Nil
    with "3.prems" pop_empty [of s] "3.IH"(1) show ?thesis by simp
  next
    case (Cons c cs)
    with pop_items [OF "3.prems"(1)] obtain s1 where s1: "pop s = Some (c, s1)" "inv s1" "items s1 = cs"
      by blast
    with "3.prems"(2) obtain out' where "run ops s1 = (out', acc, s')" "out = c # out'"
      by (auto split: prod.splits)
    with "3.IH"(2) [OF s1(1) refl s1(2)] s1(3) Cons show ?thesis by simp
  qed
qed simp

lemma push_all:
  "inv s \<Longrightarrow> inv (fold push cs s) \<and>
     items (fold push cs s) = items s @ take (capacity - length (items s)) cs"
proof (induction cs arbitrary: s)
  case (Cons c cs)
  show ?case
  proof (cases "length (items s) < capacity")
    case True
    then have "capacity - length (items s) = Suc (capacity - Suc (length (items s)))" by simp
    with True Cons.IH [OF inv_push [OF Cons.prems], of c] show ?thesis
      by (simp add: items_push [OF Cons.prems])
  next
    case False
    with Cons.IH [OF inv_push [OF Cons.prems], of c] show ?thesis
      by (simp add: items_push [OF Cons.prems])
  qed
qed simp

end

section \<open>The ring is a bounded queue\<close>

definition ring_ok :: "'a input_layer_scheme \<Rightarrow> bool" where
  "ring_ok s \<longleftrightarrow> length (ring s) = 256 \<and> ring_head s < RING_SIZE \<and> ring_tail s < RING_SIZE"

definition ring_count :: "'a input_layer_scheme \<Rightarrow> nat" where
  "ring_count s = (unat (ring_head s) + 256 - unat (ring_tail s)) mod 256"

definition ring_items :: "'a input_layer_scheme \<Rightarrow> string" where
  "ring_items s = map (\<lambda>i. ring s ! ((unat (ring_tail s) + i) mod 256)) [0..<ring_count s]"

lemma ring_succ:
  "w < RING_SIZE \<Longrightarrow> (w + 1) mod RING_SIZE < RING_SIZE \<and>
     unat ((w + 1) mod RING_SIZE) = (if unat w = 255 then 0 else unat w + 1)"
proof -
  assume "w < RING_SIZE"
  then have w: "unat w < 256" by (simp add: RING_SIZE_def word_less_nat_alt)
  then have "unat (w + 1) = unat w + 1" by (intro unat_add_one) simp
  then have "unat ((w + 1) mod RING_SIZE) = (unat w + 1) mod 256"
    by (simp add: RING_SIZE_def unat_mod_distrib)
  with w show ?thesis
    by (auto simp: RING_SIZE_def word_less_nat_alt mod_Suc)
qed

lemma ring_okD:
  assumes "ring_ok s"
  shows "unat (ring_head s) < 256" "unat (ring_tail s) < 256" "length (ring s) = 256"
  using assms by (simp_all add: ring_ok_def RING_SIZE_def word_less_nat_alt)

lemma ring_count_if:
  "ring_ok s \<Longrightarrow> ring_count s =
     (if ring_tail s \<le> ring_head s then unat (ring_head s) - unat (ring_tail s)
      else unat (ring_head s) + 256 - unat (ring_tail s))"
  using ring_okD [of s] by (simp add: ring_count_def word_le_nat_alt mod_if)

lemma ring_full:
  "ring_ok s \<Longrightarrow> (ring_head s + 1) mod RING_SIZE = ring_tail s \<longleftrightarrow> ring_count s = 255"
  using ring_okD [of s] ring_succ [of "ring_head s"]
  by (auto simp: ring_ok_def ring_count_if word_unat_eq_iff word_le_nat_alt split: if_splits)

lemma ring_empty: "ring_ok s \<Longrightarrow> ring_tail s = ring_head s \<longleftrightarrow> ring_count s = 0"
  using ring_okD [of s] by (auto simp: ring_count_if word_unat_eq_iff word_le_nat_alt split: if_splits)

lemma ring_bound: "ring_ok s \<Longrightarrow> ring_count s \<le> 255"
  using ring_okD [of s] by (auto simp: ring_count_if word_le_nat_alt split: if_splits)

lemma ring_slot:
  "ring_ok s \<Longrightarrow> i \<le> ring_count s \<Longrightarrow>
     ((unat (ring_tail s) + i) mod 256 = unat (ring_head s)) = (i = ring_count s)"
proof -
  assume s: "ring_ok s" and i: "i \<le> ring_count s"
  have "(unat (ring_tail s) + i) mod 256 =
      (if unat (ring_tail s) + i < 256 then unat (ring_tail s) + i else unat (ring_tail s) + i - 256)"
    using ring_okD [OF s] i ring_bound [OF s] by (simp add: mod_if [of "_ + _"])
  then show ?thesis
    using ring_okD [OF s] i ring_count_if [OF s] by (simp add: word_le_nat_alt split: if_splits) arith+
qed

lemma ring_items_push:
  assumes "ring_ok s"
  shows "ring_items (shell_push_char c s) =
    (if length (ring_items s) < 255 then ring_items s @ [c] else ring_items s)"
proof (cases "ring_count s = 255")
  case True
  with assms show ?thesis
    by (simp add: shell_push_char_def ring_full ring_items_def)
next
  case False
  let ?s = "shell_push_char c s"
  have s: "?s = s\<lparr>ring := (ring s)[unat (ring_head s) := c], ring_head := (ring_head s + 1) mod RING_SIZE\<rparr>"
    using False assms by (simp add: shell_push_char_def ring_full)
  have bound: "ring_count s < 255"
    using False ring_bound [OF assms] by simp
  have count: "ring_count ?s = Suc (ring_count s)"
    using ring_okD [OF assms] ring_succ [of "ring_head s"] assms bound
    by (auto simp: s ring_count_def ring_ok_def mod_if split: if_splits)
  have old: "ring ?s ! ((unat (ring_tail s) + i) mod 256) = ring s ! ((unat (ring_tail s) + i) mod 256)"
    if "i < ring_count s" for i
    using ring_slot [OF assms, of i] that by (simp add: s nth_list_update_neq)
  have new: "ring ?s ! ((unat (ring_tail s) + ring_count s) mod 256) = c"
    using ring_slot [OF assms, of "ring_count s"] ring_okD [OF assms] by (simp add: s)
  have t: "ring_tail ?s = ring_tail s" by (simp add: s)
  show ?thesis
    using bound old new by (simp add: ring_items_def count t)
qed

lemma ring_items_pop:
  assumes "ring_ok s" and "ring_items s = c # cs"
  shows "ring_pop s = Some (c, s\<lparr>ring_tail := (ring_tail s + 1) mod RING_SIZE\<rparr>)"
    and "ring_items (s\<lparr>ring_tail := (ring_tail s + 1) mod RING_SIZE\<rparr>) = cs"
proof -
  let ?s = "s\<lparr>ring_tail := (ring_tail s + 1) mod RING_SIZE\<rparr>"
  obtain n where n: "ring_count s = Suc n"
    using assms(2) by (cases "ring_count s") (auto simp: ring_items_def)
  have items: "ring_items s = ring s ! (unat (ring_tail s)) #
      map (\<lambda>i. ring s ! ((unat (ring_tail s) + Suc i) mod 256)) [0..<n]"
    using ring_okD [OF assms(1)]
    by (simp add: ring_items_def n upt_conv_Cons map_Suc_upt [symmetric] del: upt_Suc map_Suc_upt)
  show "ring_pop s = Some (c, ?s)"
    using assms ring_empty [OF assms(1)] n items by (simp add: ring_pop_def)
  have count: "ring_count ?s = n"
    using ring_okD [OF assms(1)] ring_succ [of "ring_tail s"] assms(1) n
    by (auto simp: ring_count_def ring_ok_def mod_if split: if_splits)
  have slot: "(unat (ring_tail ?s) + i) mod 256 = (unat (ring_tail s) + Suc i) mod 256" for i
    using ring_succ [of "ring_tail s"] assms(1) by (auto simp: ring_ok_def)
  show "ring_items ?s = cs"
    using items assms(2) slot by (simp add: ring_items_def [of ?s] count)
qed

interpretation rq: bounded_queue shell_push_char ring_pop ring_items ring_ok 255
proof unfold_locales
  fix s :: "'a input_layer_scheme" and c cs
  assume s: "ring_ok s"
  show "ring_ok (shell_push_char c s)"
    using s ring_succ [of "ring_head s"] by (auto simp: shell_push_char_def ring_ok_def Let_def)
  show "ring_items (shell_push_char c s) =
      (if length (ring_items s) < 255 then ring_items s @ [c] else ring_items s)"
    by (rule ring_items_push [OF s])
  show "ring_items s = [] \<Longrightarrow> ring_pop s = None"
    using ring_empty [OF s] by (simp add: ring_items_def ring_pop_def)
  show "length (ring_items s) \<le> 255"
    using ring_bound [OF s] by (simp add: ring_items_def)
  show "\<exists>s'. ring_pop s = Some (c, s') \<and> ring_ok s' \<and> ring_items s' = cs" if "ring_items s = c # cs"
    using ring_items_pop [OF s that] ring_succ [of "ring_tail s"] s by (auto simp: ring_ok_def)
qed

lemma push_con [simp]:
  "shell_push_char c (s\<lparr>con := x\<rparr>) = (shell_push_char c s)\<lparr>con := x\<rparr>"
  "con (shell_push_char c s) = con s"
  "shift_down (shell_push_char c s) = shift_down s"
  by (simp_all add: shell_push_char_def Let_def)

lemma push_fold_con [simp]:
  "fold shell_push_char cs (s\<lparr>con := x\<rparr>) = (fold shell_push_char cs s)\<lparr>con := x\<rparr>"
  by (induction cs arbitrary: s) auto

lemma ring_ok_con [simp]: "ring_ok (s\<lparr>con := x\<rparr>) = ring_ok s"
  by (simp add: ring_ok_def)

lemma ring_items_con [simp]: "ring_items (s\<lparr>con := x\<rparr>) = ring_items s"
  by (simp add: ring_items_def ring_count_def)

section \<open>Bytes from the UART\<close>

text \<open>
  From its \<open>n\<close>-th read on, the UART presents the bytes \<open>bs\<close> and then nothing: the handler reads the
  line status and the data register in turn.
\<close>

fun rx_script :: "(nat \<Rightarrow> u16 \<Rightarrow> u8) \<Rightarrow> nat \<Rightarrow> u8 list \<Rightarrow> bool" where
  "rx_script inp n [] \<longleftrightarrow> inp n (COM1 + REG_LSR) AND LSR_DATA_READY = 0"
| "rx_script inp n (b # bs) \<longleftrightarrow> inp n (COM1 + REG_LSR) AND LSR_DATA_READY \<noteq> 0 \<and>
     inp (Suc n) (COM1 + REG_DATA) = b \<and> rx_script inp (Suc (Suc n)) bs"

definition rx_char :: "u8 \<Rightarrow> char" where
  "rx_char b = char_of (unat (if b = 0x0D then 0x0A else if b = 0x7F then 0x08 else b))"

lemma serial_handler_script:
  "rx_script (inputs (con s)) (in_count (con s)) bs \<Longrightarrow>
   serial_handler s = Some (fold shell_push_char (map rx_char bs)
     (s\<lparr>con := (con s)\<lparr>in_count := in_count (con s) + 2 * length bs + 1,
                        rx_count := rx_count (con s) + of_nat (length bs)\<rparr>\<rparr>))"
proof (induction bs arbitrary: s)
  case Nil
  then show ?case
    by (simp add: serial_handler.simps [of s] kin_def inb_def)
next
  case (Cons b bs)
  let ?con = "(con s)\<lparr>in_count := Suc (Suc (in_count (con s))), rx_count := rx_count (con s) + 1\<rparr>"
  let ?s = "shell_push_char (rx_char b) (s\<lparr>con := ?con\<rparr>)"
  have "serial_handler s = serial_handler ?s"
    using Cons.prems by (subst serial_handler.simps) (simp add: kin_def inb_def Let_def rx_char_def)
  also have "\<dots> = Some (fold shell_push_char (map rx_char bs)
     (?s\<lparr>con := (con ?s)\<lparr>in_count := in_count (con ?s) + 2 * length bs + 1,
                        rx_count := rx_count (con ?s) + of_nat (length bs)\<rparr>\<rparr>))"
    using Cons.prems by (intro Cons.IH) simp
  finally show ?case
    by (simp add: algebra_simps)
qed

section \<open>Keys\<close>

text \<open>
  What a keyboard with the US layout sends, independently of the tables of the driver. In scancode
  set 1 the keys of a row have consecutive codes: a row is the code of its first key and the
  characters on its keys, without shift and with shift. A character is typed by one key, between
  press and release of the left shift key when it needs shift.
\<close>

definition index_of :: "'b \<Rightarrow> 'b list \<Rightarrow> nat" where
  "index_of x xs = length (takeWhile (\<lambda>y. y \<noteq> x) xs)"

definition key_rows :: "(nat \<times> string \<times> string) list" where
  "key_rows =
     [(0x02, ''1234567890-='', ''!@#$%^&*()_+''),
      (0x10, ''qwertyuiop[]'', ''QWERTYUIOP{}''),
      (0x1E, ''asdfghjkl;'' @ [CHR 0x27, CHR 0x60], ''ASDFGHJKL:'' @ [CHR 0x22, CHR ''~'']),
      (0x2B, [CHR 0x5C], ''|''),
      (0x2C, ''zxcvbnm,./'', ''ZXCVBNM<>?''),
      (0x1C, [CHR 0x0A], []),
      (0x39, '' '', [])]"

fun find_key :: "char \<Rightarrow> (nat \<times> string \<times> string) list \<Rightarrow> u8 list" where
  "find_key c [] = []"
| "find_key c ((code, lower, upper) # rows) =
     (if c \<in> set lower then [of_nat (code + index_of c lower)]
      else if c \<in> set upper then [0x2A, of_nat (code + index_of c upper), 0xAA]
      else find_key c rows)"

definition keys_of :: "char \<Rightarrow> u8 list" where
  "keys_of c = find_key c key_rows"

definition typeable :: "char \<Rightarrow> bool" where
  "typeable c \<longleftrightarrow> c = CHR 0x0A \<or> 32 \<le> uchar c \<and> uchar c \<le> 126"

text \<open>The keyboard controller presents the scancodes \<open>codes\<close> in turn.\<close>

fun key_script :: "(nat \<Rightarrow> u16 \<Rightarrow> u8) \<Rightarrow> nat \<Rightarrow> u8 list \<Rightarrow> bool" where
  "key_script inp n [] \<longleftrightarrow> True"
| "key_script inp n (c # cs) \<longleftrightarrow> inp n 0x60 = c \<and> key_script inp (Suc n) cs"

lemma key_script_append:
  "key_script inp n (xs @ ys) \<longleftrightarrow> key_script inp n xs \<and> key_script inp (n + length xs) ys"
  by (induction xs arbitrary: n) auto

text \<open>A key code that is neither shift, nor a release, nor backspace, stands for \<open>c\<close> in \<open>layout\<close>.\<close>

definition types :: "string \<Rightarrow> char \<Rightarrow> u8 \<Rightarrow> bool" where
  "types layout c sc \<longleftrightarrow> sc \<noteq> 0x2A \<and> sc \<noteq> 0x36 \<and> sc \<noteq> 0xAA \<and> sc \<noteq> 0xB6 \<and> sc AND 0x80 = 0 \<and> sc \<noteq> 0x0E \<and>
     unat sc < length normal_map \<and> layout ! unat sc = c \<and> c \<noteq> NUL"

text \<open>The tables of the driver agree with the keyboard on every character that can be typed.\<close>

definition keys_type :: "char \<Rightarrow> bool" where
  "keys_type c \<longleftrightarrow>
     (case keys_of c of
        [k] \<Rightarrow> types normal_map c k
      | [p, k, q] \<Rightarrow> p = 0x2A \<and> types shift_map c k \<and> q = 0xAA
      | _ \<Rightarrow> False)"

lemma layouts_agree: "list_all keys_type (CHR 0x0A # map char_of [32..<127 :: nat])"
  by code_simp

lemma typeable_keys: "typeable c \<Longrightarrow> keys_type c"
proof -
  assume "typeable c"
  then consider "c = CHR 0x0A" | "32 \<le> uchar c" "uchar c \<le> 126"
    by (auto simp: typeable_def)
  then have "c \<in> set (CHR 0x0A # map char_of [32..<127 :: nat])"
  proof cases
    case 2
    moreover have "uchar c = int (of_char c)"
      unfolding uchar_def by (rule of_nat_of_char [symmetric])
    ultimately have "(of_char c :: nat) \<in> set [32..<127]"
      unfolding set_upt by simp
    then have "char_of (of_char c :: nat) \<in> char_of ` set [32..<127 :: nat]"
      by (rule imageI)
    then show ?thesis by (simp only: char_of_char list.set set_map insert_iff simp_thms)
  qed (simp only: list.set insert_iff simp_thms)
  then show ?thesis
    using layouts_agree unfolding list_all_iff by blast
qed

lemma typeable_cases:
  assumes "typeable c"
  obtains k where "keys_of c = [k]" "types normal_map c k"
  | k where "keys_of c = [0x2A, k, 0xAA]" "types shift_map c k"
  using typeable_keys [OF assms] unfolding keys_type_def by (auto split: list.splits)

text \<open>One keystroke, and then a whole text.\<close>

lemma types_key:
  assumes "types (if shift_down s then shift_map else normal_map) c (inputs (con s) (in_count (con s)) 0x60)"
  shows "keyboard_handler s =
    (shell_push_char c s)\<lparr>con := (con s)\<lparr>in_count := Suc (in_count (con s))\<rparr>\<rparr>"
  using assms by (auto simp: keyboard_handler_def kin_def inb_def types_def)

lemma shift_key:
  "inputs (con s) (in_count (con s)) 0x60 = 0x2A \<Longrightarrow> keyboard_handler s =
     s\<lparr>con := (con s)\<lparr>in_count := Suc (in_count (con s))\<rparr>, shift_down := True\<rparr>"
  "inputs (con s) (in_count (con s)) 0x60 = 0xAA \<Longrightarrow> keyboard_handler s =
     s\<lparr>con := (con s)\<lparr>in_count := Suc (in_count (con s))\<rparr>, shift_down := False\<rparr>"
  by (simp_all add: keyboard_handler_def kin_def inb_def)

lemma push_shift [simp]:
  "shell_push_char c (s\<lparr>shift_down := b\<rparr>) = (shell_push_char c s)\<lparr>shift_down := b\<rparr>"
  by (simp add: shell_push_char_def Let_def)

lemma keys_of_char:
  assumes "typeable c" and "\<not> shift_down s"
    and "key_script (inputs (con s)) (in_count (con s)) (keys_of c)"
  shows "(keyboard_handler ^^ length (keys_of c)) s =
    (shell_push_char c s)\<lparr>con := (con s)\<lparr>in_count := in_count (con s) + length (keys_of c)\<rparr>\<rparr>"
  using assms(1)
proof (cases rule: typeable_cases)
  case (1 k)
  with assms show ?thesis by (simp add: types_key)
next
  case (2 k)
  note keys = 2(1) and t = 2(2)
  let ?n = "in_count (con s)" and ?i = "inputs (con s)"
  let ?s1 = "s\<lparr>con := (con s)\<lparr>in_count := Suc ?n\<rparr>, shift_down := True\<rparr>"
  let ?s2 = "(shell_push_char c ?s1)\<lparr>con := (con s)\<lparr>in_count := Suc (Suc ?n)\<rparr>\<rparr>"
  have 1: "keyboard_handler s = ?s1"
    using assms(3) keys by (simp add: shift_key)
  have 2: "keyboard_handler ?s1 = ?s2"
    using types_key [of ?s1 c] assms(3) keys t by simp
  have 3: "keyboard_handler ?s2 = ?s2\<lparr>con := (con s)\<lparr>in_count := Suc (Suc (Suc ?n))\<rparr>, shift_down := False\<rparr>"
    using shift_key(2) [of ?s2] assms(3) keys by simp
  have "(keyboard_handler ^^ length (keys_of c)) s = keyboard_handler (keyboard_handler (keyboard_handler s))"
    by (simp add: keys eval_nat_numeral)
  also have "\<dots> = ?s2\<lparr>con := (con s)\<lparr>in_count := Suc (Suc (Suc ?n))\<rparr>, shift_down := False\<rparr>"
    by (simp only: 1 2 3)
  also have "\<dots> = (shell_push_char c s)\<lparr>con := (con s)\<lparr>in_count := ?n + length (keys_of c)\<rparr>\<rparr>"
    using assms(2) by (simp add: keys)
  finally show ?thesis .
qed

lemma keys_of_text:
  assumes "list_all typeable cs" and "\<not> shift_down s"
    and "key_script (inputs (con s)) (in_count (con s)) (concat (map keys_of cs))"
  shows "(keyboard_handler ^^ length (concat (map keys_of cs))) s =
    (fold shell_push_char cs s)\<lparr>con := (con s)\<lparr>in_count := in_count (con s) + length (concat (map keys_of cs))\<rparr>\<rparr>"
  using assms
proof (induction cs arbitrary: s)
  case (Cons c cs)
  let ?s = "(shell_push_char c s)\<lparr>con := (con s)\<lparr>in_count := in_count (con s) + length (keys_of c)\<rparr>\<rparr>"
  have "(keyboard_handler ^^ length (concat (map keys_of (c # cs)))) s =
      (keyboard_handler ^^ length (concat (map keys_of cs))) ((keyboard_handler ^^ length (keys_of c)) s)"
    by (simp only: list.map concat.simps length_append add.commute [of "length (keys_of c)"] funpow_add comp_apply)
  also have "(keyboard_handler ^^ length (keys_of c)) s = ?s"
    using Cons.prems by (intro keys_of_char) (auto simp: key_script_append)
  also have "(keyboard_handler ^^ length (concat (map keys_of cs))) ?s =
      (fold shell_push_char cs ?s)\<lparr>con := (con ?s)\<lparr>in_count := in_count (con ?s) + length (concat (map keys_of cs))\<rparr>\<rparr>"
    using Cons.prems by (intro Cons.IH) (auto simp: key_script_append)
  finally show ?case
    by (simp add: add.assoc)
qed simp

end
