(* ===== verification/Isr.thy ===== *)
theory Isr
  imports Input
begin

text \<open>
  Interrupts: the descriptor table (\<^verbatim>\<open>idt.c\<close>, \<^verbatim>\<open>idt.h\<close>), the two interrupt controllers and the
  dispatch of exceptions and hardware interrupts (\<^verbatim>\<open>isr.c\<close>, \<^verbatim>\<open>isr.h\<close>).

  The addresses of the assembly entry points, of the table and of the table pointer are chosen by the
  linker and are parameters. \<open>idtr\<close> is the processor's table register, which \<^verbatim>\<open>lidt\<close> loads. An
  exception either returns to the interrupted code (\<open>Running\<close>) or ends in the endless \<^verbatim>\<open>hlt\<close> loop
  with interrupts off (\<open>Stopped\<close>).
\<close>

section \<open>The descriptor table\<close>

definition IDT_ENTRIES :: nat where "IDT_ENTRIES = 256"

record idt_entry =
  base_low :: u16
  selector :: u16
  always0 :: u8
  flags :: u8
  base_high :: u16

record idt_ptr =
  limit :: u16
  idt_base :: u32

record isr_layer = input_layer +
  idt :: "idt_entry list"
  idtp :: idt_ptr
  idtr :: idt_ptr

definition idt_set_gate :: "u8 \<Rightarrow> u32 \<Rightarrow> u16 \<Rightarrow> u8 \<Rightarrow> 'a isr_layer_scheme \<Rightarrow> 'a isr_layer_scheme" where
  "idt_set_gate num b sel fl s =
     s\<lparr>idt := (idt s)[unat num :=
        \<lparr>base_low = ucast (b AND 0xFFFF), selector = sel, always0 = 0, flags = fl,
         base_high = ucast (drop_bit 16 b AND 0xFFFF)\<rparr>]\<rparr>"

definition idt_load :: "'a isr_layer_scheme \<Rightarrow> 'a isr_layer_scheme" where
  "idt_load s = s\<lparr>idtr := idtp s\<rparr>"

definition zero_gate :: idt_entry where
  "zero_gate = \<lparr>base_low = 0, selector = 0, always0 = 0, flags = 0, base_high = 0\<rparr>"

definition idt_install :: "u32 \<Rightarrow> 'a isr_layer_scheme \<Rightarrow> 'a isr_layer_scheme" where
  "idt_install idt_addr s =
     (let s = s\<lparr>idtp := \<lparr>limit = of_nat (8 * IDT_ENTRIES) - 1, idt_base = idt_addr\<rparr>\<rparr>;
          s = foldl (\<lambda>s i. s\<lparr>idt := (idt s)[i := zero_gate]\<rparr>) s [0..<IDT_ENTRIES]
      in idt_load s)"

section \<open>The interrupt controllers\<close>

definition pic_remap :: "'a machine_scheme \<Rightarrow> 'a machine_scheme" where
  "pic_remap s =
     (let s = kout 0x20 0x11 s;
          s = kout 0xA0 0x11 s;
          s = kout 0x21 0x20 s;
          s = kout 0xA1 0x28 s;
          s = kout 0x21 0x04 s;
          s = kout 0xA1 0x02 s;
          s = kout 0x21 0x01 s;
          s = kout 0xA1 0x01 s;
          s = kout 0x21 0x0 s
      in kout 0xA1 0x0 s)"

text \<open>\<open>isr_stub n\<close> is the address of \<^verbatim>\<open>isr\<close>\<open>n\<close>, \<open>irq_stub n\<close> that of \<^verbatim>\<open>irq\<close>\<open>n\<close>.\<close>

definition isr_install :: "(nat \<Rightarrow> u32) \<Rightarrow> (nat \<Rightarrow> u32) \<Rightarrow> 'a isr_layer_scheme \<Rightarrow> 'a isr_layer_scheme" where
  "isr_install isr_stub irq_stub s =
     (let s = pic_remap s;
          s = foldl (\<lambda>s n. idt_set_gate (of_nat n) (isr_stub n) 0x08 0x8E s) s [0..<32]
      in foldl (\<lambda>s n. idt_set_gate (of_nat (32 + n)) (irq_stub n) 0x08 0x8E s) s [0..<16])"

section \<open>Exceptions\<close>

text \<open>\<^verbatim>\<open>struct registers\<close>, as the entry stubs push it.\<close>

record registers =
  r_ds :: u32
  r_edi :: u32
  r_esi :: u32
  r_ebp :: u32
  r_esp :: u32
  r_ebx :: u32
  r_edx :: u32
  r_ecx :: u32
  r_eax :: u32
  int_no :: u32
  err_code :: u32
  r_eip :: u32
  r_cs :: u32
  r_eflags :: u32
  useresp :: u32
  r_ss :: u32

datatype 's run = Running 's | Stopped 's

definition exception_names :: "string list" where
  "exception_names =
     [''divide by zero'', ''debug'', ''non-maskable interrupt'', ''breakpoint'',
      ''overflow'', ''bound range exceeded'', ''invalid opcode'', ''device not available'',
      ''double fault'', ''coprocessor segment overrun'', ''invalid TSS'',
      ''segment not present'', ''stack-segment fault'', ''general protection fault'',
      ''page fault'', ''reserved'', ''x87 floating-point'', ''alignment check'',
      ''machine check'', ''SIMD floating-point'', ''virtualization'', ''control protection'',
      ''reserved'', ''reserved'', ''reserved'', ''reserved'', ''reserved'', ''reserved'',
      ''reserved'', ''reserved'', ''reserved'', ''reserved'']"

text \<open>\<open>cr2\<close> is the processor's register of that name, which \<open>page_fault_handler\<close> reads.\<close>

definition isr_handler :: "u32 \<Rightarrow> registers \<Rightarrow> 'a machine_scheme \<Rightarrow> 'a machine_scheme run" where
  "isr_handler cr2 r s =
     (if int_no r = 3
      then Running (let s = kprint ''[breakpoint at '' s;
                        s = kprint_hex (r_eip r) s
                    in kprint '']\<newline>'' s)
      else Stopped (let s = (if int_no r = 14 then page_fault_handler cr2 (err_code r) s else s);
                        s = kprint ''\<newline>*** CPU EXCEPTION '' s;
                        s = kprint_int (int_no r) s;
                        s = kprint '': '' s;
                        s = kprint (if int_no r < 32 then exception_names ! unat (int_no r) else ''unknown'') s;
                        s = kprint '' ***\<newline>  eip: '' s;
                        s = kprint_hex (r_eip r) s;
                        s = kprint ''  err: '' s;
                        s = kprint_hex (err_code r) s
                    in kprint ''\<newline>System halted.\<newline>'' s))"

section \<open>Hardware interrupts\<close>

definition irq_handler :: "registers \<Rightarrow> 'a input_layer_scheme \<Rightarrow> 'a input_layer_scheme option" where
  "irq_handler r s =
     (let s = (if int_no r \<ge> 40 then kout 0xA0 0x20 s else s);
          s = kout 0x20 0x20 s
      in if int_no r = 32 then timer_tick s
         else if int_no r = 33 then Some (keyboard_handler s)
         else if int_no r = 36 then serial_handler s
         else Some s)"

section \<open>The table after boot\<close>

text \<open>The handler address a gate holds, put together as the processor does.\<close>

definition gate_target :: "idt_entry \<Rightarrow> u32" where
  "gate_target g = ucast (base_low g) OR push_bit 16 (ucast (base_high g))"

lemma gate_target_split:
  "ucast (ucast (b AND 0xFFFF) :: u16) OR push_bit 16 (ucast (ucast (drop_bit 16 b AND 0xFFFF) :: u16)) = (b :: u32)"
  (is "?l = _")
proof (rule bit_word_eqI)
  fix n :: nat
  have m: "(0xFFFF :: u32) = mask 16" by (simp add: mask_eq_exp_minus_1)
  assume "n < LENGTH(32)"
  then show "bit ?l n = bit b n"
    unfolding m by (cases "n < 16") (auto simp: bit_simps)
qed

lemma set_gate_simps [simp]:
  "length (idt (idt_set_gate n b sel fl s)) = length (idt s)"
  "con (idt_set_gate n b sel fl s) = con s"
  by (simp_all add: idt_set_gate_def)

lemma set_gate_target:
  "length (idt s) = 256 \<Longrightarrow> gate_target (idt (idt_set_gate n b sel fl s) ! unat n) = b"
  using unsigned_less [of n, where ?'a = nat]
  by (simp add: idt_set_gate_def gate_target_def gate_target_split)

definition gate :: "u32 \<Rightarrow> idt_entry" where
  "gate b = \<lparr>base_low = ucast (b AND 0xFFFF), selector = 0x08, always0 = 0, flags = 0x8E,
     base_high = ucast (drop_bit 16 b AND 0xFFFF)\<rparr>"

lemma gate_target [simp]: "gate_target (gate b) = b"
  by (simp add: gate_def gate_target_def gate_target_split)

lemma set_gates:
  assumes "k + n \<le> 256"
  shows "\<exists>t. foldl (\<lambda>s i. idt_set_gate (of_nat (k + i)) (f i) 0x08 0x8E s) s [0..<n] =
      s\<lparr>idt := t\<rparr> \<and> length t = length (idt s) \<and>
    (length (idt s) = 256 \<longrightarrow> (\<forall>i < 256. t ! i = (if k \<le> i \<and> i < k + n then gate (f (i - k)) else idt s ! i)))"
  using assms
proof (induction n)
  case 0
  have "s = s\<lparr>idt := idt s\<rparr>" by simp
  then show ?case by (intro exI [of _ "idt s"]) auto
next
  case (Suc n)
  then obtain t where t: "foldl (\<lambda>s i. idt_set_gate (of_nat (k + i)) (f i) 0x08 0x8E s) s [0..<n] = s\<lparr>idt := t\<rparr>"
    "length t = length (idt s)"
    "length (idt s) = 256 \<longrightarrow> (\<forall>i < 256. t ! i = (if k \<le> i \<and> i < k + n then gate (f (i - k)) else idt s ! i))"
    by auto
  have u: "unat (word_of_nat (k + n) :: u8) = k + n"
    using Suc.prems by (subst unat_of_nat) simp
  show ?case
    using t u Suc.prems
    by (intro exI [of _ "t[k + n := gate (f n)]"])
      (auto simp: idt_set_gate_def gate_def nth_list_update less_Suc_eq simp del: of_nat_add)
qed

lemma zero_gates:
  "foldl (\<lambda>s i. s\<lparr>idt := (idt s)[i := zero_gate]\<rparr>) s [0..<n] =
     s\<lparr>idt := foldl (\<lambda>v i. v[i := zero_gate]) (idt s) [0..<n]\<rparr>"
  by (induction n) simp_all

lemma idt_install_spec:
  "length (idt s) = 256 \<Longrightarrow> idt_install a s =
     s\<lparr>idt := replicate 256 zero_gate, idtp := \<lparr>limit = 2047, idt_base = a\<rparr>, idtr := \<lparr>limit = 2047, idt_base = a\<rparr>\<rparr>"
  using fill_foldl [of 0 256 "idt s" zero_gate]
  by (simp add: idt_install_def zero_gates idt_load_def IDT_ENTRIES_def)

end
