(* ===== verification/Frames.thy ===== *)
theory Frames
  imports Isr
begin

text \<open>
  Frame lemmas for the layers above the scheduler: the scheduler invariant does not depend on the
  console, the tick counter or the input ring, and neither \<open>kfree\<close> nor a scheduler tick changes what
  lies above the scheduler in the state.
\<close>

lemma task_inv_con [simp]: "task_inv B bs (s\<lparr>con := c\<rparr>) = task_inv B bs s"
  by (simp add: task_inv_def boot_stack_ok_def pool_def table_frames_def table_set_def dirent_def)

lemma heap_inv_upper [simp]:
  fixes t :: "'a timer_layer_scheme" and u :: "'b input_layer_scheme"
  shows "heap_inv (t\<lparr>ticks := n\<rparr>) bs = heap_inv t bs"
    "heap_inv (u\<lparr>ring := cs\<rparr>) bs = heap_inv u bs" "heap_inv (u\<lparr>ring_head := w\<rparr>) bs = heap_inv u bs"
    "heap_inv (u\<lparr>ring_tail := w\<rparr>) bs = heap_inv u bs" "heap_inv (u\<lparr>shift_down := b\<rparr>) bs = heap_inv u bs"
  by (simp_all add: heap_inv_def paging_inv_def table_ok_def table_set_def dirent_def mapped_set_def pte_def
      table_entry_def backed_def page_of_def table_frames_def)

lemma pool_upper [simp]:
  fixes t :: "'a timer_layer_scheme" and u :: "'b input_layer_scheme"
  shows "pool (t\<lparr>ticks := n\<rparr>) = pool t" "pool (u\<lparr>ring := cs\<rparr>) = pool u" "pool (u\<lparr>ring_head := w\<rparr>) = pool u"
    "pool (u\<lparr>ring_tail := w\<rparr>) = pool u" "pool (u\<lparr>shift_down := b\<rparr>) = pool u"
  by (simp_all add: pool_def table_frames_def table_set_def dirent_def)

lemma task_inv_upper [simp]:
  fixes t :: "'a timer_layer_scheme" and u :: "'b input_layer_scheme"
  shows "task_inv B bs (t\<lparr>ticks := n\<rparr>) = task_inv B bs t"
    "task_inv B bs (u\<lparr>ring := cs\<rparr>) = task_inv B bs u" "task_inv B bs (u\<lparr>ring_head := w\<rparr>) = task_inv B bs u"
    "task_inv B bs (u\<lparr>ring_tail := w\<rparr>) = task_inv B bs u" "task_inv B bs (u\<lparr>shift_down := b\<rparr>) = task_inv B bs u"
  by (simp_all add: task_inv_def boot_stack_ok_def)

text \<open>What lies above the scheduler in the state is not touched by a tick.\<close>

lemma kfree_more: "kfree a s = Some (ok, s') \<Longrightarrow> heap_layer.more s' = heap_layer.more s"
  by (auto simp: kfree_def coalesce_def kprint_defs Let_def Option.bind_eq_Some_conv split: if_splits)

lemma kfree_task_more:
  fixes s :: "'a task_layer_scheme"
  shows "kfree a s = Some (ok, s') \<Longrightarrow> task_layer.more s' = task_layer.more s"
  by (drule kfree_more) (cases s; cases s'; simp)

lemma reap_loop_more: "reap_loop is s = Some s' \<Longrightarrow> task_layer.more s' = task_layer.more s"
proof (induction "is" s arbitrary: s' rule: reap_loop.induct)
  case (2 i "is" s)
  show ?case
  proof (cases "state_of (sched s) i = TASK_DEAD \<and> i \<noteq> current (sched s)")
    case True
    with "2.prems" obtain s1 where
      s1: "(if stack_base (tasks (sched s) ! i) \<noteq> 0
             then map_option snd (kfree (stack_base (tasks (sched s) ! i)) s) else Some s) = Some s1"
      and rest: "reap_loop is (on_sched (upd_task i (\<lambda>t. t\<lparr>stack_base := 0, tstate := TASK_UNUSED\<rparr>)) s1) = Some s'"
      by (auto simp: Option.bind_eq_Some_conv)
    have "task_layer.more s1 = task_layer.more s"
      using s1 kfree_task_more by (auto split: if_splits)
    with "2.IH"(1) [OF True s1 rest] show ?thesis by (simp add: on_sched_def)
  next
    case False
    with 2 show ?thesis by simp
  qed
qed simp

lemma switch_to_more:
  "task_layer.more (switch_to nxt s) = task_layer.more s" "con (switch_to nxt s) = con s"
  by (cases nxt; simp add: switch_to_def context_switch_def on_sched_def Let_def split: prod.split)+

lemma scheduler_tick_more:
  assumes "scheduler_tick s = Some s'"
  shows "task_layer.more s' = task_layer.more s"
proof (cases "enabled (sched s) = 0")
  case True
  with assms show ?thesis by (simp add: scheduler_tick_def)
next
  case False
  with assms obtain t where t: "reap s = Some t"
    and s': "(if quantum_left (sched t) > 1 then Some (on_sched (\<lambda>sc. sc\<lparr>quantum_left := quantum_left sc - 1\<rparr>) t)
       else Some (switch_to (pick_next (sched t)) t)) = Some s'"
    by (auto simp: scheduler_tick_def Option.bind_eq_Some_conv)
  have "task_layer.more t = task_layer.more s"
    using t unfolding reap_def by (rule reap_loop_more)
  with s' switch_to_more(1) [of _ t] show ?thesis
    by (auto simp: on_sched_def split: if_splits)
qed

lemma scheduler_tick_con:
  assumes "task_inv B bs s" "room B s" "scheduler_tick s = Some s'"
  shows "con s' = con s"
proof (cases "enabled (sched s) = 0")
  case True
  with assms(3) show ?thesis by (simp add: scheduler_tick_def)
next
  case False
  obtain t bs' where "reap s = Some t" "task_inv B bs' t" "room B t" and t: "reaped B [1..<8] s t"
    and "live bs' = live bs |` (- (\<lambda>i. stack_base (tasks (sched s) ! i)) ` dead_slots [1..<8] (sched s))"
    and tick: "scheduler_tick s = Some (if quantum_left (sched s) > 1
       then on_sched (\<lambda>sc. sc\<lparr>quantum_left := quantum_left sc - 1\<rparr>) t
       else switch_to (pick_next (sched t)) t)"
    using scheduler_tick_spec [OF assms(1,2) False] .
  have "con t = con s" using t by (simp add: reaped_def)
  with tick assms(3) switch_to_more(2) [of _ t] show ?thesis by (auto split: if_splits)
qed

lemma upper_fields:
  fixes s s' :: "'a input_layer_scheme"
  assumes "task_layer.more s' = task_layer.more s"
  shows "ticks s' = ticks s" "ring s' = ring s" "ring_head s' = ring_head s" "ring_tail s' = ring_tail s"
    "shift_down s' = shift_down s"
  using assms by (cases s; cases s'; simp)+

lemma push_task_inv [simp]: "task_inv B bs (shell_push_char c s) = task_inv B bs s"
  by (simp add: shell_push_char_def Let_def)

lemma push_fold_task_inv: "task_inv B bs (fold shell_push_char cs s) = task_inv B bs s"
  by (induction cs arbitrary: s) simp_all

lemma push_ticks [simp]: "ticks (shell_push_char c s) = ticks s"
  by (simp add: shell_push_char_def Let_def)

lemma push_fold_ticks: "ticks (fold shell_push_char cs s) = ticks s"
  by (induction cs arbitrary: s) simp_all

end
