(* ===== verification/Device_Claims.thy ===== *)
theory Device_Claims
  imports Frames
begin

text \<open>
  The properties of the input path (ring, keyboard, UART), of the timer and of the interrupt tables
  and handlers.
\<close>

section \<open>The input ring\<close>

text \<open>
  A run of the ring: the characters the pops delivered, those the pushes stored, and the end state. A
  push drops its character when the next head would meet the tail.
\<close>

fun ring_run :: "char queue_op list \<Rightarrow> 'a input_layer_scheme \<Rightarrow> string \<times> string \<times> 'a input_layer_scheme" where
  "ring_run [] s = ([], [], s)"
| "ring_run (Push c # ops) s =
     (let (out, acc, s') = ring_run ops (shell_push_char c s)
      in (out, if (ring_head s + 1) mod RING_SIZE \<noteq> ring_tail s then c # acc else acc, s'))"
| "ring_run (Pop # ops) s =
     (case ring_pop s of
        None \<Rightarrow> ring_run ops s
      | Some (c, s) \<Rightarrow> let (out, acc, s') = ring_run ops s in (c # out, acc, s'))"

lemma ring_run_queue: "ring_ok s \<Longrightarrow> ring_run ops s = rq.run ops s"
proof (induction ops s rule: ring_run.induct)
  case (2 c ops s)
  have "length (ring_items s) < 255 \<longleftrightarrow> (ring_head s + 1) mod RING_SIZE \<noteq> ring_tail s"
    using ring_full [OF "2.prems"] ring_bound [OF "2.prems"] by (auto simp: ring_items_def)
  with 2 show ?case
    by (simp add: rq.inv_push)
next
  case (3 ops s)
  show ?case
  proof (cases "ring_items s")
    case Nil
    with 3 show ?thesis
      using rq.pop_empty [OF "3.prems"] by simp
  next
    case (Cons c cs)
    then obtain s' where "ring_pop s = Some (c, s')" "ring_ok s'"
      using rq.pop_items [OF "3.prems"] by blast
    with 3 show ?thesis by simp
  qed
qed simp

text \<open>
  C29: the ring is a first-in first-out queue of at most 255 characters. Each operation does to the queue
  what it should (a push on a full queue drops the character), and through every sequence of pushes and
  pops, in any interleaving, the delivered characters followed by the queued ones are those queued at the
  start followed by those stored: none is lost once stored, none is delivered twice, the order is kept.
\<close>

theorem ring_is_fifo:
  assumes "ring_ok s" and "ring_run ops s = (delivered, stored, s')"
  shows "ring_ok s' \<and> delivered @ ring_items s' = ring_items s @ stored \<and> length (ring_items s') \<le> 255 \<and>
    ring_items (shell_push_char c s) = (if length (ring_items s) < 255 then ring_items s @ [c] else ring_items s) \<and>
    map_option (\<lambda>(c, t). (c, ring_items t)) (ring_pop s) =
      (case ring_items s of [] \<Rightarrow> None | c # cs \<Rightarrow> Some (c, cs))"
proof -
  have "rq.run ops s = (delivered, stored, s')"
    using assms by (simp add: ring_run_queue)
  from rq.run_fifo [OF assms(1) this]
  have "ring_ok s'" "delivered @ ring_items s' = ring_items s @ stored" by simp_all
  moreover have "map_option (\<lambda>(c, t). (c, ring_items t)) (ring_pop s) =
      (case ring_items s of [] \<Rightarrow> None | c # cs \<Rightarrow> Some (c, cs))"
    using rq.pop_empty [OF assms(1)] rq.pop_items [OF assms(1)] by (fastforce split: list.split)
  ultimately show ?thesis
    using rq.items_push [OF assms(1)] rq.items_bound by blast
qed

text \<open>A kernel with empty statics whose devices present \<open>inp\<close>.\<close>

definition demo_idle :: "(nat \<Rightarrow> u16 \<Rightarrow> u8) \<Rightarrow> 'a \<Rightarrow> 'a input_layer_scheme" where
  "demo_idle inp m = (demo_off \<lparr>heap = \<lparr>head = 0, brk = 0, heap_ready = False\<rparr>, sched = sched_boot, cpu = demo_cpu,
     ticks = 0, ring = replicate 256 NUL, ring_head = 0, ring_tail = 0, shift_down = False, \<dots> = m\<rparr>)
     \<lparr>con := demo_con\<lparr>inputs := inp\<rparr>\<rparr>"

lemma demo_idle [simp]:
  "ring_ok (demo_idle inp m)" "ring_items (demo_idle inp m) = []" "\<not> shift_down (demo_idle inp m)"
  "con (demo_idle inp m) = demo_con\<lparr>inputs := inp\<rparr>" "ticks (demo_idle inp m) = 0" "sched (demo_idle inp m) = sched_boot"
  by (simp_all add: demo_idle_def demo_off_def ring_ok_def ring_items_def ring_count_def RING_SIZE_def)

theorem ring_is_fifo_witness:
  "\<exists>s'. ring_run [Push CHR ''a'', Push CHR ''b'', Pop] (demo_idle (\<lambda>_ _. 0) ()) = (''a'', ''ab'', s') \<and> ring_items s' = ''b''"
proof -
  let ?s = "demo_idle (\<lambda>_ _. 0) ()"
  obtain out acc s' where r: "ring_run [Push CHR ''a'', Push CHR ''b'', Pop] ?s = (out, acc, s')"
    by (metis prod.exhaust)
  from r have "out = ''a''" "acc = ''ab''"
    by (auto simp: shell_push_char_def ring_pop_def demo_idle_def demo_off_def RING_SIZE_def)
  with r ring_is_fifo [OF _ r] show ?thesis by simp
qed

section \<open>The keyboard\<close>

text \<open>
  C30: what is typed arrives. The scancodes of any text of printable characters and newlines, with
  shift pressed and released around each character that needs it, put exactly that text into the
  input queue, up to its capacity of 255. The scancodes are those of \<open>key_rows\<close>, a US keyboard described
  row by row, not read off the tables of the driver; shift is released again.
\<close>

theorem keyboard_types_text:
  assumes "ring_ok s" and "\<not> shift_down s" and "list_all typeable cs"
    and "key_script (inputs (con s)) (in_count (con s)) (concat (map keys_of cs))"
  defines "t \<equiv> (keyboard_handler ^^ length (concat (map keys_of cs))) s"
  shows "ring_ok t \<and> ring_items t = ring_items s @ take (255 - length (ring_items s)) cs \<and> \<not> shift_down t"
proof -
  have t: "t = (fold shell_push_char cs s)\<lparr>con := (con s)\<lparr>in_count := in_count (con s) + length (concat (map keys_of cs))\<rparr>\<rparr>"
    unfolding t_def by (rule keys_of_text [OF assms(3,2,4)])
  moreover have "shift_down (fold shell_push_char cs s) = shift_down s" for cs
    by (induction cs arbitrary: s) simp_all
  ultimately show ?thesis
    using rq.push_all [OF assms(1), of cs] assms(2) by simp
qed

theorem keyboard_types_text_witness:
  "ring_items ((keyboard_handler ^^ 4) (demo_idle (\<lambda>n p. [0x2A, 0x23, 0xAA, 0x17] ! n) ())) = ''Hi''"
proof -
  let ?s = "demo_idle (\<lambda>n p. [0x2A, 0x23, 0xAA, 0x17] ! n) ()"
  have k: "concat (map keys_of ''Hi'') = [0x2A, 0x23, 0xAA, 0x17]"
    by (simp add: keys_of_def key_rows_def index_of_def)
  have "list_all typeable ''Hi''" by (simp add: typeable_def uchar_def)
  moreover have "key_script (inputs (con ?s)) (in_count (con ?s)) (concat (map keys_of ''Hi''))"
    unfolding k by (simp add: demo_con_def)
  ultimately show ?thesis
    using keyboard_types_text [of ?s "''Hi''"] unfolding k by (simp add: eval_nat_numeral)
qed

section \<open>Reception\<close>

text \<open>
  C31: the receive interrupt. As long as the UART presents bytes and then stops, \<open>serial_handler\<close>
  ends; it has counted every byte and queued them in order, carriage return as newline and delete as
  backspace, up to the capacity of the queue, and has written to no port.
\<close>

theorem serial_receives:
  assumes "ring_ok s" and "rx_script (inputs (con s)) (in_count (con s)) bs"
  shows "\<exists>t. serial_handler s = Some t \<and> ring_ok t \<and>
    ring_items t = ring_items s @ take (255 - length (ring_items s)) (map rx_char bs) \<and>
    serial_rx_count t = serial_rx_count s + of_nat (length bs) \<and> outputs (con t) = outputs (con s)"
  using serial_handler_script [OF assms(2)] rq.push_all [of "s\<lparr>con := c\<rparr>" "map rx_char bs" for c] assms(1)
  by (simp add: serial_rx_count_def)

definition demo_rx :: "nat \<Rightarrow> u16 \<Rightarrow> u8" where
  "demo_rx n p = (if p = COM1 + REG_LSR then (if n < 6 then 1 else 0) else [0, 0x6F, 0, 0x7F, 0, 0x0D] ! n)"

theorem serial_receives_witness:
  "\<exists>t. serial_handler (demo_idle demo_rx ()) = Some t \<and> ring_items t = [CHR ''o'', CHR 0x08, CHR 0x0A]"
proof -
  have "rx_script (inputs (con (demo_idle demo_rx ()))) (in_count (con (demo_idle demo_rx ()))) [0x6F, 0x7F, 0x0D]"
    by (simp add: demo_con_def demo_rx_def serial_consts)
  from serial_receives [OF _ this] obtain t where t: "serial_handler (demo_idle demo_rx ()) = Some t"
    "ring_items t = map rx_char [0x6F, 0x7F, 0x0D]" by auto
  moreover have "map rx_char [0x6F, 0x7F, 0x0D] = [CHR ''o'', CHR 0x08, CHR 0x0A]"
    by (simp add: rx_char_def) code_simp
  ultimately show ?thesis by auto
qed

section \<open>The descriptor table\<close>

lemma pic_remap_out:
  "pic_remap s = s\<lparr>con := (con s)\<lparr>outputs := outputs (con s) @
     [(0x20, 0x11), (0xA0, 0x11), (0x21, 0x20), (0xA1, 0x28), (0x21, 0x04), (0xA1, 0x02), (0x21, 0x01),
      (0xA1, 0x01), (0x21, 0), (0xA1, 0)]\<rparr>\<rparr>"
  by (simp add: pic_remap_def kout_def outb_def)

lemma isr_install_spec:
  fixes s :: "'a isr_layer_scheme"
  assumes "length (idt s) = 256"
  shows "\<exists>t. isr_install isr_stub irq_stub s = (pic_remap s)\<lparr>idt := t\<rparr> \<and> length t = 256 \<and>
    (\<forall>v < 256. t ! v = (if v < 32 then gate (isr_stub v) else if v < 48 then gate (irq_stub (v - 32)) else idt s ! v))"
proof -
  have l: "length (idt (pic_remap s)) = 256" "idt (pic_remap s) = idt s"
    using assms by (simp_all add: pic_remap_out)
  obtain t where t: "foldl (\<lambda>s i. idt_set_gate (of_nat i) (isr_stub i) 0x08 0x8E s) (pic_remap s) [0..<32] = (pic_remap s)\<lparr>idt := t\<rparr>"
    "length t = 256" "\<forall>i < 256. t ! i = (if i < 32 then gate (isr_stub i) else idt s ! i)"
    using set_gates [of 0 32 isr_stub "pic_remap s"] l by auto
  obtain u where "foldl (\<lambda>s i. idt_set_gate (of_nat (32 + i)) (irq_stub i) 0x08 0x8E s) ((pic_remap s)\<lparr>idt := t\<rparr>) [0..<16] =
      (pic_remap s)\<lparr>idt := t\<rparr>\<lparr>idt := u\<rparr>"
    "length u = 256" "\<forall>i < 256. u ! i = (if 32 \<le> i \<and> i < 48 then gate (irq_stub (i - 32)) else t ! i)"
    using set_gates [of 32 16 irq_stub "(pic_remap s)\<lparr>idt := t\<rparr>"] t(2) by auto
  with t show ?thesis
    by (intro exI [of _ u]) (simp add: isr_install_def Let_def)
qed

text \<open>
  C32: the interrupt tables after boot. Every vector below 48 has a present ring-0 interrupt gate in the code
  segment that leads, put together as the processor does from its two halves, to its own entry stub; all others are
  empty; the table register covers all 256 entries; and the controllers have been given the vectors 32 and 40.
\<close>

theorem idt_leads_to_stubs:
  fixes s :: "'a isr_layer_scheme" and isr_stub irq_stub :: "nat \<Rightarrow> u32" and idt_addr :: u32
  assumes "length (idt s) = 256"
  defines "t \<equiv> isr_install isr_stub irq_stub (idt_install idt_addr s)"
  shows "idtr t = \<lparr>limit = 8 * 256 - 1, idt_base = idt_addr\<rparr> \<and> length (idt t) = 256 \<and>
    (\<forall>v < 48. gate_target (idt t ! v) = (if v < 32 then isr_stub v else irq_stub (v - 32)) \<and>
       selector (idt t ! v) = 0x08 \<and> flags (idt t ! v) = 0x8E) \<and>
    (\<forall>v < 256. 48 \<le> v \<longrightarrow> idt t ! v = zero_gate) \<and>
    outputs (con t) = outputs (con s) @
     [(0x20, 0x11), (0xA0, 0x11), (0x21, 0x20), (0xA1, 0x28), (0x21, 0x04), (0xA1, 0x02), (0x21, 0x01),
      (0xA1, 0x01), (0x21, 0), (0xA1, 0)]"
proof -
  note i = idt_install_spec [OF assms(1), of idt_addr]
  have l: "length (idt (idt_install idt_addr s)) = 256" by (simp add: i)
  from isr_install_spec [OF l, of isr_stub irq_stub] obtain u where
    u: "t = (pic_remap (idt_install idt_addr s))\<lparr>idt := u\<rparr>" "length u = 256"
      "\<forall>v < 256. u ! v = (if v < 32 then gate (isr_stub v) else if v < 48 then gate (irq_stub (v - 32)) else zero_gate)"
    unfolding t_def by (auto simp: i)
  have "selector (gate b) = 0x08" "flags (gate b) = 0x8E" for b by (simp_all add: gate_def)
  with u show ?thesis by (auto simp: pic_remap_out i)
qed

theorem idt_leads_to_stubs_witness:
  "\<exists>s :: isr_layer. gate_target (idt (isr_install (\<lambda>n. 0x100000 + of_nat n) (\<lambda>n. 0x200000 + of_nat n) (idt_install 0x5000 s)) ! 33) =
     0x200001"
proof -
  define s :: isr_layer where "s = demo_idle (\<lambda>_ _. 0)
    \<lparr>idt = replicate 256 zero_gate, idtp = \<lparr>limit = 0, idt_base = 0\<rparr>, idtr = \<lparr>limit = 0, idt_base = 0\<rparr>\<rparr>"
  have "length (idt s) = 256" by (simp add: s_def demo_idle_def demo_off_def)
  from idt_leads_to_stubs [OF this, where isr_stub = "\<lambda>n. 0x100000 + of_nat n" and
      irq_stub = "\<lambda>n. 0x200000 + of_nat n" and idt_addr = "0x5000"] show ?thesis
    by (intro exI [of _ s]) simp
qed

section \<open>Hardware interrupts\<close>

lemma push_more: "input_layer.more (shell_push_char c s) = input_layer.more s"
  by (simp add: shell_push_char_def Let_def)

lemma push_fold_more: "input_layer.more (fold shell_push_char cs s) = input_layer.more s"
  by (induction cs arbitrary: s) (simp_all add: push_more)

lemma keyboard_keeps:
  "task_inv B bs (keyboard_handler s) = task_inv B bs s" "ring_ok s \<Longrightarrow> ring_ok (keyboard_handler s)"
  "ticks (keyboard_handler s) = ticks s" "outputs (con (keyboard_handler s)) = outputs (con s)"
  "input_layer.more (keyboard_handler s) = input_layer.more s" "vga_inv (con (keyboard_handler s)) = vga_inv (con s)"
proof -
  have "ring_ok (t\<lparr>shift_down := b\<rparr>) = ring_ok t" for t :: "'a input_layer_scheme" and b
    by (simp add: ring_ok_def)
  then show "task_inv B bs (keyboard_handler s) = task_inv B bs s" "ring_ok s \<Longrightarrow> ring_ok (keyboard_handler s)"
    "ticks (keyboard_handler s) = ticks s" "outputs (con (keyboard_handler s)) = outputs (con s)"
    "input_layer.more (keyboard_handler s) = input_layer.more s" "vga_inv (con (keyboard_handler s)) = vga_inv (con s)"
    by (simp_all add: keyboard_handler_def kin_def inb_def Let_def rq.inv_push push_more vga_inv_def)
qed

definition eoi :: "u32 \<Rightarrow> (u16 \<times> u8) list" where
  "eoi v = (if v \<ge> 40 then [(0xA0, 0x20)] else []) @ [(0x20, 0x20)]"

lemma irq_eoi:
  "irq_handler r s = (let t = s\<lparr>con := (con s)\<lparr>outputs := outputs (con s) @ eoi (int_no r)\<rparr>\<rparr>
     in if int_no r = 32 then timer_tick t
        else if int_no r = 33 then Some (keyboard_handler t)
        else if int_no r = 36 then serial_handler t
        else Some t)"
  by (simp add: irq_handler_def kout_def outb_def eoi_def Let_def)

lemma irq_handler_spec:
  assumes "task_inv B bs s" and "room B s" and "ring_ok s"
    and "int_no r = 36 \<longrightarrow> rx_script (inputs (con s)) (in_count (con s)) bytes"
  shows "\<exists>t bs'. irq_handler r s = Some t \<and> task_inv B bs' t \<and> ring_ok t \<and>
    outputs (con t) = outputs (con s) @ eoi (int_no r) \<and>
    ticks t = (if int_no r = 32 then ticks s + 1 else ticks s) \<and>
    (int_no r = 32 \<longrightarrow> timer_tick (kout 0x20 0x20 s) = Some t) \<and>
    (int_no r \<noteq> 33 \<and> int_no r \<noteq> 36 \<longrightarrow> ring_items t = ring_items s) \<and>
    input_layer.more t = input_layer.more s \<and> (vga_inv (con s) \<longrightarrow> vga_inv (con t))"
proof -
  define s0 where "s0 = s\<lparr>con := (con s)\<lparr>outputs := outputs (con s) @ eoi (int_no r)\<rparr>\<rparr>"
  have s0: "task_inv B bs s0" "ring_ok s0" "ring_items s0 = ring_items s" "ticks s0 = ticks s"
    "input_layer.more s0 = input_layer.more s" "vga_inv (con s0) = vga_inv (con s)"
    using assms by (simp_all add: s0_def vga_inv_def)
  note irq = irq_eoi [of r s, folded s0_def]
  consider "int_no r = 32" | "int_no r = 33" | "int_no r = 36" | "int_no r \<noteq> 32" "int_no r \<noteq> 33" "int_no r \<noteq> 36"
    by blast
  then show ?thesis
  proof cases
    case 1
    let ?t0 = "s0\<lparr>ticks := ticks s0 + 1\<rparr>"
    have t0: "task_inv B bs ?t0" "room B ?t0"
      using s0 assms(2) by (simp_all add: room_def s0_def)
    obtain t bs' where t: "scheduler_tick ?t0 = Some t" "task_inv B bs' t"
      using scheduler_tick_inv [OF t0] by blast
    note up = upper_fields [OF scheduler_tick_more [OF t(1)]]
    have "ring_ok t = ring_ok s0" "ring_items t = ring_items s0"
      using up by (simp_all add: ring_ok_def ring_items_def ring_count_def)
    moreover have "irq_handler r s = Some t" using irq 1 t(1) by (simp add: timer_tick_def Let_def)
    moreover have "timer_tick (kout 0x20 0x20 s) = Some t"
      using t(1) 1 by (simp add: timer_tick_def kout_def outb_def s0_def eoi_def)
    moreover have "input_layer.more t = input_layer.more s0"
      using scheduler_tick_more [OF t(1)] by (cases t; cases s0; simp)
    moreover have "con t = con s0" using scheduler_tick_con [OF t0 t(1)] by simp
    ultimately show ?thesis
      using 1 t(2) s0 up(1) by (intro exI [of _ t] exI [of _ bs']) (simp add: s0_def)
  next
    case 2
    then show ?thesis
      using irq s0 by (intro exI [of _ "keyboard_handler s0"] exI [of _ bs]) (simp add: keyboard_keeps, simp add: s0_def)
  next
    case 3
    then have "rx_script (inputs (con s0)) (in_count (con s0)) bytes" using assms(4) by (simp add: s0_def)
    note sh = serial_handler_script [OF this]
    define t where "t = fold shell_push_char (map rx_char bytes) (s0\<lparr>con := (con s0)\<lparr>in_count := in_count (con s0) + 2 * length bytes + 1,
                        rx_count := rx_count (con s0) + of_nat (length bytes)\<rparr>\<rparr>)"
    have "irq_handler r s = Some t" using irq 3 sh by (simp add: t_def)
    moreover have "task_inv B bs t" "ring_ok t" "ticks t = ticks s" "input_layer.more t = input_layer.more s"
      "vga_inv (con t) = vga_inv (con s)"
      using s0 rq.push_all [OF s0(2), of "map rx_char bytes"]
      by (simp_all add: t_def push_fold_task_inv push_fold_ticks push_fold_more vga_inv_def)
    ultimately show ?thesis
      using 3 by (intro exI [of _ t] exI [of _ bs]) (simp add: t_def s0_def)
  next
    case 4
    then show ?thesis
      using irq s0 by (intro exI [of _ s0] exI [of _ bs]) (simp add: s0_def)
  qed
qed

text \<open>
  C33: hardware interrupts. From a sound kernel state, whatever the vector, the handler returns (the UART
  stops presenting bytes at some time), the kernel is sound afterwards, and the controllers have been sent
  exactly one end-of-interrupt each that needs one. On the timer interrupt it is sent before the scheduler runs,
  which may not return to this task for long; the tick is counted. Only the keyboard and the
  UART touch the input queue; the screen stays well-formed, and the shell's own state is untouched.
\<close>

theorem irq_handler_correct:
  assumes "task_inv B bs s" and "room B s" and "ring_ok s"
    and "int_no r = 36 \<longrightarrow> rx_script (inputs (con s)) (in_count (con s)) bytes"
  shows "\<exists>t bs'. irq_handler r s = Some t \<and> task_inv B bs' t \<and> ring_ok t \<and>
    outputs (con t) = outputs (con s) @ eoi (int_no r) \<and>
    ticks t = (if int_no r = 32 then ticks s + 1 else ticks s) \<and>
    (int_no r = 32 \<longrightarrow> timer_tick (kout 0x20 0x20 s) = Some t) \<and>
    (int_no r \<noteq> 33 \<and> int_no r \<noteq> 36 \<longrightarrow> ring_items t = ring_items s) \<and>
    input_layer.more t = input_layer.more s \<and> (vga_inv (con s) \<longrightarrow> vga_inv (con t))"
  by (rule irq_handler_spec [OF assms])

definition demo_regs :: "u32 \<Rightarrow> registers" where
  "demo_regs v = \<lparr>r_ds = 0x10, r_edi = 0, r_esi = 0, r_ebp = 0, r_esp = 0x9F00, r_ebx = 0, r_edx = 0, r_ecx = 0, r_eax = 0,
     int_no = v, err_code = 0, r_eip = 0x101234, r_cs = 0x08, r_eflags = 0x202, useresp = 0, r_ss = 0\<rparr>"

definition demo_kernel :: "'a \<Rightarrow> 'a input_layer_scheme" where
  "demo_kernel m = demo_task \<lparr>ticks = 0, ring = replicate 256 NUL, ring_head = 0, ring_tail = 0, shift_down = False, \<dots> = m\<rparr>"

lemma demo_task_more: "task_layer.more (demo_task m) = m"
proof -
  let ?m = "\<lparr>sched = sched_boot, cpu = demo_cpu, \<dots> = m\<rparr>"
  have "heap_layer.more (demo_heap ?m) = ?m" by (rule demo_heap(5))
  then have "task_layer.more (demo_heap ?m) = m" by (cases "demo_heap ?m") simp
  then show ?thesis by (simp add: demo_task_def scheduler_init_def on_sched_def)
qed

lemma demo_kernel:
  "task_inv demo_stack [(HEAP_START, 0xFFF0, True)] (demo_kernel m)" "room demo_stack (demo_kernel m)"
  "ring_ok (demo_kernel m)" "ring_items (demo_kernel m) = []" "ticks (demo_kernel m) = 0" "\<not> shift_down (demo_kernel m)"
  "input_layer.more (demo_kernel m) = m"
proof -
  let ?m = "\<lparr>ticks = 0, ring = replicate 256 NUL, ring_head = 0, ring_tail = 0, shift_down = False, \<dots> = m\<rparr>"
  show "task_inv demo_stack [(HEAP_START, 0xFFF0, True)] (demo_kernel m)" "room demo_stack (demo_kernel m)"
    unfolding demo_kernel_def by (rule demo_task)+
  have "task_layer.more (demo_kernel m) = ?m"
    unfolding demo_kernel_def by (rule demo_task_more)
  then have f: "ticks (demo_kernel m) = 0" "ring (demo_kernel m) = replicate 256 NUL" "ring_head (demo_kernel m) = 0"
    "ring_tail (demo_kernel m) = 0" "\<not> shift_down (demo_kernel m)" "input_layer.more (demo_kernel m) = m"
    by (cases "demo_kernel m"; simp)+
  then show "ring_ok (demo_kernel m)" "ring_items (demo_kernel m) = []" "ticks (demo_kernel m) = 0"
    "\<not> shift_down (demo_kernel m)" "input_layer.more (demo_kernel m) = m"
    by (simp_all add: ring_ok_def ring_items_def ring_count_def RING_SIZE_def)
qed

theorem irq_handler_correct_witness:
  "\<exists>t. irq_handler (demo_regs 32) (demo_kernel ()) = Some t \<and> ticks t = 1 \<and>
     outputs (con t) = outputs (con (demo_kernel ())) @ [(0x20, 0x20)]"
proof -
  note k = demo_kernel [of "()"]
  have "int_no (demo_regs 32) = 36 \<longrightarrow> rx_script (inputs (con (demo_kernel ()))) (in_count (con (demo_kernel ()))) []"
    by (simp add: demo_regs_def)
  from irq_handler_correct [OF k(1-3) this] show ?thesis
    by (auto simp: demo_regs_def eoi_def k(5))
qed

section \<open>Sleeping\<close>



end
