(* ===== verification/Stubs.thy ===== *)
theory Stubs
  imports Isr Task_Claims
begin

text \<open>
  The interrupt entry stubs (\<^verbatim>\<open>isr.asm\<close>). Each vector has a stub that completes the \<^verbatim>\<open>struct registers\<close> on the
  stack of the interrupted code and calls the handler; on return it takes the structure down again. The macros \<^verbatim>\<open>ISR_NOERR\<close>
  and \<^verbatim>\<open>IRQ\<close> push a zero in the place of an error code, \<^verbatim>\<open>ISR_ERR\<close> relies on the processor's. The segment
  registers are all flat; only the word saved for \<^verbatim>\<open>ds\<close> is modelled.
\<close>

section \<open>Entry and return\<close>

text \<open>The vectors for which the processor itself pushes an error code.\<close>

definition cpu_error :: "nat \<Rightarrow> bool" where
  "cpu_error v \<longleftrightarrow> v \<in> {8, 10, 11, 12, 13, 14, 17, 21}"

text \<open>What the processor pushes when it takes the interrupt.\<close>

definition interrupt_frame :: "nat \<Rightarrow> u32 \<Rightarrow> u32 \<Rightarrow> cpu \<Rightarrow> mem \<Rightarrow> u32 \<times> mem" where
  "interrupt_frame v e cs c m =
     (let p = fold push [eflags c, cs, eip c] (cpu_esp c, m)
      in if cpu_error v then push e p else p)"

text \<open>The table of macro invocations: the vectors with \<^verbatim>\<open>ISR_ERR\<close>; all others push a zero.\<close>

definition isr_err :: "nat \<Rightarrow> bool" where
  "isr_err v \<longleftrightarrow> v \<in> {8, 10, 11, 12, 13, 14}"

definition stub_entry :: "nat \<Rightarrow> u32 \<times> mem \<Rightarrow> u32 \<times> mem" where
  "stub_entry v p = push (of_nat v) (if isr_err v then p else push 0 p)"

text \<open>
  \<^verbatim>\<open>isr_common_stub\<close> and \<^verbatim>\<open>irq_common_stub\<close>, which differ in the handler they call, up to the first instruction of the handler:
  the address of the structure, which is the handler's argument, and the memory. \<open>ret\<close> is the return address of the call.
\<close>

definition common_stub :: "u32 \<Rightarrow> u16 \<Rightarrow> cpu \<Rightarrow> u32 \<times> mem \<Rightarrow> u32 \<times> mem" where
  "common_stub ret ds c p =
     (let p = fold push [eax c, ecx c, edx c, ebx c, fst p, ebp c, esi c, edi c] p;
          p = push ((eax c AND 0xFFFF0000) OR ucast ds) p
      in (fst p, snd (push ret (push (fst p) p))))"

definition enter_handler :: "u32 \<Rightarrow> nat \<Rightarrow> u32 \<Rightarrow> u32 \<Rightarrow> u16 \<Rightarrow> cpu \<Rightarrow> mem \<Rightarrow> u32 \<times> mem" where
  "enter_handler ret v e cs ds c m = common_stub ret ds c (stub_entry v (interrupt_frame v e cs c m))"

text \<open>The structure as the handler reads it through its argument.\<close>

definition registers_at :: "mem \<Rightarrow> u32 \<Rightarrow> registers" where
  "registers_at m a =
     \<lparr>r_ds = ld32 m a, r_edi = ld32 m (a + 4), r_esi = ld32 m (a + 8), r_ebp = ld32 m (a + 12),
      r_esp = ld32 m (a + 16), r_ebx = ld32 m (a + 20), r_edx = ld32 m (a + 24), r_ecx = ld32 m (a + 28),
      r_eax = ld32 m (a + 32), int_no = ld32 m (a + 36), err_code = ld32 m (a + 40), r_eip = ld32 m (a + 44),
      r_cs = ld32 m (a + 48), r_eflags = ld32 m (a + 52), useresp = ld32 m (a + 56), r_ss = ld32 m (a + 60)\<rparr>"

text \<open>From the return of the handler to \<^verbatim>\<open>iret\<close>: the processor's registers, the segment selectors \<^verbatim>\<open>ds\<close> and \<^verbatim>\<open>cs\<close>.\<close>

definition stub_return :: "mem \<Rightarrow> u32 \<Rightarrow> cpu \<times> u16 \<times> u32" where
  "stub_return m a =
     (\<lparr>eax = ld32 m (a + 32), ecx = ld32 m (a + 28), edx = ld32 m (a + 24), ebx = ld32 m (a + 20),
       cpu_esp = a + 56, ebp = ld32 m (a + 12), esi = ld32 m (a + 8), edi = ld32 m (a + 4),
       eflags = ld32 m (a + 52), eip = ld32 m (a + 44)\<rparr>, ucast (ld32 m a), ld32 m (a + 48))"

section \<open>The stack on entry\<close>

lemma enter_handler_regular:
  assumes "cpu_error v = isr_err v"
  shows "enter_handler ret v e cs ds c m =
    (cpu_esp c - 56, snd (fold push [eflags c, cs, eip c, if isr_err v then e else 0, of_nat v, eax c, ecx c, edx c, ebx c,
       cpu_esp c - 20, ebp c, esi c, edi c, (eax c AND 0xFFFF0000) OR ucast ds, cpu_esp c - 56, ret] (cpu_esp c, m)))"
  using assms by (simp add: enter_handler_def common_stub_def stub_entry_def interrupt_frame_def)

lemma enter_handler_shifted:
  assumes "cpu_error v" "\<not> isr_err v"
  shows "enter_handler ret v e cs ds c m =
    (cpu_esp c - 60, snd (fold push [eflags c, cs, eip c, e, 0, of_nat v, eax c, ecx c, edx c, ebx c,
       cpu_esp c - 24, ebp c, esi c, edi c, (eax c AND 0xFFFF0000) OR ucast ds, cpu_esp c - 60, ret] (cpu_esp c, m)))"
  using assms by (simp add: enter_handler_def common_stub_def stub_entry_def interrupt_frame_def)

lemma ds_word: "ucast ((x AND 0xFFFF0000) OR ucast (ds :: u16) :: u32) = ds"
proof (rule bit_word_eqI)
  fix n assume "n < LENGTH(16)"
  have m: "(0xFFFF0000 :: u32) = push_bit 16 (mask 16)" by (simp add: mask_eq_exp_minus_1)
  from \<open>n < LENGTH(16)\<close> show "bit (ucast ((x AND 0xFFFF0000) OR ucast ds :: u32) :: u16) n = bit ds n"
    unfolding m by (simp add: bit_simps)
qed

text \<open>The words of a structure that lies in a pushed list, the lowest two words being the call's.\<close>

lemma pushed_words:
  assumes "fold push ws (sp, m) = (sp', m')" "4 * length ws \<le> unat sp" "j + 2 < length ws"
    and "\<And>x. unat sp' + 8 \<le> unat x \<Longrightarrow> unat x < unat sp \<Longrightarrow> m'' x = m' x"
  shows "ld32 m'' (sp' + 8 + of_nat (4 * j)) = rev ws ! (j + 2)"
proof -
  note ps = push_spec [OF assms(1,2)]
  have l: "sp' + of_nat (4 * (j + 2)) = sp' + 8 + of_nat (4 * j)" by simp
  have top: "unat sp < 2 ^ 32" by (rule unat_u32_less)
  have "unat sp' + 4 * length ws = unat sp" using assms(2) ps(1) by simp
  moreover have "4 * (j + 3) \<le> 4 * length ws" using assms(3) by simp
  ultimately have le: "unat sp' + 4 * (j + 2) + 4 \<le> unat sp" by simp
  with top have u: "unat (sp' + of_nat (4 * (j + 2))) = unat sp' + 4 * (j + 2)"
    by (intro unat_add_small) simp
  with le have "ld32 m'' (sp' + of_nat (4 * (j + 2))) = ld32 m' (sp' + of_nat (4 * (j + 2)))"
    using top by (intro ld32_cong assms(4)) (simp_all only: u, simp_all)
  also have "\<dots> = rev ws ! (j + 2)" using assms(3) by (intro ps(3)) simp
  finally show ?thesis unfolding l .
qed

text \<open>The structure and the return, from the words that were pushed.\<close>

definition structure_words :: "nat \<Rightarrow> u32 list \<Rightarrow> mem \<Rightarrow> u32 \<Rightarrow> bool" where
  "structure_words n ws m a \<longleftrightarrow> (\<forall>j < n. ld32 m (a + of_nat (4 * j)) = rev ws ! (j + 2))"

lemma structure_words_pushed:
  assumes "fold push ws (sp, m) = (sp', m')" "4 * length ws \<le> unat sp" "2 \<le> length ws"
    and "\<And>x. unat (sp' + 8) \<le> unat x \<Longrightarrow> unat x < unat sp \<Longrightarrow> m'' x = m' x"
  shows "structure_words (length ws - 2) ws m'' (sp' + 8)" "sp' + 8 = sp - of_nat (4 * (length ws - 2))"
    and "unat x < unat sp - 4 * length ws \<or> unat sp \<le> unat x \<Longrightarrow> m' x = m x"
proof -
  note ps = push_spec [OF assms(1,2)]
  have e: "unat sp' + 4 * length ws = unat sp" using ps(1) assms(2) by simp
  have top: "unat sp < 2 ^ 32" by (rule unat_u32_less)
  have "unat sp' + 8 \<le> unat sp" using e assms(3) by simp
  then have u: "unat (sp' + 8) = unat sp' + 8"
    using unat_add_small [of sp' 8] top by simp
  show "structure_words (length ws - 2) ws m'' (sp' + 8)"
    unfolding structure_words_def using assms(4) unfolding u
    by (intro allI impI pushed_words [OF assms(1,2)]) auto
  have "4 * (length ws - 2) \<le> unat sp" using e by simp
  then have "unat (sp - of_nat (4 * (length ws - 2))) = unat sp - 4 * (length ws - 2)"
    using top by (simp add: unat_sub word_le_nat_alt unat_of_nat_small del: of_nat_mult)
  then show "sp' + 8 = sp - of_nat (4 * (length ws - 2))"
    using e u assms(3) by (simp add: word_unat_eq_iff diff_mult_distrib2 del: of_nat_mult)
  show "m' x = m x" if "unat x < unat sp - 4 * length ws \<or> unat sp \<le> unat x"
    using ps(1,2) that by simp
qed

lemma regular_structure:
  fixes c m v e cs ds ret
  defines "ws \<equiv> [eflags c, cs, eip c, if isr_err v then e else 0, of_nat v, eax c, ecx c, edx c, ebx c,
       cpu_esp c - 20, ebp c, esi c, edi c, (eax c AND 0xFFFF0000) OR ucast ds, cpu_esp c - 56, ret]"
  assumes reg: "cpu_error v = isr_err v" and room: "64 \<le> unat (cpu_esp c)"
    and enter: "enter_handler ret v e cs ds c m = (a, m')"
    and keep: "\<And>x. unat a \<le> unat x \<Longrightarrow> unat x < unat (cpu_esp c) \<Longrightarrow> m'' x = m' x"
  shows "structure_words 14 ws m'' a" "a = cpu_esp c - 56"
    "\<And>x. unat x < unat (cpu_esp c) - 64 \<or> unat (cpu_esp c) \<le> unat x \<Longrightarrow> m' x = m x"
proof -
  obtain sp' m1 where f: "fold push ws (cpu_esp c, m) = (sp', m1)" by fastforce
  have l: "length ws = 16" by (simp add: ws_def)
  have a: "a = cpu_esp c - 56" "m' = m1"
    using enter f enter_handler_regular [OF reg, of ret e cs ds c m, folded ws_def] by simp_all
  have len: "4 * length ws \<le> unat (cpu_esp c)" "2 \<le> length ws" using l room by simp_all
  have sp: "sp' + 8 = a"
    using structure_words_pushed(2) [OF f len, of m1] l a(1) by simp
  show "structure_words 14 ws m'' a"
    using structure_words_pushed(1) [OF f len, of m''] keep l a(2) sp by simp
  show "a = cpu_esp c - 56" by (rule a)
  show "m' x = m x" if "unat x < unat (cpu_esp c) - 64 \<or> unat (cpu_esp c) \<le> unat x" for x
    using structure_words_pushed(3) [OF f len, of m1 x] that l a(2) by simp
qed

lemma shifted_structure:
  fixes c m v e cs ds ret
  defines "ws \<equiv> [eflags c, cs, eip c, e, 0, of_nat v, eax c, ecx c, edx c, ebx c,
       cpu_esp c - 24, ebp c, esi c, edi c, (eax c AND 0xFFFF0000) OR ucast ds, cpu_esp c - 60, ret]"
  assumes sh: "cpu_error v" "\<not> isr_err v" and room: "68 \<le> unat (cpu_esp c)"
    and enter: "enter_handler ret v e cs ds c m = (a, m')"
    and keep: "\<And>x. unat a \<le> unat x \<Longrightarrow> unat x < unat (cpu_esp c) \<Longrightarrow> m'' x = m' x"
  shows "structure_words 15 ws m'' a"
proof -
  obtain sp' m1 where f: "fold push ws (cpu_esp c, m) = (sp', m1)" by fastforce
  have l: "length ws = 17" by (simp add: ws_def)
  have a: "a = cpu_esp c - 60" "m' = m1"
    using enter f enter_handler_shifted [OF sh, of ret e cs ds c m, folded ws_def] by simp_all
  have len: "4 * length ws \<le> unat (cpu_esp c)" "2 \<le> length ws" using l room by simp_all
  have sp: "sp' + 8 = a"
    using structure_words_pushed(2) [OF f len, of m1] l a(1) by simp
  show "structure_words 15 ws m'' a"
    using structure_words_pushed(1) [OF f len, of m''] keep l a(2) sp by simp
qed

text \<open>The words of the structure of a regular vector, field by field.\<close>

lemma structure_fields:
  assumes "structure_words 14 [eflags c, cs, eip c, err, num, eax c, ecx c, edx c, ebx c,
       old, ebp c, esi c, edi c, dsw, arg, ret] n a"
  shows "ld32 n a = dsw \<and> ld32 n (a + 4) = edi c \<and> ld32 n (a + 8) = esi c \<and>
      ld32 n (a + 12) = ebp c \<and> ld32 n (a + 16) = old \<and> ld32 n (a + 20) = ebx c \<and> ld32 n (a + 24) = edx c \<and>
      ld32 n (a + 28) = ecx c \<and> ld32 n (a + 32) = eax c \<and> ld32 n (a + 36) = num \<and>
      ld32 n (a + 40) = err \<and> ld32 n (a + 44) = eip c \<and> ld32 n (a + 48) = cs \<and> ld32 n (a + 52) = eflags c"
proof -
  note j = assms [unfolded structure_words_def, rule_format]
  show ?thesis
    using j [of 0] j [of 1] j [of 2] j [of 3] j [of 4] j [of 5] j [of 6] j [of 7] j [of 8] j [of 9] j [of 10]
      j [of 11] j [of 12] j [of 13] by simp
qed

text \<open>
  C34: the entry stubs. For every vector but 17 and 21 the handler finds in the structure the interrupted registers, its
  vector and the error code (0 when the processor has none); whatever it does to memory other than the structure,
  on return all registers, flags, instruction pointer and the data segment are as they were at the interrupt, and the stub has written only to the
  64 bytes below the stack pointer. For vectors 17 and 21, where the processor pushes an error
  code that the stub does not expect, the handler reads the error code as instruction pointer and the return jumps to it.
\<close>

theorem interrupt_is_transparent:
  assumes "v < 48" and "68 \<le> unat (cpu_esp c)" and "unat (cpu_esp c) + 8 \<le> 2 ^ 32"
    and "enter_handler ret v e cs ds c m = (a, m')"
    and "\<And>x. unat a \<le> unat x \<Longrightarrow> unat x < unat (cpu_esp c) \<Longrightarrow> m'' x = m' x"
  shows "if v \<in> {17, 21}
    then r_eip (registers_at m' a) = e \<and> eip (fst (stub_return m'' a)) = e
    else registers_at m' a = \<lparr>r_ds = (eax c AND 0xFFFF0000) OR ucast ds, r_edi = edi c, r_esi = esi c, r_ebp = ebp c,
           r_esp = cpu_esp c - 20, r_ebx = ebx c, r_edx = edx c, r_ecx = ecx c, r_eax = eax c, int_no = of_nat v,
           err_code = (if cpu_error v then e else 0), r_eip = eip c, r_cs = cs, r_eflags = eflags c,
           useresp = ld32 m (cpu_esp c), r_ss = ld32 m (cpu_esp c + 4)\<rparr> \<and>
      stub_return m'' a = (c, ds, cs) \<and>
      (\<forall>x. unat x < unat (cpu_esp c) - 64 \<or> unat (cpu_esp c) \<le> unat x \<longrightarrow> m' x = m x)"
proof (cases "v \<in> {17, 21}")
  case True
  then have sh: "cpu_error v" "\<not> isr_err v" by (auto simp: cpu_error_def isr_err_def)
  have "ld32 n (a + 44) = e" if "n = m' \<or> n = m''" for n
  proof -
    have "n x = m' x" if "unat a \<le> unat x" "unat x < unat (cpu_esp c)" for x
      using that \<open>n = m' \<or> n = m''\<close> assms(5) by auto
    note sw = shifted_structure [OF sh assms(2,4), of n, OF this, unfolded structure_words_def]
    show ?thesis using sw [rule_format, of 11] by simp
  qed
  with True show ?thesis by (simp add: registers_at_def stub_return_def)
next
  case False
  with assms(1) have reg: "cpu_error v = isr_err v" by (auto simp: cpu_error_def isr_err_def)
  have room: "64 \<le> unat (cpu_esp c)" using assms(2) by simp
  let ?ws = "[eflags c, cs, eip c, if isr_err v then e else 0, of_nat v, eax c, ecx c, edx c, ebx c,
       cpu_esp c - 20, ebp c, esi c, edi c, (eax c AND 0xFFFF0000) OR ucast ds, cpu_esp c - 56, ret]"
  note rs = regular_structure [OF reg room assms(4)]
  have w: "structure_words 14 ?ws m' a" "structure_words 14 ?ws m'' a" "a = cpu_esp c - 56"
    using rs(1) [of m'] rs(1) [OF assms(5)] rs(2) by simp_all
  have above: "ld32 m' (cpu_esp c) = ld32 m (cpu_esp c)" "ld32 m' (cpu_esp c + 4) = ld32 m (cpu_esp c + 4)"
  proof -
    have u: "unat (cpu_esp c + 4) = unat (cpu_esp c) + 4"
      using unat_add_small [of "cpu_esp c" 4] assms(3) by simp
    show "ld32 m' (cpu_esp c) = ld32 m (cpu_esp c)" "ld32 m' (cpu_esp c + 4) = ld32 m (cpu_esp c + 4)"
      using assms(3) rs(3) [of m'] by (auto intro!: ld32_cong simp: u)
  qed
  note at1 = structure_fields [OF w(1)] and at2 = structure_fields [OF w(2)]
  have "registers_at m' a = \<lparr>r_ds = (eax c AND 0xFFFF0000) OR ucast ds, r_edi = edi c, r_esi = esi c, r_ebp = ebp c,
           r_esp = cpu_esp c - 20, r_ebx = ebx c, r_edx = edx c, r_ecx = ecx c, r_eax = eax c, int_no = of_nat v,
           err_code = (if cpu_error v then e else 0), r_eip = eip c, r_cs = cs, r_eflags = eflags c,
           useresp = ld32 m (cpu_esp c), r_ss = ld32 m (cpu_esp c + 4)\<rparr>"
    using at1 above reg by (simp add: registers_at_def w(3) add.commute)
  moreover have "stub_return m'' a = (c, ds, cs)"
    using at2 by (cases c) (simp add: stub_return_def w(3) ds_word)
  ultimately show ?thesis using False rs(3) [of m'] by simp
qed

theorem interrupt_is_transparent_witness:
  "int_no (registers_at (snd (enter_handler 0x100123 33 0 8 16 demo_cpu (\<lambda>_. 0))) (fst (enter_handler 0x100123 33 0 8 16 demo_cpu (\<lambda>_. 0)))) = 33 \<and>
   stub_return (snd (enter_handler 0x100123 33 0 8 16 demo_cpu (\<lambda>_. 0))) (fst (enter_handler 0x100123 33 0 8 16 demo_cpu (\<lambda>_. 0))) =
     (demo_cpu, 16, 8)"
proof -
  obtain a m' where e: "enter_handler 0x100123 33 0 8 16 demo_cpu (\<lambda>_. 0) = (a, m')" by fastforce
  have "68 \<le> unat (cpu_esp demo_cpu)" "unat (cpu_esp demo_cpu) + 8 \<le> 2 ^ 32" by (simp_all add: demo_cpu_def)
  from interrupt_is_transparent [OF _ this e, of m'] show ?thesis by (simp add: e)
qed

end
