(* ===== verification/Shell.thy ===== *)
theory Shell
  imports Isr "HOL-Library.Signed_Division"
begin

text \<open>
  The command shell (\<^verbatim>\<open>shell.c\<close>): its twenty-eight commands, their dispatch, and the line editor
  that the kernel task runs on the characters of the input ring.

  A command that runs to its end gives \<open>Some (Running s)\<close>; one that stops the processor, by an
  exception or by \<^verbatim>\<open>halt\<close>, gives \<open>Some (Stopped s)\<close>; \<open>None\<close> stands for a loop of the heap that does
  not end on corrupted block headers, or for a sleep that is never woken. Three things from outside
  the C code are parameters: \<open>hlt\<close>, what happens until the processor wakes from \<^verbatim>\<open>hlt\<close>;
  \<open>exit_addr\<close> and \<open>counter_addr\<close>, the addresses of \<^verbatim>\<open>task_exit\<close> and \<^verbatim>\<open>counter_task\<close>; and \<open>r\<close>, the
  registers the entry stub would push if the command raised an exception.
\<close>

definition LINE_MAX :: int where "LINE_MAX = 128"

record shell_layer = isr_layer +
  line_buf :: string
  line_len :: int

type_synonym 's outcome = "'s run option"

definition done_with :: "'s \<Rightarrow> 's outcome" where
  "done_with s = Some (Running s)"

definition and_then :: "'s outcome \<Rightarrow> ('s \<Rightarrow> 's outcome) \<Rightarrow> 's outcome" where
  "and_then out f =
     Option.bind out (\<lambda>t. case t of Running s \<Rightarrow> f s | Stopped s \<Rightarrow> Some (Stopped s))"

abbreviation QUOTE :: char where "QUOTE \<equiv> CHR 0x27"
abbreviation BSLASH :: char where "BSLASH \<equiv> CHR 0x5C"

definition prints :: "string list \<Rightarrow> 'a machine_scheme \<Rightarrow> 'a machine_scheme" where
  "prints strs s = foldl (\<lambda>s str. kprint str s) s strs"

section \<open>Messages\<close>

definition shell_prompt :: "'a machine_scheme \<Rightarrow> 'a machine_scheme" where
  "shell_prompt s = kprint ''jarvis> '' s"

definition cmd_help :: "string \<Rightarrow> 'a machine_scheme \<Rightarrow> 'a machine_scheme" where
  "cmd_help args s = prints
    [''JarvisOS commands:\<newline>'',
     ''  help     - show this list\<newline>'',
     ''  clear    - clear the screen\<newline>'',
     ''  echo X   - print X back\<newline>'',
     ''  about    - about JarvisOS\<newline>'',
     ''  version  - kernel version\<newline>'',
     ''  calc     - calc 2 + 3  (also - * /)\<newline>'',
     ''  banner   - show the banner\<newline>'',
     ''  meminfo  - memory statistics\<newline>'',
     ''  memmap   - physical memory regions\<newline>'',
     ''  frames   - frame allocator status\<newline>'',
     ''  alloc    - allocate one 4KB frame\<newline>'',
     ''  free A   - free the frame at address A (hex, e.g. 0x200000)\<newline>'',
     ''  paging   - paging status\<newline>'',
     ''  virt A   - translate virtual address A to physical\<newline>'',
     ''  map A    - map a fresh frame at virtual address A\<newline>'',
     ''  unmap A  - unmap A and return its frame\<newline>'',
     ''  fault    - trigger a page fault on purpose (halts)\<newline>'',
     ''  heap     - kernel heap statistics and block list\<newline>'',
     ''  kmalloc N- allocate N bytes on the kernel heap\<newline>'',
     ''  kfree A  - free the heap pointer at address A (hex)\<newline>'',
     ''             (use the address kmalloc printed, e.g. 0xC0000010)\<newline>'',
     ''  uptime   - time since boot\<newline>'',
     ''  ps       - list tasks and context switches\<newline>'',
     ''  spawn N  - start a background task called N\<newline>'',
     ''  kill ID  - stop task ID\<newline>'',
     ''  sleep MS - sleep for MS milliseconds\<newline>'',
     ''  serial   - UART status and byte counts\<newline>'',
     ''  reboot   - restart the machine\<newline>'',
     ''  halt     - stop the CPU\<newline>''] s"

definition cmd_about :: "string \<Rightarrow> 'a machine_scheme \<Rightarrow> 'a machine_scheme" where
  "cmd_about args s = prints
    [''JarvisOS - a hobby operating system built from scratch in C & asm.\<newline>'',
     ''Drivers, interrupts, shell, and a physical memory manager.\<newline>''] s"

definition cmd_version :: "string \<Rightarrow> 'a machine_scheme \<Rightarrow> 'a machine_scheme" where
  "cmd_version args s = kprint ''JarvisOS 1.0.0 (32-bit x86)\<newline>'' s"

definition cmd_echo :: "string \<Rightarrow> 'a machine_scheme \<Rightarrow> 'a machine_scheme" where
  "cmd_echo args s = kprint ''\<newline>'' (kprint args s)"

definition cmd_banner :: "string \<Rightarrow> 'a machine_scheme \<Rightarrow> 'a machine_scheme" where
  "cmd_banner args s = prints
    [''     _                  _      ___  ____  \<newline>'',
     ''    | | __ _ _ ____   _(_)___ / _ '' @ [BSLASH] @ ''/ ___| \<newline>'',
     '' _  | |/ _` | '' @ [QUOTE] @ ''__'' @ [BSLASH] @ '' '' @ [BSLASH] @ '' / / / __| | | '' @ [BSLASH] @
        ''___ '' @ [BSLASH] @ '' \<newline>'',
     ''| |_| | (_| | |   '' @ [BSLASH] @ '' V /| '' @ [BSLASH] @ ''__ '' @ [BSLASH] @ '' |_| |___) |\<newline>'',
     '' '' @ [BSLASH] @ ''___/ '' @ [BSLASH] @ ''__,_|_|    '' @ [BSLASH] @ ''_/ |_|___/'' @ [BSLASH] @
        ''___/|____/ \<newline>''] s"

section \<open>Arithmetic\<close>

fun skip_digits :: "string \<Rightarrow> string" where
  "skip_digits [] = []"
| "skip_digits (c # s) = (if is_digit c then skip_digits s else c # s)"

text \<open>An exception: \<open>vector\<close> and \<open>err\<close> are what the processor and the entry stub put on the stack.\<close>

definition trap :: "u32 \<Rightarrow> u32 \<Rightarrow> u32 \<Rightarrow> registers \<Rightarrow> 'a machine_scheme \<Rightarrow> 'a machine_scheme outcome" where
  "trap vector err cr2 r s = Some (isr_handler cr2 (r\<lparr>int_no := vector, err_code := err\<rparr>) s)"

text \<open>\<^verbatim>\<open>idiv\<close> raises exception 0 when the quotient does not fit, for the least \<^verbatim>\<open>int\<close> divided by -1.\<close>

definition cmd_calc :: "registers \<Rightarrow> string \<Rightarrow> 'a machine_scheme \<Rightarrow> 'a machine_scheme outcome" where
  "cmd_calc r args s =
     (let a = atoi args;
          args = skip_spaces args;
          args = (if chr0 args = CHR ''-'' then tl args else args);
          args = skip_digits args;
          args = skip_spaces args;
          op = chr0 args;
          args = (if op \<noteq> NUL then tl args else args);
          args = skip_spaces args;
          b = atoi args;
          finish = (\<lambda>result. done_with (kprint ''\<newline>'' (kprint_int result s)))
      in if op = CHR ''+'' then finish (a + b)
         else if op = CHR ''-'' then finish (a - b)
         else if op = CHR ''*'' then finish (a * b)
         else if op = CHR ''/'' then
           (if b = 0 then done_with (kprint ''error: divide by zero\<newline>'' s)
            else if a = 0x80000000 \<and> b = - 1 then trap 0 0 0 r s
            else finish (word_of_int (sint a sdiv sint b)))
         else done_with (kprint ''usage: calc 2 + 3\<newline>'' s))"

section \<open>Memory statistics and frames\<close>

definition cmd_meminfo :: "string \<Rightarrow> 'a pmm_layer_scheme \<Rightarrow> 'a pmm_layer_scheme" where
  "cmd_meminfo args s =
     (let s = kprint ''Total reported : '' s;
          s = kprint_int (mem_total_kb s) s;
          s = kprint '' KB\<newline>'' s;
          s = kprint ''Usable RAM     : '' s;
          s = kprint_int (mem_usable_kb s) s;
          s = kprint '' KB ('' s;
          s = kprint_int (mem_usable_kb s div 1024) s;
          s = kprint '' MB)\<newline>'' s;
          s = kprint ''Highest address: '' s;
          s = kprint_hex (mem_highest_addr s) s;
          s = kprint ''\<newline>'' s;
          s = kprint ''Free frames    : '' s;
          s = kprint_int (pmm_free_frames (pmm s)) s;
          s = kprint '' of '' s;
          s = kprint_int (pmm_total_frames (pmm s)) s
      in kprint ''\<newline>'' s)"

definition cmd_memmap :: "string \<Rightarrow> 'a mem_layer_scheme \<Rightarrow> 'a mem_layer_scheme" where
  "cmd_memmap args s = memory_print_map s"

definition cmd_frames :: "string \<Rightarrow> 'a pmm_layer_scheme \<Rightarrow> 'a pmm_layer_scheme" where
  "cmd_frames args s =
     (let s = kprint ''Frame size   : 4096 bytes\<newline>'' s;
          s = kprint ''Total frames : '' s;
          s = kprint_int (pmm_total_frames (pmm s)) s;
          s = kprint ''\<newline>'' s;
          s = kprint ''Used frames  : '' s;
          s = kprint_int (pmm_used_frames (pmm s)) s;
          s = kprint '' ('' s;
          s = kprint_int (pmm_used_frames (pmm s) * 4 div 1024) s;
          s = kprint '' MB)\<newline>'' s;
          s = kprint ''Free frames  : '' s;
          s = kprint_int (pmm_free_frames (pmm s)) s;
          s = kprint '' ('' s;
          s = kprint_int (pmm_free_frames (pmm s) * 4 div 1024) s;
          s = kprint '' MB)\<newline>'' s;
          s = kprint ''Bitmap at    : '' s;
          s = kprint_hex (pmm_bitmap_addr (pmm s)) s;
          s = kprint ''  size '' s;
          s = kprint_int (pmm_bitmap_size (pmm s)) s
      in kprint '' bytes\<newline>'' s)"

definition cmd_alloc :: "string \<Rightarrow> 'a pmm_layer_scheme \<Rightarrow> 'a pmm_layer_scheme" where
  "cmd_alloc args s =
     (let (addr, p) = pmm_alloc_frame (pmm s); s = s\<lparr>pmm := p\<rparr>
      in if addr = 0 then kprint ''out of memory!\<newline>'' s
         else let s = kprint ''allocated frame at '' s;
                  s = kprint_hex addr s;
                  s = kprint ''   (free now: '' s;
                  s = kprint_int (pmm_free_frames (pmm s)) s
              in kprint '')\<newline>'' s)"

definition cmd_free :: "string \<Rightarrow> 'a pmm_layer_scheme \<Rightarrow> 'a pmm_layer_scheme" where
  "cmd_free args s =
     (let addr = atoi_hex args
      in if addr = 0 then kprint ''usage: free 0x200000\<newline>'' s
         else let s = s\<lparr>pmm := pmm_free_frame addr (pmm s)\<rparr>;
                  s = kprint ''freed frame at '' s;
                  s = kprint_hex addr s;
                  s = kprint ''   (free now: '' s;
                  s = kprint_int (pmm_free_frames (pmm s)) s
              in kprint '')\<newline>'' s)"

section \<open>The heap\<close>

definition cmd_heap :: "string \<Rightarrow> 'a heap_layer_scheme \<Rightarrow> 'a heap_layer_scheme option" where
  "cmd_heap args s =
     (let s = kprint ''Heap base   : '' s;
          s = kprint_hex HEAP_START s;
          s = kprint ''\<newline>Mapped      : '' s;
          s = kprint_int (heap_size s div 1024) s;
          s = kprint '' KB (break at '' s;
          s = kprint_hex (heap_break s) s;
          s = kprint '')\<newline>Used        : '' s
      in do {
        used \<leftarrow> heap_used s;
        let s = kprint '' bytes\<newline>Free        : '' (kprint_int used s);
        free \<leftarrow> heap_free s;
        let s = kprint '' bytes\<newline>Blocks      : '' (kprint_int free s);
        blocks \<leftarrow> heap_blocks s;
        let s = kprint '' total, '' (kprint_int blocks s);
        free_blocks \<leftarrow> heap_free_blocks s;
        let s = kprint '' free\<newline>'' (kprint_int free_blocks s);
        Some (heap_dump s)
      })"

definition cmd_kmalloc :: "string \<Rightarrow> 'a heap_layer_scheme \<Rightarrow> 'a heap_layer_scheme option" where
  "cmd_kmalloc args s =
     (let size = atoi args
      in if sint size \<le> 0 then Some (kprint ''usage: kmalloc 128\<newline>'' s)
         else do {
           (p, s) \<leftarrow> kmalloc size s;
           if p = 0 then Some (kprint ''kmalloc failed: heap exhausted\<newline>'' s)
           else let s = s\<lparr>mem := memset (mem s) p 0xAB (unat size)\<rparr>;
                    s = kprint ''kmalloc('' s;
                    s = kprint_int size s;
                    s = kprint '') = '' s;
                    s = kprint_hex p s;
                    s = kprint ''   (physical '' s;
                    s = kprint_hex (paging_translate p s) s
                in Some (kprint '')\<newline>'' s)
         })"

definition cmd_kfree :: "string \<Rightarrow> 'a heap_layer_scheme \<Rightarrow> 'a heap_layer_scheme option" where
  "cmd_kfree args s =
     (let addr = atoi_hex args
      in if addr = 0 then Some (kprint ''usage: kfree 0xC000000C\<newline>'' s)
         else do {
           (ok, s) \<leftarrow> kfree addr s;
           if \<not> ok then Some s
           else do {
             let s = kprint ''freed '' s;
             let s = kprint_hex addr s;
             let s = kprint ''   (heap free now: '' s;
             free \<leftarrow> heap_free s;
             Some (kprint '' bytes)\<newline>'' (kprint_int free s))
           }
         })"

section \<open>Paging\<close>

text \<open>A 32-bit store through a virtual address, a page fault when nothing is mapped there.\<close>

definition virt_store ::
  "registers \<Rightarrow> u32 \<Rightarrow> u32 \<Rightarrow> 'a paging_layer_scheme \<Rightarrow> 'a paging_layer_scheme outcome" where
  "virt_store r a w s =
     (if paging_enabled (paging s) \<and> mmu_lookup s a = None then trap 14 0x2 a r s
      else done_with (s\<lparr>mem := st32 (mem s) a w\<rparr>))"

definition cmd_paging :: "string \<Rightarrow> 'a paging_layer_scheme \<Rightarrow> 'a paging_layer_scheme" where
  "cmd_paging args s =
     (let s = kprint ''Paging      : '' s;
          s = kprint (if paging_is_enabled s then ''ENABLED\<newline>'' else ''disabled\<newline>'') s;
          s = kprint ''Directory at: '' s;
          s = kprint_hex (paging_dir_phys s) s;
          s = kprint ''\<newline>Identity map: 0x00000000 - '' s;
          s = kprint_hex (paging_identity_end s - 1) s;
          s = kprint ''\<newline>Page tables : '' s;
          s = kprint_int (paging_table_count s) s;
          s = kprint ''\<newline>Mapped pages: '' s;
          s = kprint_int (paging_mapped_pages s) s;
          s = kprint '' ('' s;
          s = kprint_int (paging_mapped_pages s * 4 div 1024) s
      in kprint '' MB)\<newline>'' s)"

definition cmd_virt :: "string \<Rightarrow> 'a paging_layer_scheme \<Rightarrow> 'a paging_layer_scheme" where
  "cmd_virt args s =
     (let virt = atoi_hex args;
          phys = paging_translate virt s;
          s = kprint_hex virt s
      in if phys = PAGE_UNMAPPED then kprint '' is not mapped\<newline>'' s
         else let s = kprint '' -> '' s;
                  s = kprint_hex phys s
              in kprint (if virt = phys then ''  (identity)\<newline>'' else ''  (translated)\<newline>'') s)"

definition cmd_map :: "registers \<Rightarrow> string \<Rightarrow> 'a paging_layer_scheme \<Rightarrow> 'a paging_layer_scheme outcome" where
  "cmd_map r args s =
     (let virt = atoi_hex args AND NOT (PAGE_SIZE - 1)
      in if virt = 0 then done_with (kprint ''usage: map 0xD0000000\<newline>'' s)
         else if paging_translate virt s \<noteq> PAGE_UNMAPPED
         then done_with (kprint ''that address is already mapped\<newline>'' s)
         else let (frame, p) = pmm_alloc_frame (pmm s); s = s\<lparr>pmm := p\<rparr>
              in if frame = 0 then done_with (kprint ''out of physical memory\<newline>'' s)
                 else let (ok, s) = paging_map virt frame PAGE_WRITE s
                      in if \<not> ok
                         then done_with (kprint ''mapping failed (no frame for a page table)\<newline>''
                                (s\<lparr>pmm := pmm_free_frame frame (pmm s)\<rparr>))
                         else and_then (virt_store r virt 0x1234ABCD s)
                           (\<lambda>s. let s = kprint ''mapped '' s;
                                    s = kprint_hex virt s;
                                    s = kprint '' -> '' s;
                                    s = kprint_hex frame s;
                                    s = kprint ''\<newline>wrote 0x1234ABCD, read back '' s;
                                    s = kprint_hex (ld32 (mem s) virt) s
                                in done_with (kprint ''\<newline>'' s)))"

definition cmd_unmap :: "string \<Rightarrow> 'a paging_layer_scheme \<Rightarrow> 'a paging_layer_scheme" where
  "cmd_unmap args s =
     (let virt = atoi_hex args AND NOT (PAGE_SIZE - 1);
          phys = paging_translate virt s
      in if phys = PAGE_UNMAPPED then kprint ''not mapped\<newline>'' s
         else if virt < paging_identity_end s
         then kprint ''refusing to unmap the identity region\<newline>'' s
         else let (ok, s) = paging_unmap virt s;
                  s = s\<lparr>pmm := pmm_free_frame (phys AND NOT (PAGE_SIZE - 1)) (pmm s)\<rparr>;
                  s = kprint ''unmapped '' s;
                  s = kprint_hex virt s
              in kprint '' and returned the frame\<newline>'' s)"

definition cmd_fault :: "registers \<Rightarrow> string \<Rightarrow> 'a paging_layer_scheme \<Rightarrow> 'a paging_layer_scheme outcome" where
  "cmd_fault r args s =
     virt_store r 0xDEADB000 1 (kprint ''Touching unmapped memory at 0xDEADB000 on purpose...\<newline>'' s)"

section \<open>Devices and tasks\<close>

definition cmd_serial :: "string \<Rightarrow> 'a machine_scheme \<Rightarrow> 'a machine_scheme" where
  "cmd_serial args s =
     (let s = kprint ''COM1 (0x3F8) : '' s;
          s = kprint (if serial_is_ready (con s) then ''present, 38400 8N1\<newline>'' else ''not detected\<newline>'') s;
          s = kprint ''Bytes sent   : '' s;
          s = kprint_int (serial_tx_count s) s;
          s = kprint ''\<newline>Bytes received: '' s;
          s = kprint_int (serial_rx_count s) s;
          s = kprint ''\<newline>All console output is mirrored here, and anything typed on the\<newline>'' s
      in kprint ''serial line drives the same shell as the keyboard.\<newline>'' s)"

definition cmd_uptime :: "string \<Rightarrow> 'a timer_layer_scheme \<Rightarrow> 'a timer_layer_scheme" where
  "cmd_uptime args s =
     (let secs = timer_seconds s;
          s = kprint ''Up '' s;
          s = kprint_int (secs div 60) s;
          s = kprint ''m '' s;
          s = kprint_int (secs mod 60) s;
          s = kprint ''s  ('' s;
          s = kprint_int (timer_ticks s) s;
          s = kprint '' ticks at '' s;
          s = kprint_int TIMER_HZ s
      in kprint '' Hz)\<newline>'' s)"

text \<open>The body of the loop of \<^verbatim>\<open>cmd_ps\<close>.\<close>

definition ps_line :: "nat \<Rightarrow> 'a task_layer_scheme \<Rightarrow> 'a task_layer_scheme" where
  "ps_line i s =
     (case task_get (int i) s of
        None \<Rightarrow> s
      | Some t \<Rightarrow>
          if tstate t = TASK_UNUSED then s
          else let s = kprint_int (task_id t) s;
                   s = kprint ''   '' s;
                   s = kprint (name t) s;
                   s = (kprint '' '' ^^ (11 - strlen (name t))) s;
                   s = kprint (if tstate t = TASK_RUNNING then ''running  ''
                               else if tstate t = TASK_READY then ''ready    '' else ''dead     '') s;
                   s = kprint_int (slices t) s;
                   s = kprint ''      '' s;
                   s = kprint_int (counter t) s
               in kprint ''\<newline>'' s)"

definition cmd_ps :: "string \<Rightarrow> 'a task_layer_scheme \<Rightarrow> 'a task_layer_scheme" where
  "cmd_ps args s =
     (let s = kprint ''ID  NAME       STATE    SLICES   WORK\<newline>'' s;
          s = foldl (\<lambda>s i. ps_line i s) s [0..<MAX_TASKS];
          s = kprint ''Context switches: '' s;
          s = kprint_int (task_switches s) s;
          s = kprint ''   current task: '' s;
          s = kprint_int (task_current_id s) s
      in kprint ''\<newline>'' s)"

definition cmd_spawn ::
  "u32 \<Rightarrow> u32 \<Rightarrow> string \<Rightarrow> 'a task_layer_scheme \<Rightarrow> 'a task_layer_scheme option" where
  "cmd_spawn exit_addr counter_addr args s =
     (let nm = (if chr0 args \<noteq> NUL then args else ''worker'')
      in do {
        (id, s) \<leftarrow> task_spawn_counter exit_addr counter_addr nm s;
        if id < 0 then Some (kprint ''cannot spawn: no free task slot or heap space\<newline>'' s)
        else let s = kprint ''spawned task '' s;
                 s = kprint_int (word_of_int id) s;
                 s = kprint ('' ('' @ [QUOTE]) s;
                 s = kprint nm s;
                 s = kprint ([QUOTE] @ '') with an '') s;
                 s = kprint_int (TASK_STACK_SIZE div 1024) s
             in Some (kprint '' KB stack from the heap\<newline>'' s)
      })"

definition cmd_kill :: "string \<Rightarrow> 'a task_layer_scheme \<Rightarrow> 'a task_layer_scheme" where
  "cmd_kill args s =
     (let id = atoi args;
          (ok, s) = task_kill id s
      in if \<not> ok then kprint ''no such task (and task 0 is the kernel itself)\<newline>'' s
         else let s = kprint ''task '' s;
                  s = kprint_int id s
              in kprint '' marked dead; its stack returns to the heap on the next tick\<newline>'' s)"

definition cmd_sleep ::
  "('a timer_layer_scheme \<Rightarrow> 'a timer_layer_scheme option) \<Rightarrow> string \<Rightarrow>
     'a timer_layer_scheme \<Rightarrow> 'a timer_layer_scheme option" where
  "cmd_sleep hlt args s =
     (let ms = atoi args
      in if sint ms \<le> 0 then Some (kprint ''usage: sleep 500   (milliseconds)\<newline>'' s)
         else do {
           let s = kprint ''sleeping '' s;
           let s = kprint_int ms s;
           let s = kprint '' ms...\<newline>'' s;
           s \<leftarrow> timer_sleep hlt ms s;
           let s = kprint ''awake again at tick '' s;
           let s = kprint_int (timer_ticks s) s;
           Some (kprint ''\<newline>'' s)
         })"

definition cmd_reboot :: "string \<Rightarrow> 'a machine_scheme \<Rightarrow> 'a machine_scheme" where
  "cmd_reboot args s = kout 0x64 0xFE (kprint ''Rebooting...\<newline>'' s)"

definition cmd_halt :: "string \<Rightarrow> 'a machine_scheme \<Rightarrow> 'a machine_scheme outcome" where
  "cmd_halt args s = Some (Stopped (kprint ''System halted. You can close QEMU.\<newline>'' s))"

definition cmd_clear :: "string \<Rightarrow> 'a machine_scheme \<Rightarrow> 'a machine_scheme" where
  "cmd_clear args s = s\<lparr>con := clear_screen (con s)\<rparr>"

section \<open>Dispatch\<close>

text \<open>The first word of the line, at most 31 characters, and what is left of the line.\<close>

fun cmd_word :: "nat \<Rightarrow> string \<Rightarrow> string \<times> string" where
  "cmd_word i [] = ([], [])"
| "cmd_word i (c # line) =
     (if c \<noteq> NUL \<and> c \<noteq> CHR '' '' \<and> i < 31
      then let (cmd, rest) = cmd_word (Suc i) line in (c # cmd, rest)
      else ([], c # line))"

definition run_command ::
  "('a shell_layer_scheme \<Rightarrow> 'a shell_layer_scheme option) \<Rightarrow> u32 \<Rightarrow> u32 \<Rightarrow> registers \<Rightarrow>
     string \<Rightarrow> string \<Rightarrow> 'a shell_layer_scheme \<Rightarrow> 'a shell_layer_scheme outcome" where
  "run_command hlt exit_addr counter_addr r cmd args s =
     (if strcmp cmd ''help'' = 0 then done_with (cmd_help args s)
      else if strcmp cmd ''clear'' = 0 then done_with (cmd_clear args s)
      else if strcmp cmd ''echo'' = 0 then done_with (cmd_echo args s)
      else if strcmp cmd ''about'' = 0 then done_with (cmd_about args s)
      else if strcmp cmd ''version'' = 0 then done_with (cmd_version args s)
      else if strcmp cmd ''calc'' = 0 then cmd_calc r args s
      else if strcmp cmd ''banner'' = 0 then done_with (cmd_banner args s)
      else if strcmp cmd ''meminfo'' = 0 then done_with (cmd_meminfo args s)
      else if strcmp cmd ''memmap'' = 0 then done_with (cmd_memmap args s)
      else if strcmp cmd ''frames'' = 0 then done_with (cmd_frames args s)
      else if strcmp cmd ''alloc'' = 0 then done_with (cmd_alloc args s)
      else if strcmp cmd ''free'' = 0 then done_with (cmd_free args s)
      else if strcmp cmd ''heap'' = 0 then map_option Running (cmd_heap args s)
      else if strcmp cmd ''kmalloc'' = 0 then map_option Running (cmd_kmalloc args s)
      else if strcmp cmd ''kfree'' = 0 then map_option Running (cmd_kfree args s)
      else if strcmp cmd ''paging'' = 0 then done_with (cmd_paging args s)
      else if strcmp cmd ''virt'' = 0 then done_with (cmd_virt args s)
      else if strcmp cmd ''map'' = 0 then cmd_map r args s
      else if strcmp cmd ''unmap'' = 0 then done_with (cmd_unmap args s)
      else if strcmp cmd ''fault'' = 0 then cmd_fault r args s
      else if strcmp cmd ''serial'' = 0 then done_with (cmd_serial args s)
      else if strcmp cmd ''uptime'' = 0 then done_with (cmd_uptime args s)
      else if strcmp cmd ''ps'' = 0 then done_with (cmd_ps args s)
      else if strcmp cmd ''spawn'' = 0 then map_option Running (cmd_spawn exit_addr counter_addr args s)
      else if strcmp cmd ''kill'' = 0 then done_with (cmd_kill args s)
      else if strcmp cmd ''sleep'' = 0 then map_option Running (cmd_sleep hlt args s)
      else if strcmp cmd ''reboot'' = 0 then done_with (cmd_reboot args s)
      else if strcmp cmd ''halt'' = 0 then cmd_halt args s
      else done_with (let s = kprint ''unknown command: '' s;
                          s = kprint cmd s
                      in kprint (''  (try '' @ [QUOTE] @ ''help'' @ [QUOTE] @ '')\<newline>'') s))"

definition shell_execute ::
  "('a shell_layer_scheme \<Rightarrow> 'a shell_layer_scheme option) \<Rightarrow> u32 \<Rightarrow> u32 \<Rightarrow> registers \<Rightarrow>
     string \<Rightarrow> 'a shell_layer_scheme \<Rightarrow> 'a shell_layer_scheme outcome" where
  "shell_execute hlt exit_addr counter_addr r line s =
     (if chr0 line = NUL then done_with (shell_prompt s)
      else let (cmd, rest) = cmd_word 0 line;
               args = (if chr0 rest \<noteq> NUL then tl rest else rest)
           in and_then (run_command hlt exit_addr counter_addr r cmd args s)
                (\<lambda>s. done_with (shell_prompt s)))"

section \<open>The line editor\<close>

definition shell_input_char ::
  "('a shell_layer_scheme \<Rightarrow> 'a shell_layer_scheme option) \<Rightarrow> u32 \<Rightarrow> u32 \<Rightarrow> registers \<Rightarrow>
     char \<Rightarrow> 'a shell_layer_scheme \<Rightarrow> 'a shell_layer_scheme outcome" where
  "shell_input_char hlt exit_addr counter_addr r c s =
     (if c = CHR 0x08
      then done_with (if line_len s > 0
        then s\<lparr>line_len := line_len s - 1, con := backspace (con s)\<rparr> else s)
      else if c = CHR 0x0A
      then let s = s\<lparr>con := putchar CHR 0x0A (con s)\<rparr>;
               s = s\<lparr>line_buf := (line_buf s)[nat (line_len s) := NUL]\<rparr>;
               s = s\<lparr>line_len := 0\<rparr>
           in shell_execute hlt exit_addr counter_addr r (line_buf s) s
      else if schar c < schar CHR '' '' \<or> schar c > schar CHR ''~'' then done_with s
      else done_with (if line_len s < LINE_MAX - 1
        then s\<lparr>line_buf := (line_buf s)[nat (line_len s) := c], line_len := line_len s + 1,
               con := putchar c (con s)\<rparr>
        else s))"

partial_function (option) shell_poll ::
  "('a shell_layer_scheme \<Rightarrow> 'a shell_layer_scheme option) \<Rightarrow> u32 \<Rightarrow> u32 \<Rightarrow> registers \<Rightarrow>
     'a shell_layer_scheme \<Rightarrow> 'a shell_layer_scheme outcome" where
  "shell_poll hlt exit_addr counter_addr r s =
     (case ring_pop s of
        None \<Rightarrow> done_with s
      | Some (c, s) \<Rightarrow>
          Option.bind (shell_input_char hlt exit_addr counter_addr r c s)
            (\<lambda>t. case t of Running s \<Rightarrow> shell_poll hlt exit_addr counter_addr r s
                         | Stopped s \<Rightarrow> Some (Stopped s)))"

definition shell_init :: "'a machine_scheme \<Rightarrow> 'a machine_scheme" where
  "shell_init s = shell_prompt (kprint ''\<newline>'' s)"

lemma shell_poll_step:
  "shell_poll hlt ex ct r s =
     (case ring_pop s of
        None \<Rightarrow> done_with s
      | Some (c, s) \<Rightarrow> and_then (shell_input_char hlt ex ct r c s) (shell_poll hlt ex ct r))"
  by (subst shell_poll.simps) (simp add: and_then_def split: option.split)

end
