(* ===== verification/Kernel.thy ===== *)
theory Kernel
  imports Shell
begin

text \<open>
  The entry point of the kernel (\<^verbatim>\<open>kernel.c\<close>): \<open>kernel_main\<close> brings the parts up in the order of the
  code and ends at the head of the endless loop of task 0, one round of which is \<open>kernel_loop\<close>. Each
  \<open>report_\<close> definition is the run of print calls after one step. The addresses the linker chooses are
  parameters. A kernel that stops at the failed Multiboot check is \<open>Stopped\<close>; \<open>None\<close> stands for a memory
  map whose reading does not end.
\<close>

definition MULTIBOOT_MAGIC :: u32 where "MULTIBOOT_MAGIC = 0x2BADB002"

definition report_memory :: "'a mem_layer_scheme \<Rightarrow> 'a mem_layer_scheme" where
  "report_memory s =
     (let s = kprint ''Memory map parsed: '' s;
          s = kprint_int (mem_usable_kb s div 1024) s
      in kprint '' MB usable RAM detected.\<newline>'' s)"

definition report_frames :: "'a pmm_layer_scheme \<Rightarrow> 'a pmm_layer_scheme" where
  "report_frames s =
     (let s = kprint ''Physical allocator online: '' s;
          s = kprint_int (pmm_free_frames (pmm s)) s;
          s = kprint '' free frames ('' s;
          s = kprint_int (pmm_free_frames (pmm s) * 4 div 1024) s
      in kprint '' MB).\<newline>'' s)"

definition report_paging :: "'a paging_layer_scheme \<Rightarrow> 'a paging_layer_scheme" where
  "report_paging s =
     (let s = kprint ''Paging enabled: identity map 0 - '' s;
          s = kprint_hex (paging_identity_end s) s;
          s = kprint '' ('' s;
          s = kprint_int (paging_table_count s) s
      in kprint '' page tables).\<newline>'' s)"

definition report_heap :: "'a heap_layer_scheme \<Rightarrow> 'a heap_layer_scheme" where
  "report_heap s =
     (let s = kprint ''Kernel heap ready at '' s;
          s = kprint_hex HEAP_START s;
          s = kprint '' ('' s;
          s = kprint_int (heap_size s div 1024) s
      in kprint '' KB mapped).\<newline>'' s)"

definition report_scheduler :: "'a machine_scheme \<Rightarrow> 'a machine_scheme" where
  "report_scheduler s =
     (let s = kprint ''Scheduler armed, PIT at '' s;
          s = kprint_int TIMER_HZ s;
          s = kprint '' Hz ('' s;
          s = kprint_int (1000 div TIMER_HZ) s
      in kprint '' ms per tick).\<newline>'' s)"

definition report_online :: "'a machine_scheme \<Rightarrow> 'a machine_scheme" where
  "report_online s =
     (let s = kprint ''Interrupts online. Keyboard'' s;
          s = kprint (if serial_is_ready (con s) then '' and COM1 serial ready.\<newline>'' else '' ready (no serial port).\<newline>'') s
      in kprint (''Type '' @ [QUOTE] @ ''help'' @ [QUOTE] @ '' for commands.\<newline>'') s)"

text \<open>\<^verbatim>\<open>sti\<close>.\<close>

definition interrupts_on :: "'a task_layer_scheme \<Rightarrow> 'a task_layer_scheme" where
  "interrupts_on s = s\<lparr>cpu := (cpu s)\<lparr>eflags := eflags (cpu s) OR 0x200\<rparr>\<rparr>"

definition kernel_main ::
  "u32 \<Rightarrow> u32 \<Rightarrow> (nat \<Rightarrow> u32) \<Rightarrow> (nat \<Rightarrow> u32) \<Rightarrow> u32 \<Rightarrow> u32 \<Rightarrow>
     'a shell_layer_scheme \<Rightarrow> 'a shell_layer_scheme outcome" where
  "kernel_main kernel_end idt_addr isr_stub irq_stub magic mbi s =
     (let s = s\<lparr>con := serial_init (con s)\<rparr>;
          s = s\<lparr>con := clear_screen (con s)\<rparr>;
          s = kprint ''JarvisOS 1.0.0 booting...\<newline>'' s
      in if magic \<noteq> MULTIBOOT_MAGIC
         then Some (Stopped (kprint ''FATAL: not booted by a Multiboot loader.\<newline>'' s))
         else do {
           s \<leftarrow> memory_init mbi s;
           let s = report_memory s;
           let s = s\<lparr>pmm := pmm_init kernel_end (mmap s)\<rparr>;
           let s = report_frames s;
           let s = paging_init s;
           let s = report_paging s;
           let s = heap_init s;
           let s = report_heap s;
           let s = idt_install idt_addr s;
           let s = isr_install isr_stub irq_stub s;
           let s = scheduler_init s;
           let s = timer_init s;
           let s = report_scheduler s;
           let s = interrupts_on s;
           let s = report_online s;
           done_with (shell_init s)
         })"

text \<open>
  \<^verbatim>\<open>_start\<close> (\<^verbatim>\<open>boot.asm\<close>), where the loader enters: it sets up the boot stack and calls \<open>kernel_main\<close> with the loader's
  \<^verbatim>\<open>eax\<close> and \<^verbatim>\<open>ebx\<close> as arguments, which are read back from the stack. The halt after the call is
  not reached: both outcomes of \<open>kernel_main\<close> are endless loops.
\<close>

definition start_stack :: "u32 \<Rightarrow> u32 \<Rightarrow> 'a task_layer_scheme \<Rightarrow> 'a task_layer_scheme" where
  "start_stack stack_top ret s =
     (let c = cpu s;
          (sp, m) = fold push [ebx c, eax c, ret] (stack_top, mem s)
      in s\<lparr>mem := m, cpu := c\<lparr>cpu_esp := sp\<rparr>\<rparr>)"

definition start ::
  "u32 \<Rightarrow> u32 \<Rightarrow> u32 \<Rightarrow> u32 \<Rightarrow> (nat \<Rightarrow> u32) \<Rightarrow> (nat \<Rightarrow> u32) \<Rightarrow>
     'a shell_layer_scheme \<Rightarrow> 'a shell_layer_scheme outcome" where
  "start stack_top ret kernel_end idt_addr isr_stub irq_stub s =
     (let s = start_stack stack_top ret s;
          args = cpu_esp (cpu s) + 4
      in kernel_main kernel_end idt_addr isr_stub irq_stub (ld32 (mem s) args) (ld32 (mem s) (args + 4)) s)"

text \<open>The body of the endless loop.\<close>

definition kernel_loop ::
  "('a shell_layer_scheme \<Rightarrow> 'a shell_layer_scheme option) \<Rightarrow> u32 \<Rightarrow> u32 \<Rightarrow> registers \<Rightarrow>
     'a shell_layer_scheme \<Rightarrow> 'a shell_layer_scheme outcome" where
  "kernel_loop hlt exit_addr counter_addr r s =
     and_then (shell_poll hlt exit_addr counter_addr r s) (\<lambda>s. map_option Running (hlt s))"

end
