(* ===== verification/Shell_Props.thy ===== *)
theory Shell_Props
  imports Kernel Frames Console_Claims
begin

text \<open>
  Lemmas about the shell: printing changes the console only and keeps it on its screen
  (\<open>prints_only\<close>); a run of print calls is one print of the joined text; the line editor is the
  function \<open>edit\<close> on the text typed so far; arguments are split and parsed as written.
\<close>

section \<open>Printing\<close>

definition prints_only :: "'a machine_scheme \<Rightarrow> 'a machine_scheme \<Rightarrow> bool" where
  "prints_only s s' \<longleftrightarrow> (\<exists>c. s' = s\<lparr>con := c\<rparr> \<and> (vga_inv (con s) \<longrightarrow> vga_inv c))"

lemma prints_only_refl [simp]: "prints_only s s"
  unfolding prints_only_def by (intro exI [of _ "con s"]) simp

lemma prints_only_trans: "prints_only s t \<Longrightarrow> prints_only t u \<Longrightarrow> prints_only s u"
  unfolding prints_only_def by force

lemma prints_only_kprint:
  "prints_only s t \<Longrightarrow> prints_only s (kprint str t)" "prints_only s t \<Longrightarrow> prints_only s (kprint_int n t)"
  "prints_only s t \<Longrightarrow> prints_only s (kprint_hex n t)"
  by (force simp: prints_only_def kprint_defs vga_inv_print vga_inv_print_int vga_inv_print_hex)+

lemma prints_only_foldl:
  "(\<And>s x. prints_only s (f s x)) \<Longrightarrow> prints_only s t \<Longrightarrow> prints_only s (foldl f t xs)"
proof (induction xs arbitrary: t)
  case (Cons x xs)
  from Cons.IH [OF Cons.prems(1) prints_only_trans [OF Cons.prems(2) Cons.prems(1)]] show ?case by simp
qed simp

lemma prints_onlyE:
  assumes "prints_only s s'"
  obtains c where "s' = s\<lparr>con := c\<rparr>" "vga_inv (con s) \<Longrightarrow> vga_inv c"
  using assms unfolding prints_only_def by blast

lemma report_prints:
  "prints_only s1 (report_memory s1)" "prints_only s2 (report_frames s2)" "prints_only s3 (report_paging s3)"
  "prints_only s4 (report_heap s4)" "prints_only s5 (report_scheduler s5)" "prints_only s5 (report_online s5)"
  "prints_only s5 (shell_init s5)" "prints_only s5 (shell_prompt s5)"
  by (simp_all add: report_memory_def report_frames_def report_paging_def report_heap_def report_scheduler_def
      report_online_def shell_init_def shell_prompt_def Let_def prints_only_kprint)

text \<open>Consecutive prints as one text.\<close>

definition says :: "string \<Rightarrow> 'a machine_scheme \<Rightarrow> 'a machine_scheme" where
  "says str s = s\<lparr>con := print str (con s)\<rparr>"

lemma kprint_says: "kprint str s = says str s" "kprint_int n s = says (dec_string n) s" "kprint_hex n s = says (hex_string n) s"
  by (simp_all add: kprint_defs says_def print_int_string print_hex_string)

lemma dec_string_NUL: "NUL \<notin> set (dec_string n)"
  using dec_buf_digits by (auto simp: dec_string_def)

lemma hex_string_NUL: "NUL \<notin> set (hex_string n)"
proof -
  have "hex_digits ! unat (w AND 0xF) \<noteq> NUL" for w :: u32
  proof -
    have "hex_digits ! unat (w AND 0xF) \<in> set hex_digits"
      using word_and_le1 [of w "0xF"] by (intro nth_mem) (simp add: hex_digits_def word_le_nat_alt)
    then show ?thesis by (auto simp: hex_digits_def)
  qed
  from this this [THEN not_sym] show ?thesis by (simp add: hex_string_def)
qed

lemma says_says: "NUL \<notin> set a \<Longrightarrow> says b (says a s) = says (a @ b) s"
  by (simp add: says_def print_append)

lemma says_concat:
  "list_all (\<lambda>a. NUL \<notin> set a) strs \<Longrightarrow> says (concat strs) s = foldl (\<lambda>s a. says a s) (says [] s) strs"
proof (induction strs rule: rev_induct)
  case (snoc a strs)
  then show ?case by (simp add: says_says [symmetric] list_all_iff)
qed simp

lemma says_empty [simp]: "says [] s = s"
  by (simp add: says_def)

section \<open>Arithmetic on the command line\<close>

lemma skip_spaces_other: "chr0 s \<noteq> CHR '' '' \<Longrightarrow> skip_spaces s = s"
  by (cases s) auto

lemma skip_digits_append:
  "\<forall>c \<in> set ds. is_digit c \<Longrightarrow> \<not> is_digit (chr0 s) \<Longrightarrow> skip_digits (ds @ s) = s"
proof (induction ds)
  case Nil
  then show ?case by (cases s) auto
qed auto

lemma atoi_loop_append:
  "\<forall>c \<in> set ds. is_digit c \<Longrightarrow> \<not> is_digit (chr0 s) \<Longrightarrow> atoi_loop (ds @ s) n = atoi_loop ds n"
proof (induction ds arbitrary: n)
  case Nil
  then show ?case by (cases s) auto
qed auto

text \<open>A printed number is an optional minus sign and its digits.\<close>

lemma dec_string_cases:
  obtains (pos) ds where "dec_string n = ds" "ds \<noteq> []" "\<forall>c \<in> set ds. is_digit c"
  | (neg) ds where "dec_string n = CHR ''-'' # ds" "\<forall>c \<in> set ds. is_digit c"
proof -
  have d: "\<forall>c \<in> set (rev (dec_buf k)). is_digit c" for k using dec_buf_digits by auto
  consider "n = 0" | "sint n < 0" | "n \<noteq> 0" "0 < sint n"
    by (metis linorder_neqE_linordered_idom signed_eq_0_iff)
  then show thesis
  proof cases
    case 1
    then show thesis by (intro pos [of "''0''"]) (simp_all add: dec_string_def is_digit_def schar_def)
  next
    case 2
    then have "n \<noteq> 0" by auto
    with 2 show thesis by (intro neg [of "rev (dec_buf (sint (- n)))"] d) (simp add: dec_string_def)
  next
    case 3
    moreover have "dec_buf (sint n) \<noteq> []" using 3 by (subst dec_buf.simps) simp
    ultimately show thesis by (intro pos [of "rev (dec_buf (sint n))"] d) (simp_all add: dec_string_def)
  qed
qed

lemma atoi_dec_append:
  assumes "n \<noteq> 0x80000000" "\<not> is_digit (chr0 s)"
  shows "atoi (dec_string n @ s) = n"
proof -
  have n: "atoi (dec_string n) = n" using atoi_dec_string [of n] assms(1) by simp
  show ?thesis
  proof (cases rule: dec_string_cases [of n])
    case (pos ds)
    then have "chr0 (ds @ s) = chr0 ds" "is_digit (chr0 ds)" by (cases ds; simp)+
    moreover from this have "chr0 ds \<noteq> CHR ''-''" by (auto simp: is_digit_def schar_def)
    ultimately show ?thesis using pos(1) n by (simp add: atoi_def atoi_loop_append [OF pos(3) assms(2)])
  next
    case (neg ds)
    with n show ?thesis by (simp add: atoi_def atoi_loop_append [OF neg(2) assms(2)])
  qed
qed

lemma dec_string_start: "chr0 (dec_string n @ s) \<noteq> CHR '' ''"
proof (cases rule: dec_string_cases [of n])
  case (pos ds)
  then have "is_digit (chr0 (ds @ s))" by (cases ds) auto
  with pos(1) show ?thesis by (auto simp: is_digit_def schar_def)
qed simp

lemma skip_number:
  assumes "\<not> is_digit (chr0 s)"
  shows "skip_digits (if chr0 (dec_string n @ s) = CHR ''-'' then tl (dec_string n @ s) else dec_string n @ s) = s"
proof (cases rule: dec_string_cases [of n])
  case (pos ds)
  then have "is_digit (chr0 (ds @ s))" by (cases ds) auto
  then have "chr0 (ds @ s) \<noteq> CHR ''-''" by (auto simp: is_digit_def schar_def)
  with pos(1) show ?thesis by (simp add: skip_digits_append [OF pos(3) assms])
next
  case (neg ds)
  then show ?thesis by (simp add: skip_digits_append [OF neg(2) assms])
qed

lemma not_digit: "\<not> is_digit CHR '' ''" "\<not> is_digit NUL"
  by (simp_all add: is_digit_def schar_def)

text \<open>What \<open>cmd_calc\<close> makes of two operands, and of a command line with the operands as \<open>print_int\<close> prints them.\<close>

definition calc_result :: "u32 \<Rightarrow> char \<Rightarrow> u32 \<Rightarrow> 'a machine_scheme \<Rightarrow> 'a machine_scheme" where
  "calc_result a op b s =
    (if op = CHR ''+'' then says (dec_string (a + b) @ ''\<newline>'') s
     else if op = CHR ''-'' then says (dec_string (a - b) @ ''\<newline>'') s
     else if op = CHR ''*'' then says (dec_string (a * b) @ ''\<newline>'') s
     else if op = CHR ''/'' then
       (if b = 0 then says ''error: divide by zero\<newline>'' s
        else says (dec_string (word_of_int (sint a sdiv sint b)) @ ''\<newline>'') s)
     else says ''usage: calc 2 + 3\<newline>'' s)"

lemma cmd_calc_operands:
  assumes "skip_spaces args = dec_string a @ CHR '' '' # op # CHR '' '' # dec_string b @ rest"
    and "b \<noteq> 0x80000000" "op \<notin> {CHR '' '', NUL}" "\<not> is_digit (chr0 rest)" "atoi args \<noteq> 0x80000000"
  shows "cmd_calc r args s = done_with (calc_result (atoi args) op b s)"
proof -
  let ?t = "CHR '' '' # op # CHR '' '' # dec_string b @ rest"
  have 3: "skip_digits (if chr0 (dec_string a @ ?t) = CHR ''-'' then tl (dec_string a @ ?t) else dec_string a @ ?t) = ?t"
    using not_digit by (intro skip_number) simp
  have 4: "skip_spaces ?t = op # CHR '' '' # dec_string b @ rest" using assms(3) by simp
  have 5: "skip_spaces (CHR '' '' # dec_string b @ rest) = dec_string b @ rest"
    using skip_spaces_other [OF dec_string_start, of b rest] by simp
  have 6: "atoi (dec_string b @ rest) = b" by (rule atoi_dec_append [OF assms(2,4)])
  have op: "op \<noteq> NUL" using assms(3) by simp
  show ?thesis
    using assms(5) op
    unfolding cmd_calc_def Let_def assms(1) 3 4 chr0_simps if_P [OF op] list.sel 5 6
    by (simp add: calc_result_def kprint_says says_says dec_string_NUL)
qed

lemma cmd_calc_parsed:
  assumes "a \<noteq> 0x80000000" "b \<noteq> 0x80000000" "op \<notin> {CHR '' '', NUL}" "\<not> is_digit (chr0 rest)"
  defines "args \<equiv> dec_string a @ CHR '' '' # op # CHR '' '' # dec_string b @ rest"
  shows "cmd_calc r args s = done_with (calc_result a op b s)"
    "cmd_calc r (CHR '' '' # args) s = done_with (calc_result 0 op b s)"
proof -
  have skip: "skip_spaces args = args" unfolding args_def by (rule skip_spaces_other [OF dec_string_start])
  have a: "atoi args = a" unfolding args_def using atoi_dec_append [OF assms(1)] not_digit by simp
  show "cmd_calc r args s = done_with (calc_result a op b s)"
    using cmd_calc_operands [OF skip [unfolded args_def] assms(2-4), folded args_def, of r s] a assms(1) by simp
  have "skip_spaces (CHR '' '' # args) = args" using skip by simp
  moreover have z: "atoi (CHR '' '' # args) = 0" by (simp add: atoi_def not_digit)
  ultimately show "cmd_calc r (CHR '' '' # args) s = done_with (calc_result 0 op b s)"
    using cmd_calc_operands [of "CHR '' '' # args" a op b rest r s] assms(2-4) by (simp add: args_def)
qed

section \<open>The line editor\<close>

definition printable :: "char \<Rightarrow> bool" where
  "printable c \<longleftrightarrow> \<not> (schar c < schar CHR '' '' \<or> schar c > schar CHR ''~'')"

definition edit :: "string \<Rightarrow> char \<Rightarrow> string" where
  "edit ln c =
     (if c = CHR 0x08 then butlast ln
      else if printable c \<and> length ln < 127 then ln @ [c] else ln)"

definition typed :: "'a shell_layer_scheme \<Rightarrow> string" where
  "typed s = take (nat (line_len s)) (line_buf s)"

definition line_ok :: "'a shell_layer_scheme \<Rightarrow> bool" where
  "line_ok s \<longleftrightarrow> length (line_buf s) = 128 \<and> 0 \<le> line_len s \<and> line_len s \<le> 127 \<and> list_all printable (typed s)"

text \<open>The part of the state the line editor and the ring's consumer work on.\<close>

definition editor_only :: "'a shell_layer_scheme \<Rightarrow> 'a shell_layer_scheme \<Rightarrow> bool" where
  "editor_only s s' \<longleftrightarrow>
     (\<exists>c buf n t. s' = s\<lparr>con := c, line_buf := buf, line_len := n, ring_tail := t\<rparr> \<and> (vga_inv (con s) \<longrightarrow> vga_inv c))"

lemma task_inv_line [simp]:
  fixes s :: "'a shell_layer_scheme"
  shows "task_inv B bs (s\<lparr>line_buf := b\<rparr>) = task_inv B bs s" "task_inv B bs (s\<lparr>line_len := n\<rparr>) = task_inv B bs s"
  by (simp_all add: task_inv_def boot_stack_ok_def pool_def heap_inv_def paging_inv_def table_ok_def table_set_def
      dirent_def mapped_set_def pte_def table_entry_def backed_def page_of_def table_frames_def)

lemma editor_only_task: "editor_only s s' \<Longrightarrow> task_inv B bs s' = task_inv B bs s"
  by (auto simp: editor_only_def)

lemma editor_only_trans: "editor_only s t \<Longrightarrow> editor_only t u \<Longrightarrow> editor_only s u"
  unfolding editor_only_def by force

lemma not_printable_BS: "\<not> printable CHR 0x08" "\<not> printable CHR 0x0A" "\<not> printable NUL"
  by (simp_all add: printable_def schar_def)

lemma input_char_edits:
  fixes s :: "'a shell_layer_scheme"
  assumes ok: "line_ok s" and c: "c \<noteq> CHR 0x0A"
  shows "\<exists>x buf n. shell_input_char hlt ex ct r c s = done_with (s\<lparr>line_buf := buf, line_len := n, con := x\<rparr>) \<and>
    (vga_inv (con s) \<longrightarrow> vga_inv x) \<and> length buf = 128 \<and> 0 \<le> n \<and> n \<le> 127 \<and> take (nat n) buf = edit (typed s) c"
proof -
  have l: "length (line_buf s) = 128" "0 \<le> line_len s" "line_len s \<le> 127" using ok by (simp_all add: line_ok_def)
  have len: "length (typed s) = nat (line_len s)" using l by (simp add: typed_def)
  consider "c = CHR 0x08" | "c \<noteq> CHR 0x08" "\<not> printable c" | "c \<noteq> CHR 0x08" "printable c" by blast
  then show ?thesis
  proof cases
    case 1
    show ?thesis
    proof (cases "line_len s = 0")
      case True
      then have "shell_input_char hlt ex ct r c s = done_with s"
        using 1 by (simp add: shell_input_char_def)
      moreover have "s = s\<lparr>line_buf := line_buf s, line_len := line_len s, con := con s\<rparr>" by simp
      ultimately have "shell_input_char hlt ex ct r c s = done_with (s\<lparr>line_buf := line_buf s, line_len := line_len s, con := con s\<rparr>)"
        by (simp only:)
      moreover have "take (nat (line_len s)) (line_buf s) = edit (typed s) c" using 1 True by (simp add: edit_def typed_def)
      ultimately show ?thesis using l by blast
    next
      case False
      then have "0 < line_len s" using l by simp
      then have "shell_input_char hlt ex ct r c s =
          done_with (s\<lparr>line_buf := line_buf s, line_len := line_len s - 1, con := backspace (con s)\<rparr>)"
        using 1 by (simp add: shell_input_char_def)
      moreover have "nat (line_len s - 1) = nat (line_len s) - 1" by arith
      then have "take (nat (line_len s - 1)) (line_buf s) = edit (typed s) c"
        using 1 l by (simp add: edit_def typed_def butlast_take)
      ultimately show ?thesis using l \<open>0 < line_len s\<close>
        by (intro exI [of _ "backspace (con s)"] exI [of _ "line_buf s"] exI [of _ "line_len s - 1"]) (simp add: vga_inv_backspace)
    qed
  next
    case 2
    then have "shell_input_char hlt ex ct r c s = done_with (s\<lparr>line_buf := line_buf s, line_len := line_len s, con := con s\<rparr>)"
      using c by (simp add: shell_input_char_def printable_def)
    moreover have "take (nat (line_len s)) (line_buf s) = edit (typed s) c" using 2 by (simp add: edit_def typed_def)
    ultimately show ?thesis using l by blast
  next
    case 3
    show ?thesis
    proof (cases "line_len s < 127")
      case True
      then have "shell_input_char hlt ex ct r c s =
          done_with (s\<lparr>line_buf := (line_buf s)[nat (line_len s) := c], line_len := line_len s + 1, con := putchar c (con s)\<rparr>)"
        using 3 c by (simp add: shell_input_char_def printable_def LINE_MAX_def)
      moreover have "take (nat (line_len s + 1)) ((line_buf s)[nat (line_len s) := c]) = edit (typed s) c"
        using 3 True l len by (simp add: edit_def) (simp add: typed_def nat_add_distrib take_Suc_conv_app_nth)
      ultimately show ?thesis using l True
        by (intro exI [of _ "putchar c (con s)"] exI [of _ "(line_buf s)[nat (line_len s) := c]"] exI [of _ "line_len s + 1"])
          (simp add: vga_inv_putchar)
    next
      case False
      then have "shell_input_char hlt ex ct r c s = done_with (s\<lparr>line_buf := line_buf s, line_len := line_len s, con := con s\<rparr>)"
        using 3 c by (simp add: shell_input_char_def printable_def LINE_MAX_def)
      moreover have "take (nat (line_len s)) (line_buf s) = edit (typed s) c" using 3 False len by (simp add: edit_def typed_def)
      ultimately show ?thesis using l by blast
    qed
  qed
qed

lemma edit_printable: "list_all printable ln \<Longrightarrow> list_all printable (edit ln c)"
  by (auto simp: edit_def list_all_iff dest: in_set_butlastD)

lemma input_newline:
  assumes ok: "line_ok s"
  shows "\<exists>line. shell_input_char hlt ex ct r CHR 0x0A s =
      shell_execute hlt ex ct r line (s\<lparr>con := putchar CHR 0x0A (con s), line_buf := line, line_len := 0\<rparr>) \<and>
    length line = 128 \<and> cstring line = typed s"
proof -
  let ?line = "(line_buf s)[nat (line_len s) := NUL]"
  have l: "length (line_buf s) = 128" "0 \<le> line_len s" "line_len s \<le> 127" and p: "list_all printable (typed s)"
    using ok by (simp_all add: line_ok_def)
  have "?line = typed s @ NUL # drop (Suc (nat (line_len s))) (line_buf s)"
    using l by (simp add: typed_def upd_conv_take_nth_drop)
  moreover have "NUL \<notin> set (typed s)" using p not_printable_BS by (auto simp: list_all_iff)
  ultimately have "cstring ?line = typed s"
    by (simp add: cstring_def takeWhile_append)
  then show ?thesis
    using l by (intro exI [of _ ?line]) (simp add: shell_input_char_def)
qed

section \<open>Polling\<close>

text \<open>The editor does not touch the queue, the consumer only its tail.\<close>

lemma ring_editor [simp]:
  fixes s :: "'a shell_layer_scheme"
  shows "ring_ok (s\<lparr>line_buf := b\<rparr>) = ring_ok s" "ring_ok (s\<lparr>line_len := n\<rparr>) = ring_ok s"
    "ring_items (s\<lparr>line_buf := b\<rparr>) = ring_items s" "ring_items (s\<lparr>line_len := n\<rparr>) = ring_items s"
  by (simp_all add: ring_ok_def ring_items_def ring_count_def)

lemma and_then_done [simp]: "and_then (done_with s) f = f s"
  by (simp add: and_then_def done_with_def)

lemma poll_pop:
  assumes "ring_ok s" "ring_items s = c # cs"
  shows "\<exists>t. shell_poll hlt ex ct r s =
      and_then (shell_input_char hlt ex ct r c (s\<lparr>ring_tail := t\<rparr>)) (shell_poll hlt ex ct r) \<and>
    ring_ok (s\<lparr>ring_tail := t\<rparr>) \<and> ring_items (s\<lparr>ring_tail := t\<rparr>) = cs"
proof -
  note p = ring_items_pop [OF assms]
  obtain s' where "ring_pop s = Some (c, s')" "ring_ok s'" using rq.pop_items [OF assms] by blast
  with p show ?thesis
    by (intro exI [of _ "(ring_tail s + 1) mod RING_SIZE"]) (simp add: shell_poll_step [of hlt ex ct r s])
qed

lemma poll_line:
  fixes s :: "'a shell_layer_scheme"
  assumes "ring_ok s" "line_ok s" "ring_items s = cs @ CHR 0x0A # rest" "CHR 0x0A \<notin> set cs"
  shows "\<exists>line u. shell_poll hlt ex ct r s = and_then (shell_execute hlt ex ct r line u) (shell_poll hlt ex ct r) \<and>
    cstring line = foldl edit (typed s) cs \<and> line_ok u \<and> typed u = [] \<and> ring_ok u \<and> ring_items u = rest \<and>
    editor_only s u"
  using assms
proof (induction cs arbitrary: s)
  case Nil
  then obtain t where t: "shell_poll hlt ex ct r s =
      and_then (shell_input_char hlt ex ct r CHR 0x0A (s\<lparr>ring_tail := t\<rparr>)) (shell_poll hlt ex ct r)"
    "ring_ok (s\<lparr>ring_tail := t\<rparr>)" "ring_items (s\<lparr>ring_tail := t\<rparr>) = rest"
    using poll_pop [of s "CHR 0x0A" rest hlt ex ct r] by auto
  let ?s = "s\<lparr>ring_tail := t\<rparr>"
  have "line_ok ?s" "typed ?s = typed s" using Nil.prems(2) by (simp_all add: line_ok_def typed_def)
  then obtain line where line: "shell_input_char hlt ex ct r CHR 0x0A ?s =
      shell_execute hlt ex ct r line (?s\<lparr>con := putchar CHR 0x0A (con ?s), line_buf := line, line_len := 0\<rparr>)"
    "length line = 128" "cstring line = typed s"
    using input_newline [of ?s hlt ex ct r] by auto
  let ?u = "?s\<lparr>con := putchar CHR 0x0A (con ?s), line_buf := line, line_len := 0\<rparr>"
  have "editor_only s ?u" unfolding editor_only_def
    by (intro exI [of _ "putchar CHR 0x0A (con s)"] exI [of _ line] exI [of _ 0] exI [of _ t]) (simp add: vga_inv_putchar)
  moreover have "line_ok ?u" "typed ?u = []" using line(2) by (simp_all add: line_ok_def typed_def)
  ultimately show ?case
    using t line by (intro exI [of _ line] exI [of _ ?u]) simp
next
  case (Cons c cs)
  then obtain t where t: "shell_poll hlt ex ct r s =
      and_then (shell_input_char hlt ex ct r c (s\<lparr>ring_tail := t\<rparr>)) (shell_poll hlt ex ct r)"
    "ring_ok (s\<lparr>ring_tail := t\<rparr>)" "ring_items (s\<lparr>ring_tail := t\<rparr>) = cs @ CHR 0x0A # rest"
    using poll_pop [of s c "cs @ CHR 0x0A # rest" hlt ex ct r] by auto
  let ?s = "s\<lparr>ring_tail := t\<rparr>"
  have ok: "line_ok ?s" "typed ?s = typed s" using Cons.prems(2) by (simp_all add: line_ok_def typed_def)
  have "c \<noteq> CHR 0x0A" using Cons.prems(4) by auto
  from input_char_edits [OF ok(1) this, of hlt ex ct r] ok(2) obtain x buf n where
    e: "shell_input_char hlt ex ct r c ?s = done_with (?s\<lparr>line_buf := buf, line_len := n, con := x\<rparr>)"
      "vga_inv (con s) \<longrightarrow> vga_inv x" "length buf = 128" "0 \<le> n" "n \<le> 127" "take (nat n) buf = edit (typed s) c"
    by auto
  let ?v = "?s\<lparr>line_buf := buf, line_len := n, con := x\<rparr>"
  have v: "typed ?v = edit (typed s) c" "line_ok ?v"
    using e edit_printable Cons.prems(2) by (simp_all add: typed_def line_ok_def)
  have sv: "editor_only s ?v" unfolding editor_only_def
    using e(2) by (intro exI [of _ x] exI [of _ buf] exI [of _ n] exI [of _ t]) simp
  from Cons.IH [of ?v] v t Cons.prems(4) obtain line u where
    u: "shell_poll hlt ex ct r ?v = and_then (shell_execute hlt ex ct r line u) (shell_poll hlt ex ct r)"
      "cstring line = foldl edit (edit (typed s) c) cs" "line_ok u" "typed u = []" "ring_ok u" "ring_items u = rest" "editor_only ?v u"
    by auto
  show ?case
    using u t(1) e(1) editor_only_trans [OF sv u(7)] by (intro exI [of _ line] exI [of _ u]) simp
qed

lemma edit_all:
  "list_all printable cs \<Longrightarrow> length ln + length cs \<le> 127 \<Longrightarrow> foldl edit ln cs = ln @ cs"
proof (induction cs arbitrary: ln)
  case (Cons c cs)
  have "edit ln c = ln @ [c]"
    using Cons.prems not_printable_BS by (auto simp: edit_def)
  with Cons show ?case by simp
qed simp

end
