(* ===== verification/Shell_Claims.thy ===== *)
theory Shell_Claims
  imports Shell_Props Device_Claims
begin

text \<open>
  The properties of the shell: the calculator, the line editor, and the way from a key press to the
  execution of a command.
\<close>

section \<open>The calculator\<close>



section \<open>The line editor\<close>

text \<open>
  C37: reading a line. \<open>edit\<close> is the line editor as a function on the text typed so far: a printable
  character is appended while there are fewer than 127, backspace removes the last one, anything else is
  ignored. When the queue holds a line, \<open>shell_poll\<close> takes exactly that line from it, never leaves the 128 bytes of
  the buffer, and executes the NUL-terminated text that \<open>edit\<close> computes; then it starts on an empty line.
  Meanwhile nothing in the kernel changes but the console, which stays on its screen.
\<close>

theorem shell_reads_line:
  assumes "ring_ok s" and "line_ok s" and "ring_items s = cs @ CHR 0x0A # rest" and "CHR 0x0A \<notin> set cs"
  shows "\<exists>line u. shell_poll hlt ex ct r s = and_then (shell_execute hlt ex ct r line u) (shell_poll hlt ex ct r) \<and>
    cstring line = foldl edit (typed s) cs \<and> line_ok u \<and> typed u = [] \<and> ring_ok u \<and> ring_items u = rest \<and>
    editor_only s u"
  by (rule poll_line [OF assms])

text \<open>A running kernel with interrupt tables and an empty line, whose devices present \<open>inp\<close>.\<close>

definition demo_shell :: "(nat \<Rightarrow> u16 \<Rightarrow> u8) \<Rightarrow> shell_layer" where
  "demo_shell inp = (demo_kernel \<lparr>idt = replicate 256 zero_gate, idtp = \<lparr>limit = 0, idt_base = 0\<rparr>,
     idtr = \<lparr>limit = 0, idt_base = 0\<rparr>, line_buf = replicate 128 NUL, line_len = 0\<rparr>)
     \<lparr>con := demo_con\<lparr>inputs := inp\<rparr>\<rparr>"

lemma demo_shell:
  "task_inv demo_stack [(HEAP_START, 0xFFF0, True)] (demo_shell inp)" "ring_ok (demo_shell inp)"
  "ring_items (demo_shell inp) = []" "\<not> shift_down (demo_shell inp)" "line_ok (demo_shell inp)" "typed (demo_shell inp) = []"
  "con (demo_shell inp) = demo_con\<lparr>inputs := inp\<rparr>"
proof -
  let ?m = "\<lparr>idt = replicate 256 zero_gate, idtp = \<lparr>limit = 0, idt_base = 0\<rparr>,
     idtr = \<lparr>limit = 0, idt_base = 0\<rparr>, line_buf = replicate 128 NUL, line_len = 0\<rparr>"
  note k = demo_kernel [of ?m]
  show "task_inv demo_stack [(HEAP_START, 0xFFF0, True)] (demo_shell inp)" "ring_ok (demo_shell inp)"
    "ring_items (demo_shell inp) = []" "\<not> shift_down (demo_shell inp)"
    "con (demo_shell inp) = demo_con\<lparr>inputs := inp\<rparr>"
    using k by (simp_all add: demo_shell_def)
  have "line_buf (demo_kernel ?m) = replicate 128 NUL" "line_len (demo_kernel ?m) = 0"
    using k(7) by (cases "demo_kernel ?m"; simp)+
  then show "line_ok (demo_shell inp)" "typed (demo_shell inp) = []"
    by (simp_all add: demo_shell_def line_ok_def typed_def)
qed

lemma typeable_printable: "printable c \<Longrightarrow> typeable c"
proof -
  assume "printable c"
  moreover have "schar CHR '' '' = 32" "schar CHR ''~'' = 126" by (simp_all add: schar_def)
  moreover have "(of_char c :: int) = int (of_char c)" by (rule of_nat_of_char [symmetric])
  moreover have "of_char c < (288 :: nat)" using nat_of_char_less_256 [of c] by linarith
  ultimately show ?thesis
    by (auto simp: printable_def typeable_def uchar_def schar_def Let_def split: if_splits)
qed

lemma push_fold_line:
  fixes s :: "'a shell_layer_scheme"
  shows "line_buf (fold shell_push_char cs s) = line_buf s" "line_len (fold shell_push_char cs s) = line_len s"
proof -
  have "line_buf (shell_push_char c s) = line_buf s \<and> line_len (shell_push_char c s) = line_len s"
    for c and s :: "'a shell_layer_scheme"
    by (simp add: shell_push_char_def Let_def)
  then show "line_buf (fold shell_push_char cs s) = line_buf s" "line_len (fold shell_push_char cs s) = line_len s"
    by (induction cs arbitrary: s) simp_all
qed

theorem shell_reads_line_witness:
  "\<exists>s line u. ring_items s = [CHR ''p'', CHR ''x'', CHR 0x08, CHR ''s'', CHR 0x0A] \<and> cstring line = ''ps'' \<and>
     shell_poll (\<lambda>_. None) 0 0 (demo_regs 0) s =
       and_then (shell_execute (\<lambda>_. None) 0 0 (demo_regs 0) line (u :: shell_layer)) (shell_poll (\<lambda>_. None) 0 0 (demo_regs 0))"
proof -
  let ?d = "demo_shell (\<lambda>_ _. 0)" and ?cs = "[CHR ''p'', CHR ''x'', CHR 0x08, CHR ''s'']"
  define s where "s = fold shell_push_char (?cs @ [CHR 0x0A]) ?d"
  note d = demo_shell [of "\<lambda>_ _. 0"]
  have s: "ring_ok s" "ring_items s = ?cs @ [CHR 0x0A]"
    using rq.push_all [OF d(2), of "?cs @ [CHR 0x0A]"] d(3) by (simp_all add: s_def del: fold.simps)
  have t: "typed s = []" "line_ok s" using d(5,6) push_fold_line [of "?cs @ [CHR 0x0A]" ?d]
    by (simp_all add: typed_def line_ok_def s_def del: fold.simps)
  have "foldl edit (typed s) ?cs = ''ps''"
    by (simp add: t edit_def printable_def schar_def)
  with shell_reads_line [OF s(1) t(2) s(2), of "\<lambda>_. None" 0 0 "demo_regs 0"] s(2) show ?thesis
    by (intro exI [of _ s]) auto
qed

section \<open>From the key to the command\<close>

text \<open>
  C38: what is typed at the keyboard is executed. In a kernel whose input queue and line are empty, the keyboard
  interrupts of any line of at most 127 printable characters and the Enter key, followed by one
  \<open>shell_poll\<close>, make the shell execute exactly that line. The scheduler invariant is kept on the way.
\<close>

theorem typed_line_is_executed:
  assumes "ring_ok s" and "ring_items s = []" and "line_ok s" and "typed s = []" and "\<not> shift_down s"
    and "list_all printable cs" and "length cs \<le> 127"
    and "key_script (inputs (con s)) (in_count (con s)) (concat (map keys_of (cs @ [CHR 0x0A])))"
  shows "\<exists>line u. shell_poll hlt ex ct r ((keyboard_handler ^^ length (concat (map keys_of (cs @ [CHR 0x0A])))) s) =
      and_then (shell_execute hlt ex ct r line u) (shell_poll hlt ex ct r) \<and> cstring line = cs \<and>
    typed u = [] \<and> ring_items u = [] \<and> line_ok u \<and> ring_ok u \<and> task_inv B bs u = task_inv B bs s"
proof -
  let ?cs = "cs @ [CHR 0x0A]"
  define t where "t = (keyboard_handler ^^ length (concat (map keys_of ?cs))) s"
  have ty: "list_all typeable ?cs"
    using assms(6) typeable_printable by (auto simp: list_all_iff typeable_def)
  define n where "n = in_count (con s) + length (concat (map keys_of ?cs))"
  have t: "t = (fold shell_push_char ?cs s)\<lparr>con := (con s)\<lparr>in_count := n\<rparr>\<rparr>"
    unfolding t_def n_def by (rule keys_of_text [OF ty assms(5,8)])
  have ring: "ring_ok t" "ring_items t = cs @ [CHR 0x0A]"
    using rq.push_all [OF assms(1), of ?cs] assms(2,7) by (simp_all add: t del: fold_append)
  have line: "line_ok t" "typed t = []"
    using assms(3,4) push_fold_line [of ?cs s] by (simp_all add: t line_ok_def typed_def del: fold_append)
  have "CHR 0x0A \<notin> set cs" using assms(6) not_printable_BS by (auto simp: list_all_iff)
  from poll_line [OF ring(1) line(1) ring(2) this, of hlt ex ct r] obtain line u where
    u: "shell_poll hlt ex ct r t = and_then (shell_execute hlt ex ct r line u) (shell_poll hlt ex ct r)"
      "cstring line = foldl edit (typed t) cs" "line_ok u" "typed u = []" "ring_ok u" "ring_items u = []" "editor_only t u"
    by auto
  have "task_inv B bs u = task_inv B bs t" by (rule editor_only_task [OF u(7)])
  also have "\<dots> = task_inv B bs s" by (simp add: t push_fold_task_inv del: fold_append)
  finally show ?thesis
    using u line(2) edit_all [OF assms(6), of "[]"] assms(7) unfolding t_def by auto
qed

definition demo_typing :: "nat \<Rightarrow> u16 \<Rightarrow> u8" where
  "demo_typing n p = [0x19, 0x1F, 0x1C] ! n"

theorem typed_line_is_executed_witness:
  "\<exists>line u. shell_poll (\<lambda>_. None) 0 0 (demo_regs 0) ((keyboard_handler ^^ 3) (demo_shell demo_typing)) =
      and_then (shell_execute (\<lambda>_. None) 0 0 (demo_regs 0) line u) (shell_poll (\<lambda>_. None) 0 0 (demo_regs 0)) \<and>
    cstring line = ''ps''"
proof -
  have k: "concat (map keys_of (''ps'' @ [CHR 0x0A])) = [0x19, 0x1F, 0x1C]"
    by (simp add: keys_of_def key_rows_def index_of_def)
  have "list_all printable ''ps''" "length ''ps'' \<le> 127" by (simp_all add: printable_def schar_def)
  moreover have "key_script (inputs (con (demo_shell demo_typing))) (in_count (con (demo_shell demo_typing)))
      (concat (map keys_of (''ps'' @ [CHR 0x0A])))"
    unfolding k by (simp add: demo_shell(7) demo_con_def demo_typing_def)
  moreover have "length [0x19, 0x1F, 0x1C :: u8] = 3" by simp
  ultimately show ?thesis
    using typed_line_is_executed [OF demo_shell(2,3,5,6,4), of "''ps''" demo_typing "\<lambda>_. None" 0 0 "demo_regs 0" "{}" "[]"]
    unfolding k by metis
qed

end
