(* ===== verification/Command_Claims.thy ===== *)
theory Command_Claims
  imports Shell_Claims
begin

text \<open>
  Properties of the shell commands that reach into the memory system: a deliberate page fault, and
  mapping and unmapping a page.
\<close>

section \<open>A deliberate fault\<close>

text \<open>Printing does not touch the paging state.\<close>

lemma says_paging [simp]:
  "pte (says str s) = pte s" "paging_inv (says str s) = paging_inv s" "table_frames (says str s) = table_frames s"
  "tlb_coherent (says str s) = tlb_coherent s" "mmu_lookup (says str s) = mmu_lookup s"
  "paging (says str s) = paging s" "pmm (says str s) = pmm s" "mem (says str s) = mem s"
  "paging_translate v (says str s) = paging_translate v s"
proof -
  show p: "pte (says str s) = pte s" by (rule pte_same) (simp_all add: says_def)
  have d: "dirent (says str s) = dirent s" "table_set (says str s) = table_set s" "mapped_set (says str s) = mapped_set s"
    by (simp_all add: fun_eq_iff dirent_def table_set_def mapped_set_def p) (simp_all add: says_def)
  show q: "paging (says str s) = paging s" "pmm (says str s) = pmm s" "mem (says str s) = mem s"
    by (simp_all add: says_def)
  show "paging_inv (says str s) = paging_inv s" "table_frames (says str s) = table_frames s"
    "tlb_coherent (says str s) = tlb_coherent s"
    by (simp_all add: paging_inv_def table_ok_def table_frames_def tlb_coherent_def p d q)
  show "mmu_lookup (says str s) = mmu_lookup s"
    by (rule ext) (simp add: mmu_lookup_def q split: option.split, simp add: p)
  show "paging_translate v (says str s) = paging_translate v s"
    by (simp add: paging_translate_def get_table_def q says_def Let_def)
qed

text \<open>
  C39: exceptions. The command \<open>fault\<close>, in a kernel with paging on that maps nothing at its address,
  prints what it is about to do, the report of the page fault and the message of the exception handler, and stops the
  machine there; it changes nothing else. An exception returns to the interrupted code exactly when it is a breakpoint.
\<close>

theorem fault_command_stops:
  assumes "paging_enabled (paging s)" and "mmu_lookup s 0xDEADB000 = None"
  shows "shell_execute hlt ex ct r ''fault'' s = Some (Stopped (says (concat
      [''Touching unmapped memory at 0xDEADB000 on purpose...\<newline>'',
       ''\<newline>*** PAGE FAULT ***\<newline>'', ''  address : '', hex_string 0xDEADB000,
       ''\<newline>  cause   : '', ''page not present'', '', '', ''on write'', '', '', ''kernel mode'',
       ''\<newline>  code    : '', hex_string 2, ''\<newline>'',
       ''\<newline>*** CPU EXCEPTION '', dec_string 14, '': '', ''page fault'', '' ***\<newline>  eip: '', hex_string (r_eip r),
       ''  err: '', hex_string 2, ''\<newline>System halted.\<newline>'']) s)) \<and>
    ((\<exists>t. isr_handler cr2 r s = Running t) \<longleftrightarrow> int_no r = 3)"
proof (rule conjI)
  have "shell_execute hlt ex ct r ''fault'' s = and_then (cmd_fault r [] s) (\<lambda>s. done_with (shell_prompt s))"
    by (simp add: shell_execute_def run_command_def strcmp_eq_0 del: strcmp.simps)
  also have "cmd_fault r [] s = trap 14 2 0xDEADB000 r (says ''Touching unmapped memory at 0xDEADB000 on purpose...\<newline>'' s)"
    using assms by (simp add: cmd_fault_def virt_store_def kprint_says)
  finally show "shell_execute hlt ex ct r ''fault'' s = Some (Stopped (says (concat
      [''Touching unmapped memory at 0xDEADB000 on purpose...\<newline>'',
       ''\<newline>*** PAGE FAULT ***\<newline>'', ''  address : '', hex_string 0xDEADB000,
       ''\<newline>  cause   : '', ''page not present'', '', '', ''on write'', '', '', ''kernel mode'',
       ''\<newline>  code    : '', hex_string 2, ''\<newline>'',
       ''\<newline>*** CPU EXCEPTION '', dec_string 14, '': '', ''page fault'', '' ***\<newline>  eip: '', hex_string (r_eip r),
       ''  err: '', hex_string 2, ''\<newline>System halted.\<newline>'']) s))"
    by (subst says_concat)
      (simp_all add: trap_def and_then_def isr_handler_def page_fault_handler_def Let_def kprint_says
        exception_names_def hex_string_NUL dec_string_NUL)
  show "(\<exists>t. isr_handler cr2 r s = Running t) \<longleftrightarrow> int_no r = 3"
    by (simp add: isr_handler_def)
qed

definition demo_paged :: shell_layer where
  "demo_paged = demo_on \<lparr>heap = \<lparr>head = 0, brk = 0, heap_ready = False\<rparr>, sched = sched_boot, cpu = demo_cpu,
     ticks = 0, ring = replicate 256 NUL, ring_head = 0, ring_tail = 0, shift_down = False,
     idt = replicate 256 zero_gate, idtp = \<lparr>limit = 0, idt_base = 0\<rparr>, idtr = \<lparr>limit = 0, idt_base = 0\<rparr>,
     line_buf = replicate 128 NUL, line_len = 0\<rparr>"

lemma demo_paged_unmapped: "0x1000000 \<le> v \<Longrightarrow> pte demo_paged v = None"
proof -
  assume "0x1000000 \<le> v"
  then have "page_of demo_paged v = None" unfolding demo_paged_def by (simp add: demo_on(6))
  then show ?thesis by (simp add: page_of_def)
qed

theorem fault_command_stops_witness:
  "\<exists>t. shell_execute (\<lambda>_. None) 0 0 (demo_regs 0) ''fault'' demo_paged = Some (Stopped t)"
proof -
  have "mmu_lookup demo_paged 0xDEADB000 = None"
    unfolding demo_paged_def mmu_lookup_pte [OF demo_on(2)] unfolding demo_paged_def [symmetric]
    by (simp add: demo_paged_unmapped)
  moreover have "paging_enabled (paging demo_paged)" unfolding demo_paged_def by (rule demo_on)
  ultimately show ?thesis
    using fault_command_stops [of demo_paged "\<lambda>_. None" 0 0 "demo_regs 0"] by blast
qed

section \<open>Mapping and unmapping a page\<close>

text \<open>Giving frames to the allocator or taking them from it leaves every translation alone.\<close>

lemma pmm_update_paging:
  "pte (s\<lparr>pmm := p\<rparr>) = pte s" "tlb_coherent (s\<lparr>pmm := p\<rparr>) = tlb_coherent s" "page_of (s\<lparr>pmm := p\<rparr>) = page_of s"
  "table_frames (s\<lparr>pmm := p\<rparr>) = table_frames s"
proof -
  show p: "pte (s\<lparr>pmm := p\<rparr>) = pte s" by (rule pte_same) simp_all
  then show "tlb_coherent (s\<lparr>pmm := p\<rparr>) = tlb_coherent s" "page_of (s\<lparr>pmm := p\<rparr>) = page_of s"
    by (simp_all add: tlb_coherent_def page_of_def fun_eq_iff)
  show "table_frames (s\<lparr>pmm := p\<rparr>) = table_frames s"
    by (simp add: table_frames_def table_set_def dirent_def)
qed

lemma says_page_of [simp]: "page_of (says str s) = page_of s" "low_free (says str s) = low_free s"
  by (simp_all add: page_of_def fun_eq_iff low_free_def)

lemma page_mask: "a AND NOT (PAGE_SIZE - 1) = FRAME_OF a"
proof -
  have "NOT (PAGE_SIZE - 1) = 0xFFFFF000" by (simp add: PAGE_SIZE_def)
  then show ?thesis by (simp only: FRAME_OF_def)
qed

lemma aligned_offset: "FRAME_OF a AND 0xFFF = 0"
proof -
  have m: "(0xFFF :: u32) = mask 12" by (simp add: mask_eq_exp_minus_1)
  show ?thesis unfolding m FRAME_OF_alt by (auto intro!: bit_word_eqI simp: bit_simps)
qed

lemma frame_not_unmapped: "FRAME_OF e \<noteq> PAGE_UNMAPPED"
proof
  assume "FRAME_OF e = PAGE_UNMAPPED"
  then have "4096 dvd unat PAGE_UNMAPPED" using FRAME_OF_aligned [of e] by simp
  then show False by (simp add: PAGE_UNMAPPED_def)
qed

lemma cmd_unmap_frame:
  assumes inv: "paging_inv t" and co: "tlb_coherent t" and pt: "pte t v = Some e"
    and v: "v = atoi_hex args AND NOT (PAGE_SIZE - 1)" "2 ^ 24 \<le> unat v"
    and f: "frame_no (FRAME_OF e) \<notin> table_frames t" "frame_no (FRAME_OF e) \<notin> free_frames (pmm t)"
      "frame_no (FRAME_OF e) < unat (total_frames (pmm t))"
  shows "paging_inv (cmd_unmap args t)" "tlb_coherent (cmd_unmap args t)"
    "pte (cmd_unmap args t) = (\<lambda>w. if vpage w = vpage v then None else pte t w)"
    "free_frames (pmm (cmd_unmap args t)) = insert (frame_no (FRAME_OF e)) (free_frames (pmm t))"
proof -
  obtain ok s1 where um: "paging_unmap v t = (ok, s1)" by fastforce
  note sp = paging_unmap_spec [OF inv um] and st = paging_unmap_step [OF inv um]
    and c1 = tlb_coherent_unmap [OF inv co um]
  have tr: "paging_translate v t = FRAME_OF e"
    by (simp add: paging_translate_pte [OF inv] pt) (simp add: v(1) page_mask aligned_offset)
  have hi: "\<not> v < paging_identity_end t"
    using inv v(2) by (simp add: paging_identity_end_def paging_inv_def word_less_nat_alt)
  let ?u = "s1\<lparr>pmm := pmm_free_frame (FRAME_OF e) (pmm s1)\<rparr>"
  have "FRAME_OF (FRAME_OF e) = FRAME_OF e" using FRAME_OF_entry [OF FRAME_OF_aligned, of e 0] by simp
  then have "\<exists>str. cmd_unmap args t = says str ?u"
    using um tr hi v(1) frame_not_unmapped [of e]
    by (auto simp: cmd_unmap_def page_mask kprint_says says_says hex_string_NUL)
  then obtain str where un: "cmd_unmap args t = says str ?u" by blast
  have "frame_no (FRAME_OF e) \<notin> table_frames s1" using st f by (auto simp: tables_step_def)
  then have "paging_inv ?u" using sp by (intro paging_inv_free) simp_all
  then show "paging_inv (cmd_unmap args t)" by (simp add: un)
  show "tlb_coherent (cmd_unmap args t)" using c1 by (simp add: un pmm_update_paging)
  show "pte (cmd_unmap args t) = (\<lambda>w. if vpage w = vpage v then None else pte t w)"
    using sp by (simp add: un pmm_update_paging)
  have "pmm_inv (pmm t)" using inv by (simp add: paging_inv_def)
  then show "free_frames (pmm (cmd_unmap args t)) = insert (frame_no (FRAME_OF e)) (free_frames (pmm t))"
    using fa.free_insert [of "pmm t" "FRAME_OF e"] f(3) st(2) by (simp add: un)
qed

text \<open>The state in which \<open>map\<close> builds the mapping: the frame \<open>f\<close> has been taken from the allocator.\<close>

lemma frame_taken:
  assumes inv: "paging_inv s" and al: "pmm_alloc_frame (pmm s) = (f, p)" and f: "f \<noteq> 0"
  shows "paging_inv (s\<lparr>pmm := p\<rparr>)" "free_frames p = free_frames (pmm s) - {frame_no f}" "frame_no f \<notin> table_frames s"
    "frame_no f \<in> free_frames (pmm s)" "frame_no f < unat (total_frames (pmm s))" "total_frames p = total_frames (pmm s)"
    "FRAME_OF f = f"
proof -
  have pinv: "pmm_inv (pmm s)" using inv by (simp add: paging_inv_def)
  note c = fa.alloc_cases [OF pinv al f] and a = pmm_alloc_inv [OF pinv al]
  show "paging_inv (s\<lparr>pmm := p\<rparr>)" by (rule paging_inv_pmm [OF inv a(1,3)])
  show "free_frames p = free_frames (pmm s) - {frame_no f}" "frame_no f \<in> free_frames (pmm s)"
    "total_frames p = total_frames (pmm s)"
    using c a by simp_all
  show "frame_no f \<notin> table_frames s" using c(1) table_frames_not_free [OF inv] by auto
  show "frame_no f < unat (total_frames (pmm s))" using fa.free_less [OF pinv c(1)] .
  show "FRAME_OF f = f" using FRAME_OF_entry [OF c(3), of 0] by simp
qed

lemma cmd_map_fail:
  assumes inv: "paging_inv s" and co: "tlb_coherent s" and nz: "0 \<notin> free_frames (pmm s)"
    and v: "v = atoi_hex args AND NOT (PAGE_SIZE - 1)" "v \<noteq> 0" and un: "pte s v = None"
    and al: "pmm_alloc_frame (pmm s) = (f, p)" and f: "f \<noteq> 0"
    and map: "paging_map v f PAGE_WRITE (s\<lparr>pmm := p\<rparr>) = (False, s2)"
  obtains t where "cmd_map r args s = done_with t" "paging_inv t" "tlb_coherent t" "pte t = pte s"
    "free_frames (pmm t) = free_frames (pmm s)" "card (low_free s) < 2"
proof -
  note tk = frame_taken [OF inv al f] and sp = paging_map_spec [OF frame_taken(1) [OF inv al f] map]
  let ?u = "s2\<lparr>pmm := pmm_free_frame f (pmm s2)\<rparr>"
  have free: "free_frames (pmm s2) = free_frames (pmm s) - {frame_no f}"
    using paging_map_fail [OF tk(1) map] nz tk(2) by auto
  have tf: "frame_no f \<notin> table_frames s2"
    using paging_map_step [OF tk(1) map] tk(2,3) by (auto simp: tables_step_def pmm_update_paging)
  have "paging_inv ?u" using sp tf by (intro paging_inv_free) simp_all
  moreover have "tlb_coherent ?u" using sp co by (simp add: pmm_update_paging tlb_coherent_def)
  moreover have "free_frames (pmm ?u) = free_frames (pmm s)"
  proof -
    have "pmm_inv (pmm s2)" "unat (total_frames (pmm s2)) = unat (total_frames (pmm s))"
      using sp tk(6) by (simp_all add: paging_inv_def paging_frame_def)
    then show ?thesis
      using fa.free_insert [of "pmm s2" f] free tk(4,5) by (auto simp: insert_absorb)
  qed
  moreover have "card (low_free s) < 2"
  proof -
    have "low_free (s\<lparr>pmm := p\<rparr>) = {}"
    proof (rule ccontr)
      assume ne: "low_free (s\<lparr>pmm := p\<rparr>) \<noteq> {}"
      have "0 \<notin> free_frames (pmm (s\<lparr>pmm := p\<rparr>))" using nz tk(2) by simp
      from paging_map_success [OF tk(1) this disjI2 [OF ne], of v f PAGE_WRITE]
      obtain s' where "paging_map v f PAGE_WRITE (s\<lparr>pmm := p\<rparr>) = (True, s')" .
      with map show False by simp
    qed
    then have "low_free s \<subseteq> {frame_no f}" using tk(2) by (auto simp: low_free_def)
    then have "card (low_free s) \<le> card {frame_no f}" by (intro card_mono) simp_all
    then show ?thesis by simp
  qed
  moreover have cmd: "cmd_map r args s = done_with (says ''mapping failed (no frame for a page table)\<newline>'' ?u)"
    using v(2) al f map paging_translate_pte [OF inv, of v] un by (simp add: cmd_map_def v(1) [symmetric] kprint_says)
  ultimately show thesis using sp by (intro that [OF cmd]) (simp_all add: pmm_update_paging)
qed

lemma cmd_map_ok:
  assumes inv: "paging_inv s" and co: "tlb_coherent s"
    and v: "v = atoi_hex args AND NOT (PAGE_SIZE - 1)" "2 ^ 24 \<le> unat v" and un: "pte s v = None"
    and al: "pmm_alloc_frame (pmm s) = (f, p)" and f: "f \<noteq> 0"
    and map: "paging_map v f PAGE_WRITE (s\<lparr>pmm := p\<rparr>) = (True, s2)"
  obtains t where "cmd_map r args s = done_with t" "paging_inv t" "tlb_coherent t" "ld32 (mem t) v = 0x1234ABCD"
    "pte t = (\<lambda>w. if vpage w = vpage v then Some (FRAME_OF f OR (PAGE_WRITE AND 0xFFF) OR PAGE_PRESENT) else pte s w)"
    "free_frames (pmm t) \<subseteq> free_frames (pmm s) - {frame_no f}" "total_frames (pmm t) = total_frames (pmm s)"
    "frame_no f \<notin> table_frames t"
proof -
  note tk = frame_taken [OF inv al f] and sp = paging_map_spec [OF frame_taken(1) [OF inv al f] map]
  let ?u = "s2\<lparr>mem := st32 (mem s2) v 0x1234ABCD\<rparr>"
  have al4: "unat v + 4096 \<le> 2 ^ 32" by (rule aligned_end) (simp add: v(1) page_mask)
  have "st32 (mem s2) v 0x1234ABCD a = mem s2 a" if "unat a < 2 ^ 24" for a
    using v(2) al4 that by (intro st32_outside) auto
  then have hi: "paging_inv ?u" "pte ?u = pte s2" "table_frames ?u = table_frames s2"
    using tables_high_mem [of s2 "st32 (mem s2) v 0x1234ABCD"] sp by blast+
  have pt: "pte s2 = (\<lambda>w. if vpage w = vpage v then Some (FRAME_OF f OR (PAGE_WRITE AND 0xFFF) OR PAGE_PRESENT) else pte s w)"
    using sp by (simp add: pmm_update_paging(1) fun_eq_iff)
  have c2: "tlb_coherent s2" using co tlb_coherent_map [OF tk(1) _ map] by (simp add: pmm_update_paging)
  have vs: "virt_store r v 0x1234ABCD s2 = done_with ?u"
    by (simp add: virt_store_def mmu_lookup_pte [OF c2] pt)
  have "v \<noteq> 0" using v(2) by auto
  then obtain str where t: "cmd_map r args s = done_with (says str ?u)"
    using al f map vs paging_translate_pte [OF inv, of v] un
    by (simp add: cmd_map_def v(1) [symmetric] kprint_says says_says hex_string_NUL and_then_def done_with_def)
  have st: "tables_step (s\<lparr>pmm := p\<rparr>) s2" by (rule paging_map_step [OF tk(1) map])
  have "frame_no f \<notin> table_frames s2"
    using st tk(2,3) by (auto simp: tables_step_def pmm_update_paging)
  moreover have "free_frames (pmm s2) \<subseteq> free_frames (pmm s) - {frame_no f}" "total_frames (pmm s2) = total_frames (pmm s)"
    using sp tk(2,6) by (auto simp: paging_frame_def)
  moreover have "tlb_coherent ?u" using c2 unfolding tlb_coherent_def hi(2) by simp
  ultimately show thesis using hi pt by (intro that [OF t]) simp_all
qed

lemma map_then_unmap:
  assumes inv: "paging_inv s" and co: "tlb_coherent s"
    and v: "v = atoi_hex args AND NOT (PAGE_SIZE - 1)" "2 ^ 24 \<le> unat v" and un: "pte s v = None"
    and al: "pmm_alloc_frame (pmm s) = (f, p)" and f: "f \<noteq> 0"
    and map: "paging_map v f PAGE_WRITE (s\<lparr>pmm := p\<rparr>) = (True, s2)"
  obtains t where "cmd_map r args s = done_with t" "paging_inv t" "tlb_coherent t"
    "frame_no f \<in> free_frames (pmm s) - free_frames (pmm t)"
    "page_of t = (\<lambda>w. if vpage w = vpage v then Some f else page_of s w)" "ld32 (mem t) v = 0x1234ABCD"
    "paging_inv (cmd_unmap args t)" "tlb_coherent (cmd_unmap args t)" "pte (cmd_unmap args t) = pte s"
    "free_frames (pmm (cmd_unmap args t)) = insert (frame_no f) (free_frames (pmm t))"
proof -
  note tk = frame_taken [OF inv al f]
  obtain t where t: "cmd_map r args s = done_with t" "paging_inv t" "tlb_coherent t" "ld32 (mem t) v = 0x1234ABCD"
    "pte t = (\<lambda>w. if vpage w = vpage v then Some (FRAME_OF f OR (PAGE_WRITE AND 0xFFF) OR PAGE_PRESENT) else pte s w)"
    "free_frames (pmm t) \<subseteq> free_frames (pmm s) - {frame_no f}" "total_frames (pmm t) = total_frames (pmm s)"
    "frame_no f \<notin> table_frames t"
    by (rule cmd_map_ok [OF inv co v un al f map])
  have fe: "FRAME_OF (FRAME_OF f OR (PAGE_WRITE AND 0xFFF) OR PAGE_PRESENT) = f"
    using FRAME_OF_pte [of f PAGE_WRITE] tk(7) by simp
  have "pte t v = Some (FRAME_OF f OR (PAGE_WRITE AND 0xFFF) OR PAGE_PRESENT)" by (simp add: t(5))
  note um = cmd_unmap_frame [OF t(2,3) this v, unfolded fe, OF t(8)]
  have "pte s w = None" if "vpage w = vpage v" for w using un pte_vpage [OF that, of s] by simp
  then have "(\<lambda>w. if vpage w = vpage v then None else pte t w) = pte s" by (auto simp: t(5))
  moreover have "page_of t = (\<lambda>w. if vpage w = vpage v then Some f else page_of s w)"
    by (simp add: fun_eq_iff page_of_def t(5) fe)
  moreover have "frame_no f \<notin> free_frames (pmm t)" using t(6) by blast
  ultimately show thesis using um tk(4,5) t(7) by (intro that [OF t(1-3) _ _ t(4)]) simp_all
qed

text \<open>
  C40: \<open>map\<close> and \<open>unmap\<close> on an unmapped page above the identity region. \<open>map\<close> either leaves all translations
  as they were and every frame it tried for free again, or it maps the page to one free frame, writes the test
  word there and reads it back; it succeeds whenever two frames are free below \<open>identity_end\<close>. A following \<open>unmap\<close> of the same address
  restores every translation and frees that frame. The paging invariant and the coherence of the
  translation cache hold after each command.
\<close>

theorem map_unmap_roundtrip:
  assumes inv: "paging_inv s" and co: "tlb_coherent s" and nz: "0 \<notin> free_frames (pmm s)"
    and v: "v = atoi_hex args AND NOT (PAGE_SIZE - 1)" "2 ^ 24 \<le> unat v" and un: "pte s v = None"
  shows "\<exists>t. cmd_map r args s = done_with t \<and> paging_inv t \<and> tlb_coherent t \<and>
    (pte t = pte s \<and> free_frames (pmm t) = free_frames (pmm s) \<and> card (low_free s) < 2 \<or>
     (\<exists>f. frame_no f \<in> free_frames (pmm s) - free_frames (pmm t) \<and>
        page_of t = (\<lambda>w. if vpage w = vpage v then Some f else page_of s w) \<and> ld32 (mem t) v = 0x1234ABCD \<and>
        paging_inv (cmd_unmap args t) \<and> tlb_coherent (cmd_unmap args t) \<and> pte (cmd_unmap args t) = pte s \<and>
        free_frames (pmm (cmd_unmap args t)) = insert (frame_no f) (free_frames (pmm t))))"
proof -
  have pinv: "pmm_inv (pmm s)" using inv by (simp add: paging_inv_def)
  have v0: "v \<noteq> 0" using v(2) by auto
  have tr: "paging_translate v s = PAGE_UNMAPPED" by (simp add: paging_translate_pte [OF inv] un)
  obtain f p where al: "pmm_alloc_frame (pmm s) = (f, p)" by fastforce
  show ?thesis
  proof (cases "f = 0")
    case True
    then have none: "free_frames (pmm s) = {}" using fa.alloc_zero_iff [OF pinv nz] al by simp
    then have "p = pmm s" using fa.alloc_none [OF pinv] al by simp
    then have "cmd_map r args s = done_with (says ''out of physical memory\<newline>'' s)"
      using v0 tr al True by (simp add: cmd_map_def v(1) [symmetric] kprint_says)
    with none inv co show ?thesis by (auto simp: low_free_def)
  next
    case False
    obtain ok s2 where map: "paging_map v f PAGE_WRITE (s\<lparr>pmm := p\<rparr>) = (ok, s2)" by fastforce
    show ?thesis
    proof (cases ok)
      case True
      with map have m: "paging_map v f PAGE_WRITE (s\<lparr>pmm := p\<rparr>) = (True, s2)" by simp
      obtain t where t: "cmd_map r args s = done_with t" "paging_inv t" "tlb_coherent t"
        "frame_no f \<in> free_frames (pmm s) - free_frames (pmm t)"
        "page_of t = (\<lambda>w. if vpage w = vpage v then Some f else page_of s w)" "ld32 (mem t) v = 0x1234ABCD"
        "paging_inv (cmd_unmap args t)" "tlb_coherent (cmd_unmap args t)" "pte (cmd_unmap args t) = pte s"
        "free_frames (pmm (cmd_unmap args t)) = insert (frame_no f) (free_frames (pmm t))"
        by (rule map_then_unmap [OF inv co v un al False m])
      show ?thesis by (intro exI [of _ t] conjI t(1-3) disjI2 exI [of _ f] t(4-10))
    next
      case fail: False
      with map have m: "paging_map v f PAGE_WRITE (s\<lparr>pmm := p\<rparr>) = (False, s2)" by simp
      obtain t where t: "cmd_map r args s = done_with t" "paging_inv t" "tlb_coherent t" "pte t = pte s"
        "free_frames (pmm t) = free_frames (pmm s)" "card (low_free s) < 2"
        by (rule cmd_map_fail [OF inv co nz v(1) v0 un al False m])
      show ?thesis by (intro exI [of _ t] conjI t(1-3) disjI1 t(4-6))
    qed
  qed
qed

theorem map_unmap_roundtrip_witness:
  "\<exists>t. cmd_map (demo_regs 0) ''0xD0000000'' demo_paged = done_with t \<and> ld32 (mem t) 0xD0000000 = 0x1234ABCD \<and>
     page_of t 0xD0000123 \<noteq> None \<and> pte (cmd_unmap ''0xD0000000'' t) = pte demo_paged"
proof -
  have v: "0xD0000000 = atoi_hex ''0xD0000000'' AND NOT (PAGE_SIZE - 1)" by code_simp
  have i: "paging_inv demo_paged" "tlb_coherent demo_paged" "0 \<notin> free_frames (pmm demo_paged)"
    "3834 \<le> card (low_free demo_paged)"
    unfolding demo_paged_def by (rule demo_on)+
  have w: "2 ^ 24 \<le> unat (0xD0000000 :: u32)" "vpage 0xD0000123 = vpage 0xD0000000" by (simp_all add: vpage_def)
  obtain t where t: "cmd_map (demo_regs 0) ''0xD0000000'' demo_paged = done_with t"
    and c: "pte t = pte demo_paged \<and> free_frames (pmm t) = free_frames (pmm demo_paged) \<and> card (low_free demo_paged) < 2 \<or>
     (\<exists>f. frame_no f \<in> free_frames (pmm demo_paged) - free_frames (pmm t) \<and>
        page_of t = (\<lambda>w. if vpage w = vpage 0xD0000000 then Some f else page_of demo_paged w) \<and>
        ld32 (mem t) 0xD0000000 = 0x1234ABCD \<and> paging_inv (cmd_unmap ''0xD0000000'' t) \<and>
        tlb_coherent (cmd_unmap ''0xD0000000'' t) \<and> pte (cmd_unmap ''0xD0000000'' t) = pte demo_paged \<and>
        free_frames (pmm (cmd_unmap ''0xD0000000'' t)) = insert (frame_no f) (free_frames (pmm t)))"
    using map_unmap_roundtrip [OF i(1-3) v w(1) demo_paged_unmapped, of "demo_regs 0"] by auto
  from i(4) have "\<not> card (low_free demo_paged) < 2" by simp
  with c w(2) show ?thesis by (intro exI [of _ t] conjI t) auto
qed

end
