(* ===== verification/Boot.thy ===== *)
theory Boot
  imports Command_Claims
begin

text \<open>
  Booting. The lemmas follow \<open>kernel_main\<close> from the memory map to the first prompt; each speaks of one group of
  its steps. The property at the end says that \<open>kernel_main\<close> establishes every invariant the other
  theories assume.
\<close>

section \<open>What printing leaves alone\<close>

lemma con_paging [simp]:
  "paging_inv (s\<lparr>con := c\<rparr>) = paging_inv s" "low_free (s\<lparr>con := c\<rparr>) = low_free s" "pool (s\<lparr>con := c\<rparr>) = pool s"
  by (simp_all add: paging_inv_def table_ok_def table_set_def dirent_def mapped_set_def pte_def
      table_entry_def table_frames_def low_free_def pool_def)

lemma con_heap [simp]:
  "heap_inv (s\<lparr>con := c\<rparr>) bs = heap_inv s bs" "can_grow n (s\<lparr>con := c\<rparr>) = can_grow n s"
  by (simp_all add: heap_inv_def paging_inv_def table_ok_def table_set_def dirent_def mapped_set_def pte_def
      table_entry_def table_frames_def backed_def page_of_def can_grow_def low_free_def)

lemma prints_only_kout: "prints_only s t \<Longrightarrow> prints_only s (kout p d t)"
  by (force simp: prints_only_def kout_def outb_def vga_inv_def)

lemma prints_only_devices: "prints_only s (pic_remap s)" "prints_only s (timer_init s)"
  by (simp_all add: pic_remap_def timer_init_def Let_def prints_only_kout)

lemma serial_init_vga: "vga (serial_init c) = vga c" "stray (serial_init c) = stray c"
  by (simp_all add: serial_init_def Let_def outb_def inb_def split: prod.split)

section \<open>Paging stays on\<close>

lemma paging_map_enabled:
  assumes "paging_map v p fl s = (ok, t)"
  shows "paging_enabled (paging t) = paging_enabled (paging s)"
proof -
  have g: "paging_enabled (paging u) = paging_enabled (paging s)" if "get_table v True s = (tb, u)" for tb u
    using that by (auto simp: get_table_def Let_def split: if_splits prod.splits)
  obtain tb u where gt: "get_table v True s = (tb, u)" by fastforce
  with assms g [OF gt] show ?thesis
    by (auto simp: paging_map_def flush_tlb_page_def Let_def split: if_splits)
qed

lemma grow_pages_enabled:
  "grow_pages offs s = (ok, t) \<Longrightarrow> paging_enabled (paging t) = paging_enabled (paging s)"
proof (induction offs arbitrary: s)
  case (Cons x offs)
  then show ?case by (auto simp: Let_def split: prod.splits if_splits dest!: paging_map_enabled)
qed simp

lemma heap_init_enabled: "paging_enabled (paging (heap_init s)) = paging_enabled (paging s)"
  by (auto simp: heap_init_def grow_mapping_def kprint_defs Let_def split: prod.split if_splits
      dest!: grow_pages_enabled)

section \<open>Paging and the heap\<close>

lemma boot_memory:
  fixes s :: "'a heap_layer_scheme"
  defines "t \<equiv> report_heap (heap_init (report_paging (paging_init s)))"
  assumes pmm: "pmm_inv (pmm s)" "0 \<notin> free_frames (pmm s)"
    and init: "table_count (paging s) = 0" "mapped_pages (paging s) = 0"
    and enough: "22 \<le> card {f \<in> free_frames (pmm s). f * 4096 < unat (identity_limit (mem_highest_addr s))}"
  shows "heap_inv t [(HEAP_START, 0xFFF0, True)]" "paging_enabled (paging t)" "pool t \<subseteq> free_frames (pmm s)"
    "heap_layer.more t = heap_layer.more s" "mmap t = mmap s" "vga_inv (con s) \<Longrightarrow> vga_inv (con t)"
proof -
  have e5: "5 \<le> card {f \<in> free_frames (pmm s). f * 4096 < unat (identity_limit (mem_highest_addr s))}"
    using enough by simp
  note pi = paging_init_correct [OF pmm init e5] and pool = paging_init_pool(1) [OF pmm init e5]
  obtain c where c: "report_paging (paging_init s) = (paging_init s)\<lparr>con := c\<rparr>" "vga_inv (con s) \<Longrightarrow> vga_inv c"
    using prints_onlyE [OF report_prints(3)] pi(9) by metis
  let ?p = "(paging_init s)\<lparr>con := c\<rparr>"
  have low: "17 \<le> card (low_free (paging_init s))" using pi(7) enough by simp
  have "card (low_free (paging_init s)) \<le> card (free_frames (pmm (paging_init s)))"
    by (rule card_mono) (auto simp: low_free_def)
  with low have "can_grow 16 (paging_init s)" by (simp add: can_grow_def)
  then have "paging_inv ?p" "0 \<notin> free_frames (pmm ?p)" "can_grow 16 ?p" using pi(1,8) by simp_all
  note hi = heap_init_spec [OF this]
  obtain d where d: "t = (heap_init ?p)\<lparr>con := d\<rparr>" "vga_inv c \<Longrightarrow> vga_inv d"
    unfolding t_def c(1) using prints_onlyE [OF report_prints(4)] hi(3) by (metis (no_types, lifting) machine.select_convs(2) machine.surjective machine.update_convs(2))
  show "heap_inv t [(HEAP_START, 0xFFF0, True)]" using hi(1) by (simp add: d(1))
  show "paging_enabled (paging t)" using pi(2) by (simp add: d(1) heap_init_enabled)
  show "pool t \<subseteq> free_frames (pmm s)" using hi(8) pool by (auto simp: d(1) pool_kept_def)
  have "heap_layer.more (paging_init s) = heap_layer.more s"
    using pi(11) by (cases "paging_init s"; cases s) simp
  then show "heap_layer.more t = heap_layer.more s" using hi(5) by (simp add: d(1))
  show "mmap t = mmap s" using hi(4) pi(10) by (simp add: d(1))
  show "vga_inv (con s) \<Longrightarrow> vga_inv (con t)" using c(2) d by simp
qed

section \<open>Interrupts and the scheduler\<close>

lemma scheduler_init_only: "\<exists>sc. scheduler_init s = s\<lparr>sched := sc\<rparr>"
  by (simp add: scheduler_init_def on_sched_def) blast

lemma isr_task_inv [simp]:
  fixes s :: "'a isr_layer_scheme"
  shows "heap_inv (s\<lparr>idt := g\<rparr>) bs = heap_inv s bs" "heap_inv (s\<lparr>idtp := d\<rparr>) bs = heap_inv s bs"
    "heap_inv (s\<lparr>idtr := d\<rparr>) bs = heap_inv s bs"
    "pool (s\<lparr>idt := g\<rparr>) = pool s" "pool (s\<lparr>idtp := d\<rparr>) = pool s" "pool (s\<lparr>idtr := d\<rparr>) = pool s"
  by (simp_all add: heap_inv_def paging_inv_def table_ok_def table_set_def dirent_def mapped_set_def pte_def
      table_entry_def table_frames_def backed_def page_of_def pool_def)

lemma boot_interrupts:
  fixes s :: "'a shell_layer_scheme" and isr_stub irq_stub :: "nat \<Rightarrow> u32" and idt_addr :: u32
  defines "t \<equiv> shell_init (report_online (interrupts_on (report_scheduler (timer_init (scheduler_init
    (isr_install isr_stub irq_stub (idt_install idt_addr s)))))))"
  assumes h: "heap_inv s bs" and B: "boot_stack_ok B s" and sc: "sched s = sched_boot" and l: "length (idt s) = 256"
  shows "task_inv B bs t" "enabled (sched t) = 1" "cpu t = (cpu s)\<lparr>eflags := eflags (cpu s) OR 0x200\<rparr>"
    "\<forall>v < 256. idt t ! v = (if v < 32 then gate (isr_stub v) else if v < 48 then gate (irq_stub (v - 32)) else zero_gate)"
    "vga_inv (con s) \<Longrightarrow> vga_inv (con t)" "ring t = ring s" "ring_head t = ring_head s" "ring_tail t = ring_tail s"
    "line_buf t = line_buf s" "line_len t = line_len s" "ticks t = ticks s" "paging t = paging s" "current (sched t) = 0"
proof -
  define d where "d = \<lparr>limit = 2047, idt_base = idt_addr\<rparr>"
  define i where "i = idt_install idt_addr s"
  have i: "i = s\<lparr>idt := replicate 256 zero_gate, idtp := d, idtr := d\<rparr>"
    unfolding i_def d_def by (rule idt_install_spec [OF l])
  obtain g where g: "isr_install isr_stub irq_stub i = (pic_remap i)\<lparr>idt := g\<rparr>"
      "\<forall>v < 256. g ! v = (if v < 32 then gate (isr_stub v) else if v < 48 then gate (irq_stub (v - 32)) else zero_gate)"
    using isr_install_spec [of i isr_stub irq_stub] by (auto simp: i)
  obtain c where c: "pic_remap i = i\<lparr>con := c\<rparr>" "vga_inv (con i) \<Longrightarrow> vga_inv c"
    using prints_onlyE [OF prints_only_devices(1)] by blast
  define w where "w = (i\<lparr>con := c\<rparr>)\<lparr>idt := g\<rparr>"
  have hw: "heap_inv w bs" "boot_stack_ok B w" "sched w = sched_boot"
    using h B sc by (simp_all add: w_def i boot_stack_ok_def)
  note si = scheduler_init_inv [OF hw]
  obtain sc' where sch: "scheduler_init w = w\<lparr>sched := sc'\<rparr>" using scheduler_init_only by blast
  have "prints_only (scheduler_init w) (report_scheduler (timer_init (scheduler_init w)))"
    by (rule prints_only_trans [OF prints_only_devices(2) report_prints(5)])
  then obtain e where e: "report_scheduler (timer_init (scheduler_init w)) = (scheduler_init w)\<lparr>con := e\<rparr>"
    "vga_inv (con (scheduler_init w)) \<Longrightarrow> vga_inv e"
    by (rule prints_onlyE) blast
  let ?x = "interrupts_on ((scheduler_init w)\<lparr>con := e\<rparr>)"
  have "prints_only ?x (shell_init (report_online ?x))"
    by (rule prints_only_trans [OF report_prints(6,7)])
  then obtain f where f: "shell_init (report_online ?x) = ?x\<lparr>con := f\<rparr>" "vga_inv (con ?x) \<Longrightarrow> vga_inv f"
    by (rule prints_onlyE) blast
  have t: "t = (interrupts_on ((scheduler_init w)\<lparr>con := e\<rparr>))\<lparr>con := f\<rparr>"
    unfolding t_def i_def [symmetric] g(1) c(1) w_def [symmetric] e(1) f(1) ..
  have up: "task_inv B bs (u\<lparr>cpu := k\<rparr>) = task_inv B bs u" for u :: "'a shell_layer_scheme" and k
    by (simp add: task_inv_def boot_stack_ok_def)
  show "task_inv B bs t" using si(1) by (simp add: t interrupts_on_def up)
  show "enabled (sched t) = 1" using si(6) by (simp add: t interrupts_on_def)
  show "cpu t = (cpu s)\<lparr>eflags := eflags (cpu s) OR 0x200\<rparr>" using si(4) by (simp add: t interrupts_on_def w_def i)
  show "current (sched t) = 0" using si(2) by (simp add: t interrupts_on_def)
  show "\<forall>v < 256. idt t ! v = (if v < 32 then gate (isr_stub v) else if v < 48 then gate (irq_stub (v - 32)) else zero_gate)"
  proof -
    have "idt (scheduler_init w) = g" unfolding sch by (simp add: w_def)
    with g(2) show ?thesis by (simp add: t interrupts_on_def)
  qed
  show "vga_inv (con s) \<Longrightarrow> vga_inv (con t)"
  proof -
    assume "vga_inv (con s)"
    then have "vga_inv c" using c(2) by (simp add: i)
    moreover have "con (scheduler_init w) = c" unfolding sch by (simp add: w_def)
    ultimately show ?thesis using e(2) f(2) by (simp add: t interrupts_on_def)
  qed
  show "ring t = ring s" "ring_head t = ring_head s" "ring_tail t = ring_tail s" "line_buf t = line_buf s"
    "line_len t = line_len s" "ticks t = ticks s" "paging t = paging s"
    unfolding t interrupts_on_def sch by (simp_all add: w_def i)
qed

section \<open>kernel_main\<close>

text \<open>The C statics before the first instruction of \<open>kernel_main\<close>: the ones without initializer are zero.\<close>

definition statics_zero :: "'a shell_layer_scheme \<Rightarrow> bool" where
  "statics_zero s \<longleftrightarrow>
     length (vga (con s)) = 2000 \<and> stray (con s) = [] \<and> mmap s = no_map \<and> table_count (paging s) = 0 \<and> mapped_pages (paging s) = 0 \<and>
     sched s = sched_boot \<and> ticks s = 0 \<and> ring s = replicate 256 NUL \<and> ring_head s = 0 \<and> ring_tail s = 0 \<and>
     length (idt s) = 256 \<and> line_buf s = replicate 128 NUL \<and> line_len s = 0"

lemma kernel_main_sound:
  fixes s :: "'a shell_layer_scheme"
  assumes "statics_zero s" and "mbi_flags (mem s) mbi AND push_bit 6 1 \<noteq> 0"
    and "entry_list (mem s) (mbi_mmap_addr (mem s) mbi) (mbi_mmap_addr (mem s) mbi + mbi_mmap_length (mem s) mbi) es"
    and "22 \<le> card {f \<in> free_frames (pmm_init kernel_end (add_entries es no_map)).
           f * 4096 < unat (identity_limit (highest (add_entries es no_map)))}"
    and "B \<subseteq> {..<0xC0000000}"
    and "\<forall>x. unat x \<in> B \<longrightarrow> frame_no x \<notin> free_frames (pmm_init kernel_end (add_entries es no_map))"
  shows "(\<exists>t. kernel_main kernel_end idt_addr isr_stub irq_stub MULTIBOOT_MAGIC mbi s = done_with t \<and>
      task_inv B [(HEAP_START, 0xFFF0, True)] t \<and> paging_enabled (paging t) \<and> enabled (sched t) = 1 \<and>
      (\<forall>v < 48. gate_target (idt t ! v) = (if v < 32 then isr_stub v else irq_stub (v - 32))) \<and>
      ring_ok t \<and> ring_items t = [] \<and> line_ok t \<and> typed t = [] \<and> ticks t = 0 \<and> vga_inv (con t) \<and>
      bit (eflags (cpu t)) 9 \<and> current (sched t) = 0 \<and> cpu t = (cpu s)\<lparr>eflags := eflags (cpu s) OR 0x200\<rparr>) \<and>
    (magic \<noteq> MULTIBOOT_MAGIC \<longrightarrow>
      (\<exists>t. kernel_main kernel_end idt_addr isr_stub irq_stub magic mbi s = Some (Stopped t)))"
proof (rule conjI)
  show "magic \<noteq> MULTIBOOT_MAGIC \<longrightarrow>
      (\<exists>t. kernel_main kernel_end idt_addr isr_stub irq_stub magic mbi s = Some (Stopped t))"
    by (simp add: kernel_main_def Let_def)
  note z = assms(1) [unfolded statics_zero_def]
  define mm where "mm = add_entries es no_map"
  define c0 where "c0 = print ''JarvisOS 1.0.0 booting...\<newline>'' (clear_screen (serial_init (con s)))"
  have v0: "vga_inv c0"
    unfolding c0_def using z by (intro vga_inv_print vga_inv_clear) (simp_all add: serial_init_vga)
  have mi: "memory_init mbi (s\<lparr>con := c0\<rparr>) = Some (s\<lparr>con := c0, mmap := mm\<rparr>)"
    using assms(2) memory_init_loop_fold [OF assms(3)] z by (simp add: memory_init_def mm_def)
  obtain c1 where c1: "report_memory (s\<lparr>con := c0, mmap := mm\<rparr>) = s\<lparr>con := c0, mmap := mm\<rparr>\<lparr>con := c1\<rparr>" "vga_inv c1"
    using prints_onlyE [OF report_prints(1) [of "s\<lparr>con := c0, mmap := mm\<rparr>"]] v0 by auto
  let ?P = "pmm_init kernel_end mm" and ?s1 = "s\<lparr>con := c0, mmap := mm\<rparr>\<lparr>con := c1\<rparr>"
  obtain c2 where c2: "report_frames (?s1\<lparr>pmm := ?P\<rparr>) = ?s1\<lparr>pmm := ?P\<rparr>\<lparr>con := c2\<rparr>" "vga_inv c2"
    using prints_onlyE [OF report_prints(2) [of "?s1\<lparr>pmm := ?P\<rparr>"]] c1(2) by auto
  define s2 where "s2 = ?s1\<lparr>pmm := ?P\<rparr>\<lparr>con := c2\<rparr>"
  define s4 where "s4 = report_heap (heap_init (report_paging (paging_init s2)))"
  define t where "t = shell_init (report_online (interrupts_on (report_scheduler (timer_init (scheduler_init
    (isr_install isr_stub irq_stub (idt_install idt_addr s4)))))))"
  have run: "kernel_main kernel_end idt_addr isr_stub irq_stub MULTIBOOT_MAGIC mbi s = done_with t"
    using mi c1(1) c2(1)
    by (simp add: kernel_main_def Let_def kprint_defs c0_def [symmetric] s2_def s4_def t_def del: print.simps)
  show "\<exists>t. kernel_main kernel_end idt_addr isr_stub irq_stub MULTIBOOT_MAGIC mbi s = done_with t \<and>
      task_inv B [(HEAP_START, 0xFFF0, True)] t \<and> paging_enabled (paging t) \<and> enabled (sched t) = 1 \<and>
      (\<forall>v < 48. gate_target (idt t ! v) = (if v < 32 then isr_stub v else irq_stub (v - 32))) \<and>
      ring_ok t \<and> ring_items t = [] \<and> line_ok t \<and> typed t = [] \<and> ticks t = 0 \<and> vga_inv (con t) \<and>
      bit (eflags (cpu t)) 9 \<and> current (sched t) = 0 \<and> cpu t = (cpu s)\<lparr>eflags := eflags (cpu s) OR 0x200\<rparr>"
  proof -
    have p: "pmm s2 = ?P" "mmap s2 = mm" "paging s2 = paging s" "con s2 = c2" by (simp_all add: s2_def)
    note ps = pmm_init_spec [of kernel_end mm]
    have m: "heap_inv s4 [(HEAP_START, 0xFFF0, True)]" "paging_enabled (paging s4)" "pool s4 \<subseteq> free_frames ?P"
      "heap_layer.more s4 = heap_layer.more s2" "vga_inv (con s4)"
      using boot_memory [of s2, folded s4_def] p ps z assms(4) c2(2) by (simp_all add: mem_highest_addr_def mm_def)
    have up: "sched s4 = sched s" "idt s4 = idt s" "ring s4 = ring s" "ring_head s4 = ring_head s"
      "ring_tail s4 = ring_tail s" "line_buf s4 = line_buf s" "line_len s4 = line_len s" "ticks s4 = ticks s" "cpu s4 = cpu s"
      using m(4) by (cases s4; cases s; simp add: s2_def)+
    have B: "boot_stack_ok B s4" using assms(5,6) m(3) unfolding boot_stack_ok_def mm_def by blast
    have st: "sched s4 = sched_boot" "length (idt s4) = 256" using up z by simp_all
    note bi = boot_interrupts [OF m(1) B st, of isr_stub irq_stub idt_addr, folded t_def]
    have "gate_target (idt t ! v) = (if v < 32 then isr_stub v else irq_stub (v - 32))" if "v < 48" for v
      using bi(4) that by simp
    moreover have "bit (eflags (cpu t)) 9" by (simp add: bi(3) bit_simps)
    moreover have "ring_ok t" "ring_items t = []" "line_ok t" "typed t = []" "ticks t = 0"
      using bi up z by (simp_all add: ring_ok_def ring_items_def ring_count_def RING_SIZE_def line_ok_def typed_def)
    moreover have "cpu t = (cpu s)\<lparr>eflags := eflags (cpu s) OR 0x200\<rparr>" using bi(3) up by simp
    ultimately show ?thesis using run bi(1,2,5,12,13) m(2,5) by (intro exI [of _ t]) simp
  qed
qed

text \<open>
  C2: booting. Let a Multiboot loader have left a well-formed memory map that gives the frame
  allocator at least 22 free frames below \<open>identity_end\<close> (the page directory, four tables for the identity map, one
  for the heap and its 16 pages), with the boot stack in none of the free frames. Then
  \<open>kernel_main\<close> reaches its endless loop: paging is on, the heap is one free block of 64 KB, every
  invariant of the heap, the paging structures and the task table holds, all interrupt gates lead to their stubs,
  the input queue and the command line are empty, the cursor is on the screen and interrupts are
  enabled. With any other magic number it stops.
\<close>

theorem kernel_main_boots:
  fixes s :: "'a shell_layer_scheme"
  assumes "statics_zero s" and "mbi_flags (mem s) mbi AND push_bit 6 1 \<noteq> 0"
    and "entry_list (mem s) (mbi_mmap_addr (mem s) mbi) (mbi_mmap_addr (mem s) mbi + mbi_mmap_length (mem s) mbi) es"
    and "22 \<le> card {f \<in> free_frames (pmm_init kernel_end (add_entries es no_map)).
           f * 4096 < unat (identity_limit (highest (add_entries es no_map)))}"
    and "B \<subseteq> {..<0xC0000000}"
    and "\<forall>x. unat x \<in> B \<longrightarrow> frame_no x \<notin> free_frames (pmm_init kernel_end (add_entries es no_map))"
  shows "(\<exists>t. kernel_main kernel_end idt_addr isr_stub irq_stub MULTIBOOT_MAGIC mbi s = done_with t \<and>
      task_inv B [(HEAP_START, 0xFFF0, True)] t \<and> paging_enabled (paging t) \<and> enabled (sched t) = 1 \<and>
      (\<forall>v < 48. gate_target (idt t ! v) = (if v < 32 then isr_stub v else irq_stub (v - 32))) \<and>
      ring_ok t \<and> ring_items t = [] \<and> line_ok t \<and> typed t = [] \<and> ticks t = 0 \<and> vga_inv (con t) \<and>
      bit (eflags (cpu t)) 9) \<and>
    (magic \<noteq> MULTIBOOT_MAGIC \<longrightarrow>
      (\<exists>t. kernel_main kernel_end idt_addr isr_stub irq_stub magic mbi s = Some (Stopped t)))"
  using kernel_main_sound [OF assms, of idt_addr isr_stub irq_stub magic] by blast

text \<open>A machine as the loader leaves it: the memory map of \<open>demo_mbi\<close>, all statics zero.\<close>

definition demo_reset :: shell_layer where
  "demo_reset = (demo_off \<lparr>heap = \<lparr>head = 0, brk = 0, heap_ready = False\<rparr>, sched = sched_boot, cpu = demo_cpu,
     ticks = 0, ring = replicate 256 NUL, ring_head = 0, ring_tail = 0, shift_down = False,
     idt = replicate 256 zero_gate, idtp = \<lparr>limit = 0, idt_base = 0\<rparr>, idtr = \<lparr>limit = 0, idt_base = 0\<rparr>,
     line_buf = replicate 128 NUL, line_len = 0\<rparr>)\<lparr>mem := demo_mbi, mmap := no_map\<rparr>"

lemma demo_boot_frames:
  "free_frames (pmm_init 0x200000 (add_entries [(0, 0x9F000, 1), (0x100000, 0xF00000, 1)] no_map)) = {513..<4096}"
    (is "free_frames (pmm_init _ ?mm) = _")
proof -
  have mm: "highest ?mm = 0x1000000" "regions ?mm = [\<lparr>base = 0, len = 0x9F000, rtype = 1\<rparr>, \<lparr>base = 0x100000, len = 0xF00000, rtype = 1\<rparr>]"
    by (simp_all add: add_entry_def no_map_def MAX_REGIONS_def)
  have l: "last_reserved 0x200000 ?mm = 512" "frame_no (highest ?mm) = 4096"
    unfolding last_reserved_def mm(1) by (simp_all add: FRAME_SIZE_def frame_no_def)
  have r: "(\<exists>r \<in> set (regions ?mm). f \<in> region_frames r) \<longleftrightarrow> f < 159 \<or> 256 \<le> f \<and> f < 4096" for f
    unfolding mm(2) by (simp add: region_frames_def)
  have "f < 4096 \<and> (f < 159 \<or> 256 \<le> f \<and> f < 4096) \<and> 512 < f \<longleftrightarrow> 513 \<le> f \<and> f < 4096" for f :: nat
    by linarith
  with pmm_init_spec [of "0x200000" ?mm] show ?thesis
    by (simp only: l r) (simp add: set_eq_iff)
qed

theorem kernel_main_boots_witness:
  "\<exists>t. kernel_main 0x200000 0x180000 (\<lambda>n. 0x110000 + of_nat n) (\<lambda>n. 0x120000 + of_nat n) MULTIBOOT_MAGIC 0x1000 demo_reset =
      done_with t \<and> paging_enabled (paging t) \<and> gate_target (idt t ! 32) = 0x120000"
proof -
  let ?es = "[(0, 0x9F000, 1), (0x100000, 0xF00000, 1)] :: (u32 \<times> u32 \<times> u32) list"
  have z: "statics_zero demo_reset"
    by (simp add: statics_zero_def demo_reset_def demo_off_def demo_con_def)
  have m: "mbi_flags (mem demo_reset) 0x1000 AND push_bit 6 1 \<noteq> 0"
    "entry_list (mem demo_reset) (mbi_mmap_addr (mem demo_reset) 0x1000)
       (mbi_mmap_addr (mem demo_reset) 0x1000 + mbi_mmap_length (mem demo_reset) 0x1000) ?es"
    using demo_mbi by (simp_all add: demo_reset_def)
  have hi: "identity_limit (highest (add_entries ?es no_map)) = 0x1000000"
    by (simp add: add_entry_def no_map_def identity_limit_def IDENTITY_BYTES_def MAX_REGIONS_def)
  have "{f \<in> {513..<4096}. f * 4096 < (0x1000000 :: nat)} = {513..<4096}" by auto
  then have n: "22 \<le> card {f \<in> free_frames (pmm_init 0x200000 (add_entries ?es no_map)).
      f * 4096 < unat (identity_limit (highest (add_entries ?es no_map)))}"
    unfolding demo_boot_frames hi by simp
  have B: "demo_stack \<subseteq> {..<0xC0000000}"
    "\<forall>x. unat x \<in> demo_stack \<longrightarrow> frame_no x \<notin> free_frames (pmm_init 0x200000 (add_entries ?es no_map))"
    unfolding demo_boot_frames by (auto simp: demo_stack_def frame_no_def)
  show ?thesis
    using kernel_main_boots [OF z m n B, of "0x180000" "\<lambda>n. 0x110000 + of_nat n" "\<lambda>n. 0x120000 + of_nat n" 0]
    by fastforce
qed

end
