(* ===== verification/Shell_Safety.thy ===== *)
theory Shell_Safety
  imports Boot
begin

text \<open>
  What a command can do to a sound kernel. \<open>kernel_ok\<close> is the invariant of all layers at once: the
  task table with its stacks, the heap, the page tables and the frame allocator, and the cursor on the
  screen. Every command is shown to return to it, but for the few that let the user name memory to be given
  back or wait for interrupts; those are in \<open>Shell_Release\<close>, with the property of the whole shell.
\<close>

section \<open>The invariant\<close>

definition kernel_ok :: "nat set \<Rightarrow> 'a task_layer_scheme \<Rightarrow> bool" where
  "kernel_ok B s \<longleftrightarrow> (\<exists>bs. task_inv B bs s) \<and> vga_inv (con s)"

definition command_ok :: "nat set \<Rightarrow> 'a task_layer_scheme outcome \<Rightarrow> bool" where
  "command_ok B out \<longleftrightarrow> (\<exists>t. out = Some (Running t) \<and> kernel_ok B t)"

lemma kernel_ok_prints: "kernel_ok B s \<Longrightarrow> prints_only s t \<Longrightarrow> kernel_ok B t"
  unfolding kernel_ok_def by (erule prints_onlyE) auto

lemma kernel_ok_kprint [simp, intro]:
  "kernel_ok B s \<Longrightarrow> kernel_ok B (kprint str s)" "kernel_ok B s \<Longrightarrow> kernel_ok B (kprint_int n s)"
  "kernel_ok B s \<Longrightarrow> kernel_ok B (kprint_hex n s)"
  by (erule kernel_ok_prints, simp add: prints_only_kprint)+

lemma command_ok_done [simp]: "command_ok B (done_with t) \<longleftrightarrow> kernel_ok B t"
  by (simp add: command_ok_def done_with_def)

lemma command_ok_Running [simp]: "command_ok B (map_option Running (Some t)) \<longleftrightarrow> kernel_ok B t"
  by (simp add: command_ok_def)

section \<open>Commands that only print\<close>

lemma ps_line_prints: "prints_only s (ps_line i s)"
proof -
  have sp: "prints_only s t \<Longrightarrow> prints_only s ((kprint '' '' ^^ n) t)" for s t :: "'a task_layer_scheme" and n
    by (induction n) (simp_all add: prints_only_kprint)
  show ?thesis
    by (cases "task_get (int i) s") (simp_all add: ps_line_def Let_def sp prints_only_kprint)
qed

lemma region_prints: "prints_only s (memory_print_region r s)"
  by (simp add: memory_print_region_def Let_def prints_only_kprint)

lemma printing_commands:
  "prints_only s (cmd_help args s)" "prints_only s (cmd_about args s)" "prints_only s (cmd_version args s)"
  "prints_only s (cmd_echo args s)" "prints_only s (cmd_banner args s)" "prints_only s (cmd_serial args s)"
  "prints_only p (cmd_meminfo args p)" "prints_only p (cmd_frames args p)" "prints_only m (cmd_memmap args m)"
  "prints_only q (cmd_paging args q)" "prints_only q (cmd_virt args q)" "prints_only u (cmd_uptime args u)"
  "prints_only t (cmd_ps args t)"
          apply (simp_all add: cmd_help_def cmd_about_def cmd_version_def cmd_echo_def cmd_banner_def cmd_serial_def
      cmd_meminfo_def cmd_frames_def cmd_paging_def cmd_virt_def cmd_uptime_def prints_def Let_def prints_only_kprint)
   apply (simp add: cmd_memmap_def memory_print_map_def prints_only_foldl region_prints prints_only_kprint)
  apply (simp add: cmd_ps_def Let_def prints_only_foldl ps_line_prints prints_only_kprint)
  done

lemma calc_ok: "kernel_ok B s \<Longrightarrow> command_ok B (cmd_calc r args s) \<or> (\<exists>t. cmd_calc r args s = Some (Stopped t))"
  by (simp add: cmd_calc_def Let_def trap_def isr_handler_def)

lemma device_commands:
  "kernel_ok B s \<Longrightarrow> kernel_ok B (cmd_reboot args s)" "kernel_ok B s \<Longrightarrow> kernel_ok B (cmd_clear args s)"
proof -
  assume ok: "kernel_ok B s"
  show "kernel_ok B (cmd_reboot args s)"
    unfolding cmd_reboot_def by (rule kernel_ok_prints [OF ok]) (simp add: prints_only_kout prints_only_kprint)
  show "kernel_ok B (cmd_clear args s)"
    using ok vga_inv_clear by (auto simp: kernel_ok_def cmd_clear_def vga_inv_def)
qed

section \<open>The heap and the tasks\<close>

lemma heap_figures_con:
  "heap_used (s\<lparr>con := c\<rparr>) = heap_used s" "heap_free (s\<lparr>con := c\<rparr>) = heap_free s"
  "heap_blocks (s\<lparr>con := c\<rparr>) = heap_blocks s" "heap_free_blocks (s\<lparr>con := c\<rparr>) = heap_free_blocks s"
  by (simp_all add: heap_used_def heap_free_def heap_blocks_def heap_free_blocks_def heap_size_def cong: option.map_cong)

lemma heap_dump_prints: "prints_only s (heap_dump s)"
proof -
  have "prints_only s t \<Longrightarrow> prints_only s (snd (heap_dump_loop n b t))" for n b t
    by (induction n arbitrary: b t) (simp_all add: Let_def prints_only_kprint)
  then have "prints_only s (snd (heap_dump_loop 16 (head (heap s)) (kprint ''Heap blocks (address, payload, state):\<newline>'' s)))"
    by (simp add: prints_only_kprint)
  then show ?thesis
    by (cases "heap_dump_loop 16 (head (heap s)) (kprint ''Heap blocks (address, payload, state):\<newline>'' s)")
      (simp add: heap_dump_def Let_def prints_only_kprint)
qed

lemma cmd_heap_prints:
  assumes "heap_inv s bs"
  shows "\<exists>t. cmd_heap args s = Some t \<and> prints_only s t"
proof -
  have h: "chain (mem s) (head (heap s)) bs" using assms by (simp add: heap_inv_def)
  note nn = heap_inv_nonnull [OF assms]
  obtain a b c d where f: "heap_used s = Some a" "heap_free s = Some b" "heap_blocks s = Some c" "heap_free_blocks s = Some d"
    using heap_used_loop_chain [OF h nn, of 0] heap_blocks_loop_chain [OF h nn, of 0]
      heap_free_blocks_loop_chain [OF h nn, of 0]
    by (simp add: heap_used_def heap_free_def heap_blocks_def heap_free_blocks_def)
  define t where "t = kprint '' free\<newline>'' (kprint_int d (kprint '' total, '' (kprint_int c (kprint '' bytes\<newline>Blocks      : ''
    (kprint_int b (kprint '' bytes\<newline>Free        : '' (kprint_int a (kprint '')\<newline>Used        : '' (kprint_hex (heap_break s)
    (kprint '' KB (break at '' (kprint_int (heap_size s div 1024) (kprint ''\<newline>Mapped      : '' (kprint_hex HEAP_START
    (kprint ''Heap base   : '' s))))))))))))))"
  have "cmd_heap args s = Some (heap_dump t)"
    using f by (simp add: cmd_heap_def Let_def kprint_defs heap_figures_con t_def heap_break_def heap_size_def)
  moreover have "prints_only s t" by (simp add: t_def prints_only_kprint)
  ultimately show ?thesis using prints_only_trans [OF _ heap_dump_prints] by blast
qed

lemma task_inv_mem_block:
  assumes inv: "task_inv B bs s" and m: "\<And>x. unat x \<notin> used_bytes bs \<Longrightarrow> m x = mem s x"
  shows "task_inv B bs (s\<lparr>mem := m\<rparr>)"
proof -
  have h: "heap_inv s bs" and p: "paging_inv s" using inv by (simp_all add: task_inv_def heap_inv_def)
  have "unat x \<notin> used_bytes bs" if "frame_no x \<in> table_frames s" for x
    using table_frames_low [OF p that] heap_inv_bounds [OF h] tiled_used_bytes [of "0xC0000000" bs "unat (brk (heap s))"] by force
  then have "m x = mem s x" if "frame_no x \<in> table_frames s \<or> 0xC0000000 \<le> unat x \<and> unat x \<notin> used_bytes bs" for x
    using m that by blast
  note hc = heap_inv_client [OF h this]
  have "pool (s\<lparr>mem := m\<rparr>) = pool s" using hc(2) by (simp add: pool_def)
  with inv hc(1) show ?thesis by (simp add: task_inv_def boot_stack_ok_def)
qed

lemma nonneg_word:
  fixes w :: u32
  shows "0 < sint w \<Longrightarrow> unat w = nat (sint w)"
proof -
  assume "0 < sint w"
  moreover have "sint w < 2 ^ 31" using sint_less [of w] by simp
  ultimately have "uint w = sint w"
    by (simp add: uint_sint [of w] take_bit_int_eq_self)
  then show ?thesis by (simp add: unat_eq_nat_uint)
qed

lemma kmalloc_ok:
  assumes ok: "kernel_ok B s" and sz: "sint (atoi args) \<le> 0x3EFFFFF8"
  shows "\<exists>t. cmd_kmalloc args s = Some t \<and> kernel_ok B t"
proof (cases "sint (atoi args) \<le> 0")
  case True
  with ok show ?thesis by (simp add: cmd_kmalloc_def)
next
  case False
  obtain bs where inv: "task_inv B bs s" and v: "vga_inv (con s)" using ok by (auto simp: kernel_ok_def)
  have n: "atoi args \<noteq> 0" "unat (atoi args) \<le> 0x3EFFFFF8"
    using False sz nonneg_word [of "atoi args"] by auto
  obtain p t bs' where k: "kmalloc (atoi args) s = Some (p, t)" "task_inv B bs' t" "kept bs s t"
    "p \<noteq> 0 \<longrightarrow> fresh_block (align8 (atoi args)) p bs bs'"
    using kmalloc_task [OF inv n] by blast
  have t: "kernel_ok B t" using k(2,3) v by (auto simp: kernel_ok_def kept_def)
  show ?thesis
  proof (cases "p = 0")
    case True
    with k t False show ?thesis by (simp add: cmd_kmalloc_def)
  next
    case p: False
    then obtain k' where f: "align8 (atoi args) \<le> k'" "used_bytes bs' = {unat p ..< unat p + unat k'} \<union> used_bytes bs"
      "live bs' p = Some k'"
      using k(4) by (auto simp: fresh_block_def)
    have h: "heap_inv t bs'" using k(2) by (simp add: task_inv_def)
    have le: "unat (atoi args) \<le> unat k'"
      using f(1) align8_bounds(3) [OF n(2)] by (simp add: word_le_nat_alt)
    have top: "unat p + unat k' \<le> 2 ^ 32"
      using live_payload(3) [OF _ _ f(3)] heap_inv_bounds [OF h] by fastforce
    let ?m = "memset (mem t) p 0xAB (unat (atoi args))"
    have "?m x = mem t x" if "unat x \<notin> used_bytes bs'" for x
      using that f(2) le top by (intro memset_outside) auto
    then have "task_inv B bs' (t\<lparr>mem := ?m\<rparr>)" by (rule task_inv_mem_block [OF k(2)])
    then have "kernel_ok B (t\<lparr>mem := ?m\<rparr>)" using t by (auto simp: kernel_ok_def)
    then show ?thesis using k(1) p False by (simp add: cmd_kmalloc_def Let_def)
  qed
qed

lemma task_create_con:
  assumes inv: "task_inv B bs s" and c: "task_create ex nm en s = Some (i, t)"
  shows "con t = con s"
proof -
  have sz: "TASK_STACK_SIZE \<noteq> 0" "unat TASK_STACK_SIZE \<le> 0x3EFFFFF8" by (simp_all add: TASK_STACK_SIZE_def)
  obtain p u bs' where k: "kmalloc TASK_STACK_SIZE s = Some (p, u)" "kept bs s u"
    using kmalloc_task [OF inv sz] by blast
  then have "con u = con s" by (simp add: kept_def)
  with c k(1) show ?thesis
    by (auto simp: task_create_def on_sched_def Let_def split: option.splits if_splits prod.splits)
qed

lemma spawn_ok:
  assumes ok: "kernel_ok B s"
  shows "\<exists>t. cmd_spawn ex ct args s = Some t \<and> kernel_ok B t"
proof -
  obtain bs where inv: "task_inv B bs s" and v: "vga_inv (con s)" using ok by (auto simp: kernel_ok_def)
  define nm where "nm = (if chr0 args \<noteq> NUL then args else ''worker'')"
  obtain i t bs' where c: "task_create ex nm ct s = Some (i, t)" "task_inv B bs' t"
    using task_create_spec [OF inv, of ex nm ct] by blast
  have "con t = con s" using task_create_con [OF inv c(1)] .
  with c(2) v have t: "kernel_ok B t" by (auto simp: kernel_ok_def)
  show ?thesis
    using c(1) t by (simp add: cmd_spawn_def task_spawn_counter_def nm_def [symmetric] Let_def)
qed

lemma kill_ok:
  assumes ok: "kernel_ok B s"
  shows "kernel_ok B (cmd_kill args s)"
proof -
  obtain k t where k: "task_kill (atoi args) s = (k, t)" by fastforce
  have "con t = con s" using k by (auto simp: task_kill_def split: if_splits)
  then have "kernel_ok B t"
    using ok task_kill_inv(1) [of B _ s "atoi args"] k unfolding kernel_ok_def by auto
  then show ?thesis by (simp add: cmd_kill_def k Let_def)
qed

section \<open>Frames and pages\<close>

lemma task_inv_fewer_frames:
  assumes "task_inv B bs s" "pmm_inv p" "free_frames p \<subseteq> free_frames (pmm s)"
  shows "task_inv B bs (s\<lparr>pmm := p\<rparr>)"
proof -
  have h: "heap_inv s bs" and p: "paging_inv s" using assms(1) by (simp_all add: task_inv_def heap_inv_def)
  note up = pmm_update_paging [of p s]
  have "backed (s\<lparr>pmm := p\<rparr>) 0xC0000000 (unat (brk (heap s)))"
  proof (rule backed_step)
    show "backed s 0xC0000000 (unat (brk (heap s)))" using h by (simp add: heap_inv_def)
    show "page_of (s\<lparr>pmm := p\<rparr>) v = page_of s v" for v by (simp add: up(3))
    show "free_frames (pmm (s\<lparr>pmm := p\<rparr>)) \<subseteq> free_frames (pmm s)" using assms(3) by simp
    show "table_frames (s\<lparr>pmm := p\<rparr>) \<subseteq> table_frames s \<union> free_frames (pmm s)" by (simp add: up(4))
  qed
  moreover have "0 \<notin> free_frames p" using h assms(3) by (auto simp: heap_inv_def)
  ultimately have "heap_inv (s\<lparr>pmm := p\<rparr>) bs"
    using h paging_inv_pmm [OF p assms(2,3)] by (simp add: heap_inv_def)
  moreover have "pool (s\<lparr>pmm := p\<rparr>) \<subseteq> pool s" using assms(3) up(4) by (auto simp: pool_def)
  then have "boot_stack_ok B (s\<lparr>pmm := p\<rparr>)"
    using assms(1) boot_stack_mono by (auto simp: task_inv_def)
  ultimately show ?thesis using assms(1) by (simp add: task_inv_def)
qed

lemma alloc_ok:
  assumes ok: "kernel_ok B s"
  shows "kernel_ok B (cmd_alloc args s)"
proof -
  obtain a p where al: "pmm_alloc_frame (pmm s) = (a, p)" by fastforce
  obtain bs where inv: "task_inv B bs s" and v: "vga_inv (con s)" using ok by (auto simp: kernel_ok_def)
  then have "pmm_inv (pmm s)" by (simp add: task_inv_def heap_inv_def paging_inv_def)
  from task_inv_fewer_frames [OF inv pmm_alloc_inv(1,3) [OF this al]] v have "kernel_ok B (s\<lparr>pmm := p\<rparr>)"
    by (auto simp: kernel_ok_def)
  then show ?thesis by (simp add: cmd_alloc_def al Let_def)
qed

text \<open>Stores above the identity region and outside the mapped heap disturb no invariant.\<close>

lemma task_inv_store:
  assumes inv: "task_inv B bs s"
    and m: "\<And>x. unat x < 2 ^ 24 \<or> 0xC0000000 \<le> unat x \<and> unat x < unat (brk (heap s)) \<Longrightarrow> m x = mem s x"
  shows "task_inv B bs (s\<lparr>mem := m\<rparr>)"
proof -
  have h: "heap_inv s bs" and p: "paging_inv s" using inv by (simp_all add: task_inv_def heap_inv_def)
  have t: "tiled 0xC0000000 bs (unat (brk (heap s)))" "unat (brk (heap s)) \<le> 2 ^ 32"
    using heap_inv_bounds [OF h] by simp_all
  have lo: "m x = mem s x" if "unat x < 2 ^ 24" for x using m that by blast
  note hm = high_mem [OF p lo]
  have "chain m (head (heap s)) bs = chain (mem s) (head (heap s)) bs"
    using m by (intro chain_cong [OF t]) blast
  then have "heap_inv (s\<lparr>mem := m\<rparr>) bs" using h hm by (simp add: heap_inv_def)
  moreover have "pool (s\<lparr>mem := m\<rparr>) = pool s" using hm(4) by (simp add: pool_def)
  ultimately show ?thesis using inv by (simp add: task_inv_def boot_stack_ok_def)
qed

lemma store_word_ok:
  assumes inv: "task_inv B bs s" and v: "2 ^ 24 \<le> unat v" "unat v + 4 \<le> 2 ^ 32"
    and out: "unat v + 4 \<le> 0xC0000000 \<or> unat (brk (heap s)) \<le> unat v"
  shows "task_inv B bs (s\<lparr>mem := st32 (mem s) v w\<rparr>)"
  using v out by (intro task_inv_store [OF inv] st32_outside) auto

text \<open>Mapping an unmapped page is invisible to the heap and the tasks.\<close>

lemma task_inv_map:
  assumes inv: "task_inv B bs s" and un: "pte s v = None" and map: "paging_map v f fl s = (ok, t)"
  shows "task_inv B bs t" "heap t = heap s" "con t = con s"
proof -
  have h: "heap_inv s bs" and p: "paging_inv s" using inv by (simp_all add: task_inv_def heap_inv_def)
  note sp = paging_map_spec [OF p map] and st = paging_map_step [OF p map]
  have more: "paging_layer.more t = paging_layer.more s" using sp by (simp add: paging_frame_def)
  then show hp: "heap t = heap s" by (cases s; cases t) simp
  show "con t = con s" using sp by (simp add: paging_frame_def)
  have sc: "sched t = sched s" using more by (cases s; cases t) simp
  have ff: "free_frames (pmm t) \<subseteq> free_frames (pmm s)" using sp by (simp add: paging_frame_def)
  have tf: "table_frames t \<subseteq> table_frames s \<union> free_frames (pmm s)" using st by (simp add: tables_step_def)
  have b: "backed s 0xC0000000 (unat (brk (heap s)))" using h by (simp add: heap_inv_def)
  have "backed t 0xC0000000 (unat (brk (heap s)))"
  proof (rule backed_step [OF b _ ff tf])
    fix x :: u32 assume "0xC0000000 \<le> unat x" "unat x < unat (brk (heap s))"
    then have "page_of s x \<noteq> None" using b by (auto simp: backed_def)
    moreover have "page_of s v = None" using un by (simp add: page_of_def)
    ultimately have "vpage x \<noteq> vpage v" using pm.target_vpage [of x v s] by auto
    with sp show "page_of t x = page_of s x" by (cases ok) (simp_all add: page_of_def)
  qed
  moreover have "chain (mem t) (head (heap s)) bs"
  proof -
    have "unat (identity_end (paging s)) \<le> 2 ^ 24" using p by (simp add: paging_inv_def)
    then have "mem t x = mem s x" if "0xC0000000 \<le> unat x" for x
      using sp that by (simp add: paging_frame_def)
    then have "chain (mem t) (head (heap s)) bs = chain (mem s) (head (heap s)) bs"
      using heap_inv_bounds [OF h] by (intro chain_cong [of "0xC0000000" bs "unat (brk (heap s))"]) auto
    then show ?thesis using h by (simp add: heap_inv_def)
  qed
  moreover have "0 \<notin> free_frames (pmm t)" using h ff by (auto simp: heap_inv_def)
  ultimately have "heap_inv t bs" using h sp by (simp add: heap_inv_def hp)
  moreover have "pool t \<subseteq> pool s" using ff tf by (auto simp: pool_def)
  then have "boot_stack_ok B t" using inv boot_stack_mono by (auto simp: task_inv_def)
  ultimately show "task_inv B bs t" using inv by (simp add: task_inv_def sc)
qed

lemma unmapped_outside_heap:
  assumes inv: "task_inv B bs s" and un: "pte s v = None" and v: "4096 dvd unat v"
  shows "unat v + 4 \<le> 0xC0000000 \<or> unat (brk (heap s)) \<le> unat v"
proof (rule ccontr)
  assume n: "\<not> ?thesis"
  obtain k where "unat v = 4096 * k" using v by (auto simp: dvd_def)
  with n have "0xC0000000 \<le> unat v" "unat v < unat (brk (heap s))" by auto
  moreover have "backed s 0xC0000000 (unat (brk (heap s)))" using inv by (simp add: task_inv_def heap_inv_def)
  ultimately have "page_of s v \<noteq> None" by (auto simp: backed_def)
  with un show False by (simp add: page_of_def)
qed

lemma map_mapped_ok:
  assumes inv: "task_inv B bs s" and vga: "vga_inv (con s)" and un: "pte s v = None"
    and v: "2 ^ 24 \<le> unat v" "4096 dvd unat v" and map: "paging_map v f fl s = (True, t)"
  shows "\<exists>u. virt_store r v w t = done_with u \<and> kernel_ok B u"
proof -
  have p: "paging_inv s" using inv by (simp add: task_inv_def heap_inv_def)
  note sp = paging_map_spec [OF p map] and mi = task_inv_map [OF inv un map]
  have "mmu_lookup t v \<noteq> None" using sp by (simp add: mmu_lookup_def)
  then have "virt_store r v w t = done_with (t\<lparr>mem := st32 (mem t) v w\<rparr>)" by (auto simp: virt_store_def)
  moreover have "task_inv B bs (t\<lparr>mem := st32 (mem t) v w\<rparr>)"
    using unmapped_outside_heap [OF inv un v(2)] aligned_end [OF v(2)] v(1)
    by (intro store_word_ok [OF mi(1)]) (simp_all add: mi(2))
  ultimately show ?thesis using vga mi(3) by (auto simp: kernel_ok_def)
qed

lemma map_failed_ok:
  assumes inv: "task_inv B bs s" and al: "pmm_alloc_frame (pmm s) = (f, p)" and f: "f \<noteq> 0"
    and map: "paging_map v f fl (s\<lparr>pmm := p\<rparr>) = (False, t)"
  shows "task_inv B bs (t\<lparr>pmm := pmm_free_frame f (pmm t)\<rparr>)" "con t = con s"
proof -
  have pi: "paging_inv s" using inv by (simp add: task_inv_def heap_inv_def)
  note tk = frame_taken [OF pi al f] and sp = paging_map_spec [OF frame_taken(1) [OF pi al f] map]
  let ?P = "pmm_free_frame f (pmm t)"
  have t: "t\<lparr>pmm := ?P\<rparr> = s\<lparr>pmm := ?P\<rparr>"
    using sp by (cases s; cases t) (simp add: paging_frame_def)
  have pt: "pmm_inv (pmm t)" using sp by (simp add: paging_inv_def)
  have "free_frames ?P \<subseteq> insert (frame_no f) (free_frames (pmm t))"
    using fa.free_insert [OF pt, of f] by auto
  also have "\<dots> \<subseteq> free_frames (pmm s)" using sp tk(2,4) by (auto simp: paging_frame_def)
  finally show "task_inv B bs (t\<lparr>pmm := ?P\<rparr>)"
    unfolding t using fa.inv_free [OF pt] by (intro task_inv_fewer_frames [OF inv])
  show "con t = con s" using sp by (simp add: paging_frame_def)
qed

lemma map_ok:
  assumes ok: "kernel_ok B s" and v: "2 ^ 24 \<le> unat (atoi_hex args)"
  shows "command_ok B (cmd_map r args s)"
proof -
  obtain bs where inv: "task_inv B bs s" and vga: "vga_inv (con s)" using ok by (auto simp: kernel_ok_def)
  have pi: "paging_inv s" and pinv: "pmm_inv (pmm s)" using inv by (simp_all add: task_inv_def heap_inv_def paging_inv_def)
  define a where "a = FRAME_OF (atoi_hex args)"
  have a: "2 ^ 24 \<le> unat a" "4096 dvd unat a" "a \<noteq> 0"
    using v by (simp_all add: a_def unat_FRAME_OF) (auto simp: word_unat_eq_iff unat_FRAME_OF)
  show ?thesis
  proof (cases "paging_translate a s = PAGE_UNMAPPED")
    case mapped: False
    then show ?thesis using ok a(3) by (simp add: cmd_map_def page_mask a_def)
  next
    case True
    then have un: "pte s a = None"
      using frame_not_unmapped
      by (auto simp: paging_translate_pte [OF pi] a_def aligned_offset split: option.splits)
    obtain f p where al: "pmm_alloc_frame (pmm s) = (f, p)" by fastforce
    have s1: "task_inv B bs (s\<lparr>pmm := p\<rparr>)"
      by (rule task_inv_fewer_frames [OF inv pmm_alloc_inv(1,3) [OF pinv al]])
    obtain k t where map: "paging_map a f PAGE_WRITE (s\<lparr>pmm := p\<rparr>) = (k, t)" by fastforce
    consider "f = 0" | "f \<noteq> 0" "\<not> k" | "f \<noteq> 0" "k" by blast
    then show ?thesis
    proof cases
      case 1
      have "kernel_ok B (s\<lparr>pmm := p\<rparr>)" using s1 vga by (auto simp: kernel_ok_def)
      with 1 show ?thesis using True a(3) al by (simp add: cmd_map_def page_mask a_def [symmetric])
    next
      case 2
      then have "kernel_ok B (t\<lparr>pmm := pmm_free_frame f (pmm t)\<rparr>)"
        using map_failed_ok [OF inv al 2(1), of a PAGE_WRITE t] map vga by (auto simp: kernel_ok_def)
      then show ?thesis using 2 True a(3) al map by (simp add: cmd_map_def page_mask a_def [symmetric])
    next
      case 3
      have un1: "pte (s\<lparr>pmm := p\<rparr>) a = None" using un by (simp add: pmm_update_paging)
      obtain u where u: "virt_store r a 0x1234ABCD t = done_with u" "kernel_ok B u"
        using map_mapped_ok [OF s1 _ un1 a(1,2), of f PAGE_WRITE t r "0x1234ABCD"] map 3 vga by auto
      then show ?thesis using 3 True a(3) al map
        by (simp add: cmd_map_def page_mask a_def [symmetric]) (simp add: and_then_def done_with_def command_ok_def Let_def)
    qed
  qed
qed

lemma fault_ok:
  assumes ok: "kernel_ok B s"
  shows "command_ok B (cmd_fault r args s) \<or> (\<exists>t. cmd_fault r args s = Some (Stopped t))"
proof -
  let ?s = "kprint ''Touching unmapped memory at 0xDEADB000 on purpose...\<newline>'' s"
  have s: "kernel_ok B ?s" using ok by simp
  obtain bs where inv: "task_inv B bs ?s" and vga: "vga_inv (con ?s)" using s by (auto simp: kernel_ok_def)
  have "unat (brk (heap ?s)) \<le> 0xC0400000" using inv by (simp add: task_inv_def heap_inv_def)
  then have "task_inv B bs (?s\<lparr>mem := st32 (mem ?s) 0xDEADB000 1\<rparr>)"
    by (intro store_word_ok [OF inv]) simp_all
  with vga have "kernel_ok B (?s\<lparr>mem := st32 (mem ?s) 0xDEADB000 1\<rparr>)" by (auto simp: kernel_ok_def)
  then show ?thesis
    by (auto simp: cmd_fault_def virt_store_def trap_def isr_handler_def)
qed

section \<open>Every line of input\<close>

definition command_of :: "string \<Rightarrow> string" where
  "command_of line = fst (cmd_word 0 line)"

definition args_of :: "string \<Rightarrow> string" where
  "args_of line = (let rest = snd (cmd_word 0 line) in if chr0 rest \<noteq> NUL then tl rest else rest)"

lemma command_of_NUL: "NUL \<notin> set (command_of line)"
proof -
  have "NUL \<notin> set (fst (cmd_word i line))" for i
    by (induction i line rule: cmd_word.induct) (auto split: prod.split)
  then show ?thesis by (simp add: command_of_def)
qed

lemma shell_execute_split:
  "shell_execute hlt ex ct r line s =
    (if chr0 line = NUL then done_with (shell_prompt s)
     else and_then (run_command hlt ex ct r (command_of line) (args_of line) s) (\<lambda>s. done_with (shell_prompt s)))"
  by (simp add: shell_execute_def command_of_def args_of_def Let_def split: prod.split)

lemma and_then_prompt:
  fixes out :: "'a shell_layer_scheme outcome"
  assumes "command_ok B out \<or> (\<exists>t. out = Some (Stopped t))"
  shows "\<exists>o'. and_then out (\<lambda>s. done_with (shell_prompt s)) = Some o' \<and>
    (\<forall>t. o' = Running t \<longrightarrow> kernel_ok B t) \<and> ((\<exists>t. o' = Stopped t) \<longleftrightarrow> \<not> command_ok B out)"
proof -
  have "kernel_ok B t \<Longrightarrow> kernel_ok B (shell_prompt t)" for t :: "'a shell_layer_scheme"
    using kernel_ok_prints [OF _ report_prints(8)] .
  with assms show ?thesis by (auto simp: and_then_def command_ok_def done_with_def)
qed

text \<open>The commands that give memory back as the user says, and the one that waits for interrupts.\<close>

lemma run_command_ok:
  assumes ok: "kernel_ok B s" and "NUL \<notin> set cmd" and "cmd \<notin> {''free'', ''kfree'', ''unmap'', ''sleep''}"
    and "cmd = ''kmalloc'' \<Longrightarrow> sint (atoi args) \<le> 0x3EFFFFF8" and "cmd = ''map'' \<Longrightarrow> 2 ^ 24 \<le> unat (atoi_hex args)"
  shows "command_ok B (run_command hlt ex ct r cmd args s) \<or>
    (\<exists>t. run_command hlt ex ct r cmd args s = Some (Stopped t)) \<and> cmd \<in> {''calc'', ''fault'', ''halt''}"
proof -
  define P where "P out \<longleftrightarrow> command_ok B out \<or> (\<exists>t. out = Some (Stopped t)) \<and> cmd \<in> {''calc'', ''fault'', ''halt''}"
    for out :: "'a shell_layer_scheme outcome"
  have eq: "strcmp cmd w = 0 \<longleftrightarrow> cmd = w" if "NUL \<notin> set w" for w using assms(2) that by (rule strcmp_eq_0)
  have print: "P (done_with t)" if "prints_only s t" for t
    using kernel_ok_prints [OF ok that] by (simp add: P_def)
  have good: "P (done_with t)" if "kernel_ok B t" for t using that by (simp add: P_def)
  obtain bs where "heap_inv s bs" using ok by (auto simp: kernel_ok_def task_inv_def)
  then obtain th where "cmd_heap args s = Some th" "prints_only s th" using cmd_heap_prints by blast
  then have heap: "P (map_option Running (cmd_heap args s))"
    using kernel_ok_prints [OF ok] by (simp add: P_def command_ok_def)
  have km: "P (map_option Running (cmd_kmalloc args s))" if "cmd = ''kmalloc''"
    using kmalloc_ok [OF ok assms(4) [OF that]] by (auto simp: P_def command_ok_def)
  have sw: "P (map_option Running (cmd_spawn ex ct args s))"
    using spawn_ok [OF ok, of ex ct args] by (auto simp: P_def command_ok_def)
  have calc: "P (cmd_calc r args s)" if "cmd = ''calc''" using calc_ok [OF ok, of r args] that by (auto simp: P_def)
  have fault: "P (cmd_fault r args s)" if "cmd = ''fault''" using fault_ok [OF ok, of r args] that by (auto simp: P_def)
  have mp: "P (cmd_map r args s)" if "cmd = ''map''" using map_ok [OF ok assms(5) [OF that]] by (simp add: P_def)
  have halt: "P (cmd_halt args s)" if "cmd = ''halt''" using that by (simp add: P_def cmd_halt_def)
  have unknown: "prints_only s (kprint (''  (try '' @ [QUOTE] @ ''help'' @ [QUOTE] @ '')\<newline>'')
    (kprint cmd (kprint ''unknown command: '' s)))" by (simp add: prints_only_kprint)
  have "P (run_command hlt ex ct r cmd args s)"
    unfolding run_command_def Let_def
    using assms(3) print [OF unknown]
    by (auto simp: eq km sw calc fault mp halt heap good [OF kill_ok [OF ok]] good [OF alloc_ok [OF ok]]
        good [OF device_commands(1) [OF ok]] good [OF device_commands(2) [OF ok]] print printing_commands
        simp del: strcmp.simps split: if_split)
  then show ?thesis by (simp add: P_def)
qed

lemma free_breaks:
  fixes s :: "'a shell_layer_scheme"
  assumes inv: "paging_inv s" and dir: "frame_no (page_directory (paging s)) < unat (total_frames (pmm s))"
  shows "\<exists>t. shell_execute hlt ex ct r (''free '' @ hex_string (page_directory (paging s))) s = Some (Running t) \<and>
    \<not> kernel_ok B t"
proof -
  let ?d = "page_directory (paging s)"
  have d: "?d \<noteq> 0" and p: "pmm_inv (pmm s)" using inv by (simp_all add: paging_inv_def)
  have parse: "atoi_hex (hex_string ?d) = ?d" using print_hex_atoi_hex by blast
  have split: "command_of (''free '' @ xs) = ''free''" "args_of (''free '' @ xs) = xs" for xs
    by (simp_all add: command_of_def args_of_def)
  let ?s = "s\<lparr>pmm := pmm_free_frame ?d (pmm s)\<rparr>"
  obtain str where c: "cmd_free (hex_string ?d) s = says str ?s"
    using d parse by (simp add: cmd_free_def Let_def kprint_says says_says hex_string_NUL dec_string_NUL)
  have "frame_no ?d \<in> free_frames (pmm (shell_prompt (says str ?s)))"
    using fa.free_insert [OF p, of ?d] dir by (simp add: shell_prompt_def kprint_says)
  then have "\<not> paging_inv (shell_prompt (says str ?s))"
    by (simp add: paging_inv_def shell_prompt_def kprint_says)
  then have bad: "\<not> kernel_ok B (shell_prompt (says str ?s))"
    by (auto simp: kernel_ok_def task_inv_def heap_inv_def)
  have "shell_execute hlt ex ct r (''free '' @ hex_string ?d) s = done_with (shell_prompt (says str ?s))"
    unfolding shell_execute_split split run_command_def
    by (simp add: c strcmp_eq_0 and_then_def done_with_def del: strcmp.simps)
  with bad show ?thesis by (auto simp: done_with_def)
qed

end
