(* ===== verification/Shell_Release.thy ===== *)
theory Shell_Release
  imports Shell_Safety
begin

text \<open>
  The commands that give memory back at an address the user names, and the one that waits. They keep the
  kernel sound exactly as long as the memory is not in use: \<open>permitted\<close> says what that means for each of them,
  so that the property at the end covers every command of the shell.
\<close>

section \<open>Freeing a frame\<close>

text \<open>A frame that holds no page table, no page of the heap and no part of the boot stack.\<close>

definition spare_frame :: "nat set \<Rightarrow> 'a task_layer_scheme \<Rightarrow> nat \<Rightarrow> bool" where
  "spare_frame B s f \<longleftrightarrow>
     f \<noteq> 0 \<and> f \<notin> table_frames s \<and> (\<forall>x. unat x \<in> B \<longrightarrow> frame_no x \<noteq> f) \<and>
     (\<forall>v p. 0xC0000000 \<le> unat v \<and> unat v < unat (brk (heap s)) \<and> page_of s v = Some p \<longrightarrow> frame_no p \<noteq> f)"

lemma task_inv_frame_back:
  assumes inv: "task_inv B bs s" and f: "spare_frame B s (frame_no a)"
  shows "task_inv B bs (s\<lparr>pmm := pmm_free_frame a (pmm s)\<rparr>)"
proof -
  let ?p = "pmm_free_frame a (pmm s)"
  have h: "heap_inv s bs" and pi: "paging_inv s" using inv by (simp_all add: task_inv_def heap_inv_def)
  then have p: "pmm_inv (pmm s)" by (simp add: paging_inv_def)
  have ff: "free_frames ?p \<subseteq> insert (frame_no a) (free_frames (pmm s))" using fa.free_insert [OF p, of a] by auto
  note up = pmm_update_paging [of ?p s]
  have b: "backed s 0xC0000000 (unat (brk (heap s)))" using h by (simp add: heap_inv_def)
  have "backed (s\<lparr>pmm := ?p\<rparr>) 0xC0000000 (unat (brk (heap s)))"
    unfolding backed_def up
  proof (intro conjI allI impI; elim conjE)
    fix v :: u32 assume v: "0xC0000000 \<le> unat v" "unat v < unat (brk (heap s))"
    then obtain q where q: "page_of s v = Some q" "frame_no q \<notin> free_frames (pmm s)" "frame_no q \<notin> table_frames s"
      using b unfolding backed_def by blast
    moreover have "frame_no q \<noteq> frame_no a" using f v q(1) unfolding spare_frame_def by blast
    ultimately show "\<exists>q. page_of s v = Some q \<and> frame_no q \<notin> free_frames (pmm (s\<lparr>pmm := ?p\<rparr>)) \<and> frame_no q \<notin> table_frames s"
      using ff by (intro exI [of _ q]) auto
  next
    fix v w :: u32
    assume "0xC0000000 \<le> unat v" "unat v < unat (brk (heap s))" "0xC0000000 \<le> unat w" "unat w < unat (brk (heap s))"
      "page_of s v = page_of s w"
    then show "vpage v = vpage w" using b unfolding backed_def by blast
  qed
  moreover have "0 \<notin> free_frames ?p" using h f ff by (auto simp: heap_inv_def spare_frame_def)
  moreover have "paging_inv (s\<lparr>pmm := ?p\<rparr>)" using f by (intro paging_inv_free [OF pi]) (simp add: spare_frame_def)
  ultimately have "heap_inv (s\<lparr>pmm := ?p\<rparr>) bs" using h by (simp add: heap_inv_def)
  moreover have "boot_stack_ok B (s\<lparr>pmm := ?p\<rparr>)"
    using inv f ff up(4) by (auto simp: task_inv_def boot_stack_ok_def pool_def spare_frame_def)
  ultimately show ?thesis using inv by (simp add: task_inv_def)
qed

lemma free_ok:
  assumes ok: "kernel_ok B s" and f: "atoi_hex args \<noteq> 0 \<Longrightarrow> spare_frame B s (frame_no (atoi_hex args))"
  shows "kernel_ok B (cmd_free args s)"
proof (cases "atoi_hex args = 0")
  case True
  with ok show ?thesis by (simp add: cmd_free_def)
next
  case False
  obtain bs where "task_inv B bs s" "vga_inv (con s)" using ok by (auto simp: kernel_ok_def)
  with task_inv_frame_back [OF _ f [OF False]]
  have "kernel_ok B (s\<lparr>pmm := pmm_free_frame (atoi_hex args) (pmm s)\<rparr>)" by (auto simp: kernel_ok_def)
  with False show ?thesis by (simp add: cmd_free_def Let_def)
qed

section \<open>Unmapping a page\<close>

lemma task_inv_unmap:
  assumes inv: "task_inv B bs s" and unmap: "paging_unmap v s = (ok, t)"
    and out: "unat v < 0xC0000000 \<or> unat (brk (heap s)) \<le> unat v" and v: "4096 dvd unat v"
  shows "task_inv B bs t" "con t = con s" "pmm t = pmm s" "spare_frame B s f \<Longrightarrow> spare_frame B t f"
proof -
  have h: "heap_inv s bs" and p: "paging_inv s" using inv by (simp_all add: task_inv_def heap_inv_def)
  note sp = paging_unmap_spec [OF p unmap] and st = paging_unmap_step [OF p unmap]
  have more: "paging_layer.more t = paging_layer.more s" using sp by (simp add: paging_frame_def)
  then have hp: "heap t = heap s" by (cases s; cases t) simp
  show con: "con t = con s" using sp by (simp add: paging_frame_def)
  show pm: "pmm t = pmm s" by (rule st(2))
  have sc: "sched t = sched s" using more by (cases s; cases t) simp
  have tf: "table_frames t = table_frames s"
    using st table_frames_not_free [of t] sp by (auto simp: tables_step_def)
  have pg: "page_of t x = page_of s x" if "0xC0000000 \<le> unat x" "unat x < unat (brk (heap s))" for x
  proof -
    have "vpage x \<noteq> vpage v"
    proof
      assume "vpage x = vpage v"
      then have "unat x div 4096 = unat v div 4096" by (simp add: vpage_def drop_bit_eq_div word_unat_eq_iff unat_div)
      moreover obtain k where k: "unat v = 4096 * k" using v by (auto simp: dvd_def)
      ultimately have "unat x div 4096 = k" by simp
      then have "4096 * k \<le> unat x" "unat x < 4096 * k + 4096"
        using div_mult_mod_eq [of "unat x" 4096] mod_less_divisor [of 4096 "unat x"] by linarith+
      moreover have "k < 0xC0000" if "unat v < 0xC0000000" using that k by simp
      ultimately show False using out that k by (elim disjE) simp_all
    qed
    with sp show ?thesis by (simp add: page_of_def)
  qed
  have "backed s 0xC0000000 (unat (brk (heap s)))" using h by (simp add: heap_inv_def)
  then have "backed t 0xC0000000 (unat (brk (heap s)))"
    by (rule backed_step) (simp only: pg, simp_all add: pm tf)
  moreover have "chain (mem t) (head (heap s)) bs"
  proof -
    have "unat (identity_end (paging s)) \<le> 2 ^ 24" using p by (simp add: paging_inv_def)
    then have "mem t x = mem s x" if "0xC0000000 \<le> unat x" for x
      using sp that by (simp add: paging_frame_def)
    then have "chain (mem t) (head (heap s)) bs = chain (mem s) (head (heap s)) bs"
      using heap_inv_bounds [OF h] by (intro chain_cong [of "0xC0000000" bs "unat (brk (heap s))"]) auto
    then show ?thesis using h by (simp add: heap_inv_def)
  qed
  ultimately have "heap_inv t bs" using h sp by (simp add: heap_inv_def hp pm)
  moreover have "boot_stack_ok B t" using inv by (simp add: task_inv_def boot_stack_ok_def pool_def pm tf)
  ultimately show "task_inv B bs t" using inv by (simp add: task_inv_def sc)
  show "spare_frame B s f \<Longrightarrow> spare_frame B t f"
    unfolding spare_frame_def tf hp by (metis pg)
qed


text \<open>The page is left alone when it is not mapped or identity-mapped; otherwise it must be none of the heap's.\<close>

definition spare_page :: "nat set \<Rightarrow> 'a task_layer_scheme \<Rightarrow> u32 \<Rightarrow> bool" where
  "spare_page B s v \<longleftrightarrow>
     (\<forall>p. page_of s v = Some p \<and> identity_end (paging s) \<le> v \<longrightarrow>
        (unat v < 0xC0000000 \<or> unat (brk (heap s)) \<le> unat v) \<and> spare_frame B s (frame_no p))"

lemma unmap_ok:
  assumes ok: "kernel_ok B s" and v: "spare_page B s (FRAME_OF (atoi_hex args))"
  shows "kernel_ok B (cmd_unmap args s)"
proof -
  define a where "a = FRAME_OF (atoi_hex args)"
  obtain bs where inv: "task_inv B bs s" and vga: "vga_inv (con s)" using ok by (auto simp: kernel_ok_def)
  have pi: "paging_inv s" using inv by (simp add: task_inv_def heap_inv_def)
  have al: "4096 dvd unat a" by (simp add: a_def)
  have tr: "paging_translate a s = (case pte s a of None \<Rightarrow> PAGE_UNMAPPED | Some e \<Rightarrow> FRAME_OF e)"
    by (simp add: paging_translate_pte [OF pi] a_def aligned_offset cong: option.case_cong)
  show ?thesis
  proof (cases "pte s a = None \<or> a < identity_end (paging s)")
    case True
    then show ?thesis
      using ok by (auto simp: cmd_unmap_def page_mask a_def [symmetric] tr paging_identity_end_def Let_def)
  next
    case False
    then obtain e where e: "pte s a = Some e" and hi: "identity_end (paging s) \<le> a" by auto
    obtain k t where un: "paging_unmap a s = (k, t)" by fastforce
    have sp: "unat a < 0xC0000000 \<or> unat (brk (heap s)) \<le> unat a" "spare_frame B s (frame_no (FRAME_OF e))"
      using v e hi by (auto simp: spare_page_def page_of_def a_def)
    note tu = task_inv_unmap [OF inv un sp(1) al]
    have "task_inv B bs (t\<lparr>pmm := pmm_free_frame (FRAME_OF e) (pmm t)\<rparr>)"
      by (rule task_inv_frame_back [OF tu(1) tu(4) [OF sp(2)]])
    then have "kernel_ok B (t\<lparr>pmm := pmm_free_frame (FRAME_OF e) (pmm t)\<rparr>)"
      using vga tu(2) by (auto simp: kernel_ok_def)
    moreover have "FRAME_OF (FRAME_OF e) = FRAME_OF e" using FRAME_OF_entry [OF FRAME_OF_aligned, of e 0] by simp
    ultimately show ?thesis
      using e hi un frame_not_unmapped
      by (simp add: cmd_unmap_def page_mask a_def [symmetric] tr paging_identity_end_def Let_def not_less)
  qed
qed

section \<open>Freeing a heap block\<close>

lemma kfree_false_prints: "kfree p s = Some (False, t) \<Longrightarrow> prints_only s t"
  by (auto simp: kfree_def Let_def prints_only_kprint Option.bind_eq_Some_conv split: if_splits)

text \<open>What \<open>kfree\<close> may be given: a pointer it rejects, or a block in use that is no task's stack.\<close>

definition own_block :: "'a task_layer_scheme \<Rightarrow> u32 \<Rightarrow> bool" where
  "own_block s p \<longleftrightarrow>
     (\<exists>t. kfree p s = Some (False, t)) \<or> (\<exists>L n. heap_rep s L \<and> L p = Some n \<and> \<not> is_stack (sched s) p)"

lemma heap_free_prints: "heap_free (kprint str s) = heap_free s" "heap_free (kprint_hex n s) = heap_free s"
  by (simp_all add: kprint_defs heap_figures_con)

lemma kfree_ok:
  assumes ok: "kernel_ok B s" and p: "atoi_hex args \<noteq> 0 \<Longrightarrow> own_block s (atoi_hex args)"
  shows "\<exists>t. cmd_kfree args s = Some t \<and> kernel_ok B t"
proof -
  let ?a = "atoi_hex args"
  obtain bs where inv: "task_inv B bs s" and vga: "vga_inv (con s)" using ok by (auto simp: kernel_ok_def)
  have h: "heap_inv s bs" using inv by (simp add: task_inv_def)
  consider "?a = 0" | t where "?a \<noteq> 0" "kfree ?a s = Some (False, t)"
    | L n where "?a \<noteq> 0" "heap_rep s L" "L ?a = Some n" "\<not> is_stack (sched s) ?a"
    using p unfolding own_block_def by blast
  then show ?thesis
  proof cases
    case 1
    with ok show ?thesis by (simp add: cmd_kfree_def)
  next
    case (2 t)
    note pr = kfree_false_prints [OF 2(2)]
    show ?thesis
      using 2 kernel_ok_prints [OF ok pr] by (simp add: cmd_kfree_def)
  next
    case (3 L n)
    have "heap_rep s (live bs)" using h by (auto simp: heap_rep_def)
    then have l: "live bs ?a = Some n" using heap_rep_unique 3(2,3) by metis
    have "stack_base (tasks (sched s) ! i) \<noteq> ?a" if "0 < i" "exists_task (sched s) i" for i
      using 3(4) that by (auto simp: is_stack_def)
    then obtain t bs' where k: "kfree ?a s = Some (True, t)" "task_inv B bs' t"
      using kfree_task [OF inv l] by blast
    have "kept (merge (free_at (?a - HDR) bs)) s t" using kfree_spec [OF h l] k(1) by auto
    then have "con t = con s" by (simp add: kept_def)
    then have "kernel_ok B t" using k(2) vga by (auto simp: kernel_ok_def)
    moreover have "\<exists>f. heap_free t = Some f"
    proof -
      have "heap_inv t bs'" using k(2) by (simp add: task_inv_def)
      then have "chain (mem t) (head (heap t)) bs'" by (simp add: heap_inv_def)
      from heap_used_loop_chain [OF this heap_inv_nonnull [OF \<open>heap_inv t bs'\<close>], of 0]
      show ?thesis by (simp add: heap_free_def heap_used_def)
    qed
    ultimately show ?thesis
      using k(1) 3(1) by (auto simp: cmd_kfree_def heap_free_prints Let_def)
  qed
qed

section \<open>Sleeping\<close>

text \<open>What the shell relies on while it waits: a wake-up returns to a sound kernel, and ticks keep coming.\<close>

definition wakes ::
  "nat set \<Rightarrow> ('a shell_layer_scheme \<Rightarrow> nat) \<Rightarrow> ('a shell_layer_scheme \<Rightarrow> 'a shell_layer_scheme option) \<Rightarrow> bool" where
  "wakes B m hlt \<longleftrightarrow>
     (\<forall>s. kernel_ok B s \<longrightarrow> (\<exists>s'. hlt s = Some s' \<and> kernel_ok B s' \<and>
        (ticks s' = ticks s + 1 \<or> ticks s' = ticks s \<and> m s' < m s)))"

lemma sleep_ok:
  fixes s :: "'a shell_layer_scheme"
  assumes ok: "kernel_ok B s" and w: "wakes B m hlt"
  shows "\<exists>t. cmd_sleep hlt args s = Some t \<and> kernel_ok B t"
proof (cases "sint (atoi args) \<le> 0")
  case True
  with ok show ?thesis by (simp add: cmd_sleep_def)
next
  case False
  let ?s = "kprint '' ms...\<newline>'' (kprint_int (atoi args) (kprint ''sleeping '' s))"
  let ?target = "ticks ?s + (atoi args * TIMER_HZ) div 1000"
  have s: "kernel_ok B ?s" using ok by simp
  have "\<exists>t. timer_sleep hlt (atoi args) ?s = Some t \<and> kernel_ok B t"
  proof (cases "ticks ?s < ?target")
    case True
    then have "\<exists>t. sleep_loop hlt ?target ?s = Some t \<and> kernel_ok B t \<and> ticks t = ?target"
      using w s by (intro sleep_loop_ends [of "kernel_ok B" _ hlt m]) (auto simp: wakes_def)
    then show ?thesis by (auto simp: timer_sleep_def)
  next
    case False
    from no_sleep [OF this, of hlt] s show ?thesis by (auto simp: timer_sleep_def)
  qed
  with False show ?thesis by (auto simp: cmd_sleep_def Let_def)
qed

section \<open>Every command\<close>

lemma execute_sound:
  fixes s :: "'a shell_layer_scheme"
  assumes "kernel_ok B s"
    and rc: "command_ok B (run_command hlt ex ct r (command_of line) (args_of line) s) \<or>
      (\<exists>t. run_command hlt ex ct r (command_of line) (args_of line) s = Some (Stopped t)) \<and>
        command_of line \<in> {''calc'', ''fault'', ''halt''}"
  shows "\<exists>out. shell_execute hlt ex ct r line s = Some out \<and> (\<forall>t. out = Running t \<longrightarrow> kernel_ok B t) \<and>
      ((\<exists>t. out = Stopped t) \<longrightarrow> command_of line \<in> {''calc'', ''fault'', ''halt''})"
proof (cases "chr0 line = NUL")
  case True
  then show ?thesis
    using kernel_ok_prints [OF assms(1) report_prints(8)] by (simp add: shell_execute_split done_with_def)
next
  case False
  then show ?thesis
    using and_then_prompt [of B "run_command hlt ex ct r (command_of line) (args_of line) s"] rc
    by (auto simp: shell_execute_split)
qed

definition permitted ::
  "nat set \<Rightarrow> ('a shell_layer_scheme \<Rightarrow> 'a shell_layer_scheme option) \<Rightarrow> string \<Rightarrow> 'a shell_layer_scheme \<Rightarrow> bool" where
  "permitted B hlt line s \<longleftrightarrow>
     (let cmd = command_of line; args = args_of line; a = atoi_hex args
      in (cmd = ''kmalloc'' \<longrightarrow> sint (atoi args) \<le> 0x3EFFFFF8) \<and>
         (cmd = ''kfree'' \<longrightarrow> a = 0 \<or> own_block s a) \<and>
         (cmd = ''map'' \<longrightarrow> 2 ^ 24 \<le> unat a) \<and>
         (cmd = ''unmap'' \<longrightarrow> spare_page B s (FRAME_OF a)) \<and>
         (cmd = ''free'' \<longrightarrow> a = 0 \<or> spare_frame B s (frame_no a)) \<and>
         (cmd = ''sleep'' \<longrightarrow> (\<exists>m. wakes B m hlt)))"

lemma permitted_command:
  fixes s :: "'a shell_layer_scheme"
  assumes ok: "kernel_ok B s" and p: "permitted B hlt line s"
  shows "command_ok B (run_command hlt ex ct r (command_of line) (args_of line) s) \<or>
    (\<exists>t. run_command hlt ex ct r (command_of line) (args_of line) s = Some (Stopped t)) \<and>
      command_of line \<in> {''calc'', ''fault'', ''halt''}"
proof (cases "command_of line \<in> {''free'', ''kfree'', ''unmap'', ''sleep''}")
  case False
  with p show ?thesis by (intro run_command_ok [OF ok command_of_NUL]) (simp_all add: permitted_def Let_def)
next
  case True
  let ?a = "atoi_hex (args_of line)"
  have run: "run_command hlt ex ct r ''free'' args s = done_with (cmd_free args s)"
    "run_command hlt ex ct r ''kfree'' args s = map_option Running (cmd_kfree args s)"
    "run_command hlt ex ct r ''unmap'' args s = done_with (cmd_unmap args s)"
    "run_command hlt ex ct r ''sleep'' args s = map_option Running (cmd_sleep hlt args s)" for args
    by (simp_all add: run_command_def strcmp_eq_0 del: strcmp.simps)
  from True consider "command_of line = ''free''" | "command_of line = ''kfree''" | "command_of line = ''unmap''"
    | "command_of line = ''sleep''" by blast
  then show ?thesis
  proof cases
    case 1
    with p have "?a \<noteq> 0 \<Longrightarrow> spare_frame B s (frame_no ?a)" by (simp add: permitted_def)
    from free_ok [OF ok this] 1 show ?thesis by (simp add: run)
  next
    case 2
    with p have "?a \<noteq> 0 \<Longrightarrow> own_block s ?a" by (simp add: permitted_def)
    from kfree_ok [OF ok this] 2 show ?thesis by (auto simp: run command_ok_def)
  next
    case 3
    with p have "spare_page B s (FRAME_OF ?a)" by (simp add: permitted_def)
    from unmap_ok [OF ok this] 3 show ?thesis by (simp add: run)
  next
    case 4
    with p obtain m where "wakes B m hlt" by (auto simp: permitted_def)
    from sleep_ok [OF ok this, of "args_of line"] 4 show ?thesis by (auto simp: run command_ok_def)
  qed
qed

text \<open>
  C3: what a line of input can do. In a sound kernel every line ends, and leaves the kernel sound, as long as it is
  \<open>permitted\<close>: \<open>kmalloc\<close> asks for at most 0x3EFFFFF8 bytes, \<open>kfree\<close> names a block in use that is no task's stack or an address it
  rejects, \<open>map\<close> stays above the identity region, \<open>unmap\<close> and \<open>free\<close> give back memory that holds no page table, no heap
  page and no boot stack, and \<open>sleep\<close> is woken up by ticks that keep the kernel sound. All other commands are always permitted. A
  line can stop the machine only by \<open>halt\<close>, by \<open>fault\<close>, or by the division that overflows. The restriction of
  \<open>free\<close> is needed: freeing the page directory is accepted and breaks the invariant.
\<close>

theorem shell_keeps_kernel_sound:
  fixes s :: "'a shell_layer_scheme"
  assumes "kernel_ok B s" and "permitted B hlt line s"
  shows "(\<exists>out. shell_execute hlt ex ct r line s = Some out \<and> (\<forall>t. out = Running t \<longrightarrow> kernel_ok B t) \<and>
      ((\<exists>t. out = Stopped t) \<longrightarrow> command_of line \<in> {''calc'', ''fault'', ''halt''})) \<and>
    (frame_no (page_directory (paging s)) < unat (total_frames (pmm s)) \<longrightarrow>
      (\<exists>t. shell_execute hlt ex ct r (''free '' @ hex_string (page_directory (paging s))) s = Some (Running t) \<and>
        \<not> kernel_ok B t))"
proof (intro conjI impI)
  have pi: "paging_inv s" using assms(1) by (auto simp: kernel_ok_def task_inv_def heap_inv_def)
  show "\<exists>t. shell_execute hlt ex ct r (''free '' @ hex_string (page_directory (paging s))) s = Some (Running t) \<and>
        \<not> kernel_ok B t" if "frame_no (page_directory (paging s)) < unat (total_frames (pmm s))"
    by (rule free_breaks [OF pi that])
  show "\<exists>out. shell_execute hlt ex ct r line s = Some out \<and> (\<forall>t. out = Running t \<longrightarrow> kernel_ok B t) \<and>
      ((\<exists>t. out = Stopped t) \<longrightarrow> command_of line \<in> {''calc'', ''fault'', ''halt''})"
    by (rule execute_sound [OF assms(1) permitted_command [OF assms]])
qed

text \<open>Its witness sleeps half a second on a clock that ticks at every wake-up.\<close>

theorem shell_keeps_kernel_sound_witness:
  "\<exists>t. shell_execute (\<lambda>s. Some (s\<lparr>ticks := ticks s + 1\<rparr>)) 0 0 (demo_regs 0) ''sleep 500'' (demo_shell (\<lambda>_ _. 0)) = Some (Running t) \<and>
     kernel_ok demo_stack t"
proof -
  let ?hlt = "\<lambda>s :: shell_layer. Some (s\<lparr>ticks := ticks s + 1\<rparr>)"
  have ok: "kernel_ok demo_stack (demo_shell (\<lambda>_ _. 0))"
    using demo_shell(1,7) [of "\<lambda>_ _. 0"] by (auto simp: kernel_ok_def vga_inv_def demo_con_def vga_consts)
  have c: "command_of ''sleep 500'' = ''sleep''" by (simp add: command_of_def)
  have "wakes demo_stack (\<lambda>_. 0) ?hlt" by (simp add: wakes_def kernel_ok_def)
  then have "permitted demo_stack ?hlt ''sleep 500'' (demo_shell (\<lambda>_ _. 0))" by (auto simp: permitted_def c Let_def)
  from shell_keeps_kernel_sound [OF ok this, of 0 0 "demo_regs 0"]
  obtain out where o: "shell_execute ?hlt 0 0 (demo_regs 0) ''sleep 500'' (demo_shell (\<lambda>_ _. 0)) = Some out"
    "\<forall>t. out = Running t \<longrightarrow> kernel_ok demo_stack t" "\<not> (\<exists>t. out = Stopped t)"
    unfolding c by auto
  then show ?thesis by (cases out) auto
qed

end
