(* ===== verification/Shell_Input.thy ===== *)
theory Shell_Input
  imports Shell_Release
begin

text \<open>
  Whole queues of input. Harmless commands leave the input layer and the line editor alone, so
  \<open>shell_poll\<close> can be followed through everything that was typed: \<open>read_lines\<close> cuts the queue into the lines
  the editor makes of it, and \<open>poll_drains\<close> shows that they are all executed in a sound kernel.
\<close>

section \<open>What a command leaves alone\<close>

fun final :: "'s run \<Rightarrow> 's" where
  "final (Running s) = s"
| "final (Stopped s) = s"

definition upper_kept :: "'a task_layer_scheme \<Rightarrow> 'a task_layer_scheme outcome \<Rightarrow> bool" where
  "upper_kept s out \<longleftrightarrow> (\<forall>o'. out = Some o' \<longrightarrow> task_layer.more (final o') = task_layer.more s)"

lemma upper_kept_simps [simp]:
  "upper_kept s (done_with t) \<longleftrightarrow> task_layer.more t = task_layer.more s"
  "upper_kept s (Some (Running t)) \<longleftrightarrow> task_layer.more t = task_layer.more s"
  "upper_kept s (Some (Stopped t)) \<longleftrightarrow> task_layer.more t = task_layer.more s"
  "upper_kept s (map_option Running o1) \<longleftrightarrow> (\<forall>t. o1 = Some t \<longrightarrow> task_layer.more t = task_layer.more s)"
  by (auto simp: upper_kept_def done_with_def)

lemma prints_only_more:
  fixes s :: "'a task_layer_scheme"
  shows "prints_only s t \<Longrightarrow> task_layer.more t = task_layer.more s"
  by (erule prints_onlyE) simp

lemma kprint_more [simp]:
  fixes s :: "'a task_layer_scheme"
  shows "task_layer.more (kprint str s) = task_layer.more s" "task_layer.more (kprint_int n s) = task_layer.more s"
    "task_layer.more (kprint_hex n s) = task_layer.more s"
  by (simp_all add: kprint_defs)

lemma handler_more:
  fixes s :: "'a task_layer_scheme"
  shows "task_layer.more (final (isr_handler cr2 r s)) = task_layer.more s"
  by (simp add: isr_handler_def page_fault_handler_def Let_def)

lemma trap_kept: "task_layer.more t = task_layer.more s \<Longrightarrow> upper_kept s (trap v e c r t)"
  by (simp add: trap_def upper_kept_def handler_more)

lemma virt_store_kept: "task_layer.more t = task_layer.more s \<Longrightarrow> upper_kept s (virt_store r a w t)"
  by (simp add: virt_store_def trap_kept)

lemma and_then_kept:
  assumes "upper_kept s out" "\<And>t. task_layer.more t = task_layer.more s \<Longrightarrow> upper_kept s (f t)"
  shows "upper_kept s (and_then out f)"
proof (cases out)
  case (Some o')
  with assms show ?thesis by (cases o') (simp_all add: and_then_def)
qed (simp add: upper_kept_def and_then_def)

lemma layer_more:
  fixes s t :: "'a task_layer_scheme"
  shows "heap_layer.more t = heap_layer.more s \<Longrightarrow> task_layer.more t = task_layer.more s"
    "paging_layer.more t = paging_layer.more s \<Longrightarrow> task_layer.more t = task_layer.more s"
  by (cases s; cases t; simp)+

lemma map_kept:
  fixes s :: "'a task_layer_scheme"
  assumes "kernel_ok B s"
  shows "upper_kept s (cmd_map r args s)"
proof -
  have pi: "paging_inv s" using assms by (auto simp: kernel_ok_def task_inv_def heap_inv_def)
  have more: "task_layer.more t = task_layer.more s"
    if "pmm_alloc_frame (pmm s) = (f, p)" "f \<noteq> 0" "paging_map v f fl (s\<lparr>pmm := p\<rparr>) = (k, t)" for v f fl k t p
  proof -
    have "paging_layer.more t = paging_layer.more (s\<lparr>pmm := p\<rparr>)"
      using paging_map_spec [OF frame_taken(1) [OF pi that(1,2)] that(3)] by (simp add: paging_frame_def)
    from layer_more(2) [OF this] show ?thesis by simp
  qed
  show ?thesis
    unfolding cmd_map_def Let_def
    by (auto simp: more simp del: print.simps intro!: and_then_kept virt_store_kept split: prod.split)
qed

lemma task_create_more:
  assumes inv: "task_inv B bs s" and c: "task_create ex nm en s = Some (i, t)"
  shows "task_layer.more t = task_layer.more s"
proof -
  have sz: "TASK_STACK_SIZE \<noteq> 0" "unat TASK_STACK_SIZE \<le> 0x3EFFFFF8" by (simp_all add: TASK_STACK_SIZE_def)
  obtain p u bs' where k: "kmalloc TASK_STACK_SIZE s = Some (p, u)" "kept bs s u"
    using kmalloc_task [OF inv sz] by blast
  then have "task_layer.more u = task_layer.more s" by (intro layer_more(1)) (simp add: kept_def)
  with c k(1) show ?thesis
    by (auto simp: task_create_def on_sched_def Let_def split: option.splits if_splits prod.splits)
qed

lemma heap_commands_kept:
  assumes "kernel_ok B s"
  shows "upper_kept s (map_option Running (cmd_heap args s))"
    "sint (atoi args) \<le> 0x3EFFFFF8 \<Longrightarrow> upper_kept s (map_option Running (cmd_kmalloc args s))"
    "upper_kept s (map_option Running (cmd_spawn ex ct args s))"
proof -
  obtain bs where inv: "task_inv B bs s" using assms by (auto simp: kernel_ok_def)
  then have "heap_inv s bs" by (simp add: task_inv_def)
  from cmd_heap_prints [OF this, of args] obtain t where "cmd_heap args s = Some t" "prints_only s t" by blast
  then show "upper_kept s (map_option Running (cmd_heap args s))" by (simp add: prints_only_more)
  show "upper_kept s (map_option Running (cmd_kmalloc args s))" if sz: "sint (atoi args) \<le> 0x3EFFFFF8"
  proof (cases "sint (atoi args) \<le> 0")
    case False
    have n: "atoi args \<noteq> 0" "unat (atoi args) \<le> 0x3EFFFFF8"
      using False sz nonneg_word [of "atoi args"] by auto
    obtain p t where k: "kmalloc (atoi args) s = Some (p, t)" "kept bs s t"
      using kmalloc_task [OF inv n] by blast
    then have "task_layer.more t = task_layer.more s" by (intro layer_more(1)) (simp add: kept_def)
    then show ?thesis using k(1) False by (simp add: cmd_kmalloc_def Let_def)
  qed (simp add: cmd_kmalloc_def)
  show "upper_kept s (map_option Running (cmd_spawn ex ct args s))"
    using task_create_more [OF inv, of ex]
    by (auto simp: cmd_spawn_def task_spawn_counter_def Let_def Option.bind_eq_Some_conv split: prod.splits if_splits)
qed

lemma run_command_kept:
  fixes s :: "'a shell_layer_scheme"
  assumes ok: "kernel_ok B s" and "NUL \<notin> set cmd" and "cmd \<notin> {''free'', ''kfree'', ''unmap'', ''sleep''}"
    and "cmd = ''kmalloc'' \<Longrightarrow> sint (atoi args) \<le> 0x3EFFFFF8"
  shows "upper_kept s (run_command hlt ex ct r cmd args s)"
proof -
  have eq: "strcmp cmd w = 0 \<longleftrightarrow> cmd = w" if "NUL \<notin> set w" for w using assms(2) that by (rule strcmp_eq_0)
  have calc: "upper_kept s (cmd_calc r args s)"
    by (auto simp: cmd_calc_def Let_def intro!: trap_kept)
  have fault: "upper_kept s (cmd_fault r args s)"
    by (simp add: cmd_fault_def virt_store_kept)
  have kill: "task_layer.more (cmd_kill args s) = task_layer.more s"
    by (simp add: cmd_kill_def task_kill_def on_sched_def Let_def split: prod.split)
  have alloc: "task_layer.more (cmd_alloc args s) = task_layer.more s"
    by (simp add: cmd_alloc_def Let_def split: prod.split)
  have dev: "task_layer.more (cmd_reboot args s) = task_layer.more s" "task_layer.more (cmd_clear args s) = task_layer.more s"
    by (simp_all add: cmd_reboot_def cmd_clear_def kout_def Let_def)
  have km: "upper_kept s (map_option Running (cmd_kmalloc args s))" if "cmd = ''kmalloc''"
    using heap_commands_kept(2) [OF ok assms(4) [OF that]] .
  note hc = heap_commands_kept(1) [OF ok, of args] heap_commands_kept(3) [OF ok, of ex ct args]
  show ?thesis
    unfolding run_command_def Let_def
    using assms(3)
    by (auto simp: eq calc fault kill alloc dev km hc map_kept [OF ok] cmd_halt_def printing_commands prints_only_more
        simp del: strcmp.simps upper_kept_simps(4) split: if_split)
qed

lemma shell_execute_kept:
  fixes s :: "'a shell_layer_scheme"
  assumes "kernel_ok B s" and "command_of line \<notin> {''free'', ''kfree'', ''unmap'', ''sleep''}"
    and "command_of line = ''kmalloc'' \<Longrightarrow> sint (atoi (args_of line)) \<le> 0x3EFFFFF8"
  shows "upper_kept s (shell_execute hlt ex ct r line s)"
  unfolding shell_execute_split
  using run_command_kept [OF assms(1) command_of_NUL assms(2,3), of hlt ex ct r]
  by (auto simp: prints_only_more [OF report_prints(8)] intro!: and_then_kept)

section \<open>Harmless lines\<close>

definition harmless :: "string \<Rightarrow> bool" where
  "harmless line \<longleftrightarrow>
     command_of line \<notin> {''free'', ''kfree'', ''unmap'', ''sleep''} \<and>
     (command_of line = ''kmalloc'' \<longrightarrow> sint (atoi (args_of line)) \<le> 0x3EFFFFF8) \<and>
     (command_of line = ''map'' \<longrightarrow> 2 ^ 24 \<le> unat (atoi_hex (args_of line)))"

text \<open>The bytes after the terminator are not looked at.\<close>

lemma cmd_word_tail:
  "chr0 z = NUL \<Longrightarrow> cmd_word i (w @ z) = (fst (cmd_word i w), snd (cmd_word i w) @ z)"
proof (induction i w rule: cmd_word.induct)
  case (1 i)
  then show ?case by (cases z) simp_all
qed (auto split: prod.split)

lemma cmd_word_rest: "set (snd (cmd_word i w)) \<subseteq> set w"
  by (induction i w rule: cmd_word.induct) (auto split: prod.splits)

lemma line_tail:
  assumes "chr0 z = NUL" "NUL \<notin> set w"
  shows "command_of (w @ z) = command_of w" "args_of (w @ z) = args_of w @ z" "NUL \<notin> set (args_of w)"
proof -
  show "command_of (w @ z) = command_of w" by (simp add: command_of_def cmd_word_tail [OF assms(1)])
  have n: "NUL \<notin> set (snd (cmd_word 0 w))" using cmd_word_rest assms(2) by blast
  then show "NUL \<notin> set (args_of w)" by (cases "snd (cmd_word 0 w)") (auto simp: args_of_def)
  show "args_of (w @ z) = args_of w @ z"
    using n assms(1) by (cases "snd (cmd_word 0 w)") (auto simp: args_of_def cmd_word_tail [OF assms(1)])
qed

lemma atoi_tail:
  assumes "chr0 z = NUL"
  shows "atoi (w @ z) = atoi w"
proof -
  have "atoi_loop (v @ z) n = atoi_loop v n" for v n
    using assms not_digit(2) by (induction v arbitrary: n) (cases z; simp)+
  then show ?thesis
    using assms by (cases w) (simp_all add: atoi_def, metis append_Nil atoi_loop.simps(1))
qed

lemma atoi_hex_tail:
  assumes "chr0 z = NUL"
  shows "atoi_hex (w @ z) = atoi_hex w"
proof -
  have l: "atoi_hex_loop (v @ z) n = atoi_hex_loop v n" for v n
    using assms by (induction v arbitrary: n) (cases z; simp split: option.split)+
  have k: "skip_spaces (w @ z) = skip_spaces w @ z"
    using assms by (induction w) (cases z; simp)+
  have d: "drop 2 (v @ z) = drop 2 v @ z" if "chr0 (tl v) \<noteq> NUL" for v
    using that by (cases v; cases "tl v") auto
  have c: "chr0 (v @ z) = chr0 v" for v using assms by (cases v) simp_all
  have t: "chr0 (tl (v @ z)) = chr0 (tl v)" if "chr0 v = CHR ''0''" for v
    using that c by (cases v) simp_all
  show ?thesis
  proof (cases "chr0 (skip_spaces w) = CHR ''0'' \<and> (chr0 (tl (skip_spaces w)) = CHR ''x'' \<or> chr0 (tl (skip_spaces w)) = CHR ''X'')")
    case True
    then have "chr0 (tl (skip_spaces w)) \<noteq> NUL" by auto
    with True show ?thesis by (simp add: atoi_hex_def k c t d l del: drop_append)
  next
    case False
    then show ?thesis using t [of "skip_spaces w"] by (auto simp: atoi_hex_def k c l Let_def)
  qed
qed

lemma cstring_split:
  obtains z where "line = cstring line @ z" "chr0 z = NUL" "NUL \<notin> set (cstring line)"
proof
  show "line = cstring line @ dropWhile (\<lambda>c. c \<noteq> NUL) line" by (simp add: cstring_def)
  show "chr0 (dropWhile (\<lambda>c. c \<noteq> NUL) line) = NUL" by (induction line) simp_all
  show "NUL \<notin> set (cstring line)" by (induction line) simp_all
qed

lemma cstring_command:
  "harmless (cstring line) = harmless line" "command_of (cstring line) = command_of line"
proof -
  obtain z where z: "line = cstring line @ z" "chr0 z = NUL" "NUL \<notin> set (cstring line)" by (rule cstring_split)
  note lt = line_tail [OF z(2,3)]
  have "harmless (cstring line @ z) = harmless (cstring line)" "command_of (cstring line @ z) = command_of (cstring line)"
    by (simp_all add: harmless_def lt atoi_tail [OF z(2)] atoi_hex_tail [OF z(2)])
  then show "harmless (cstring line) = harmless line" "command_of (cstring line) = command_of line"
    unfolding z(1) [symmetric] by simp_all
qed

section \<open>Draining the queue\<close>

text \<open>The lines a queue completes, on top of the text \<open>ln\<close> typed before, and the unfinished rest.\<close>

fun read_lines :: "string \<Rightarrow> string \<Rightarrow> string list \<times> string" where
  "read_lines ln [] = ([], ln)"
| "read_lines ln (c # cs) =
     (if c = CHR 0x0A then let (lines, rest) = read_lines [] cs in (ln # lines, rest)
      else read_lines (edit ln c) cs)"

lemma kernel_ok_editor:
  fixes s :: "'a shell_layer_scheme"
  shows "kernel_ok B s \<Longrightarrow> editor_only s t \<Longrightarrow> kernel_ok B t"
  unfolding kernel_ok_def using editor_only_task by (auto simp: editor_only_def)

definition shell_ok :: "nat set \<Rightarrow> 'a shell_layer_scheme \<Rightarrow> bool" where
  "shell_ok B s \<longleftrightarrow> kernel_ok B s \<and> ring_ok s \<and> line_ok s"

lemma shell_fields:
  fixes s t :: "'a shell_layer_scheme"
  assumes "task_layer.more t = task_layer.more s"
  shows "line_buf t = line_buf s" "line_len t = line_len s" "idt t = idt s"
  using assms by (cases s; cases t; simp)+

lemma shell_same:
  fixes s t :: "'a shell_layer_scheme"
  assumes "task_layer.more t = task_layer.more s"
  shows "ring_ok t = ring_ok s" "ring_items t = ring_items s" "line_ok t = line_ok s" "typed t = typed s"
  using upper_fields [OF assms] shell_fields [OF assms]
  by (simp_all add: ring_ok_def ring_items_def ring_count_def line_ok_def typed_def)

text \<open>One line in a sound shell.\<close>

lemma execute_harmless:
  assumes ok: "shell_ok B s" and h: "harmless line"
  shows "\<exists>out. shell_execute hlt ex ct r line s = Some out \<and>
    (\<forall>t. out = Running t \<longrightarrow> shell_ok B t \<and> ring_items t = ring_items s \<and> typed t = typed s) \<and>
    ((\<exists>t. out = Stopped t) \<longrightarrow> command_of line \<in> {''calc'', ''fault'', ''halt''})"
proof -
  have k: "kernel_ok B s" using ok by (simp add: shell_ok_def)
  have c: "command_of line \<notin> {''free'', ''kfree'', ''unmap'', ''sleep''}"
    "command_of line = ''kmalloc'' \<Longrightarrow> sint (atoi (args_of line)) \<le> 0x3EFFFFF8"
    "command_of line = ''map'' \<Longrightarrow> 2 ^ 24 \<le> unat (atoi_hex (args_of line))"
    using h by (simp_all add: harmless_def)
  obtain out where out: "shell_execute hlt ex ct r line s = Some out" "\<forall>t. out = Running t \<longrightarrow> kernel_ok B t"
    "(\<exists>t. out = Stopped t) \<longrightarrow> command_of line \<in> {''calc'', ''fault'', ''halt''}"
    using execute_sound [OF k run_command_ok [OF k command_of_NUL c], of hlt ex ct r] by blast
  have "task_layer.more (final out) = task_layer.more s"
    using shell_execute_kept [OF k c(1,2), of hlt ex ct r] out(1) by (simp add: upper_kept_def)
  from shell_same [OF this] out ok show ?thesis by (auto simp: shell_ok_def)
qed

lemma poll_drains:
  fixes s :: "'a shell_layer_scheme"
  assumes "shell_ok B s" "ring_items s = cs" "list_all harmless (fst (read_lines (typed s) cs))"
  shows "\<exists>out. shell_poll hlt ex ct r s = Some out \<and>
    (\<forall>t. out = Running t \<longrightarrow> shell_ok B t \<and> ring_items t = [] \<and> typed t = snd (read_lines (typed s) cs)) \<and>
    ((\<exists>t. out = Stopped t) \<longrightarrow>
      (\<exists>ln \<in> set (fst (read_lines (typed s) cs)). command_of ln \<in> {''calc'', ''fault'', ''halt''}))"
  using assms
proof (induction cs arbitrary: s)
  case Nil
  then have "ring_ok s" by (simp add: shell_ok_def)
  from rq.pop_empty [OF this Nil.prems(2)] Nil show ?case
    by (simp add: shell_poll_step [of hlt ex ct r s] done_with_def)
next
  case (Cons c cs)
  then have ok: "kernel_ok B s" "ring_ok s" "line_ok s" by (simp_all add: shell_ok_def)
  obtain t where t: "shell_poll hlt ex ct r s =
      and_then (shell_input_char hlt ex ct r c (s\<lparr>ring_tail := t\<rparr>)) (shell_poll hlt ex ct r)"
    "ring_ok (s\<lparr>ring_tail := t\<rparr>)" "ring_items (s\<lparr>ring_tail := t\<rparr>) = cs"
    using poll_pop [OF ok(2) Cons.prems(2), of hlt ex ct r] by blast
  let ?s = "s\<lparr>ring_tail := t\<rparr>"
  have line: "line_ok ?s" "typed ?s = typed s" using ok(3) by (simp_all add: line_ok_def typed_def)
  show ?case
  proof (cases "c = CHR 0x0A")
    case True
    obtain line where ln: "shell_input_char hlt ex ct r c ?s =
        shell_execute hlt ex ct r line (?s\<lparr>con := putchar CHR 0x0A (con ?s), line_buf := line, line_len := 0\<rparr>)"
      "length line = 128" "cstring line = typed s"
      using input_newline [OF line(1), of hlt ex ct r] line(2) True by auto
    let ?u = "?s\<lparr>con := putchar CHR 0x0A (con ?s), line_buf := line, line_len := 0\<rparr>"
    have "editor_only s ?u" unfolding editor_only_def
      by (intro exI [of _ "putchar CHR 0x0A (con s)"] exI [of _ line] exI [of _ 0] exI [of _ t]) (simp add: vga_inv_putchar)
    then have u: "shell_ok B ?u" "ring_items ?u = cs" "typed ?u = []"
      using kernel_ok_editor [OF ok(1)] t(2,3) ln(2) by (simp_all add: shell_ok_def line_ok_def typed_def)
    have hs: "harmless line" "list_all harmless (fst (read_lines [] cs))"
      using Cons.prems(3) True cstring_command(1) [of line] ln(3) by (auto split: prod.splits)
    obtain out where out: "shell_execute hlt ex ct r line ?u = Some out"
      "\<forall>t. out = Running t \<longrightarrow> shell_ok B t \<and> ring_items t = cs \<and> typed t = []"
      "(\<exists>t. out = Stopped t) \<longrightarrow> command_of line \<in> {''calc'', ''fault'', ''halt''}"
      using execute_harmless [OF u(1) hs(1), of hlt ex ct r] u(2,3) by auto
    have poll: "shell_poll hlt ex ct r s = and_then (Some out) (shell_poll hlt ex ct r)" using t(1) ln(1) out(1) by simp
    show ?thesis
    proof (cases out)
      case (Running v)
      with out(2) have v: "shell_ok B v" "ring_items v = cs" "typed v = []" by simp_all
      from Cons.IH [OF v(1,2)] v(3) hs(2) poll Running True show ?thesis
        by (auto simp: and_then_def split: prod.split)
    next
      case (Stopped v)
      then have "shell_poll hlt ex ct r s = Some (Stopped v)" using poll by (simp add: and_then_def)
      with out(3) Stopped True ln(3) cstring_command(2) [of line] show ?thesis by (auto split: prod.split)
    qed
  next
    case False
    from input_char_edits [OF line(1) False, of hlt ex ct r] line(2) obtain x buf n where
      e: "shell_input_char hlt ex ct r c ?s = done_with (?s\<lparr>line_buf := buf, line_len := n, con := x\<rparr>)"
        "vga_inv (con s) \<longrightarrow> vga_inv x" "length buf = 128" "0 \<le> n" "n \<le> 127" "take (nat n) buf = edit (typed s) c"
      by auto
    let ?v = "?s\<lparr>line_buf := buf, line_len := n, con := x\<rparr>"
    have "editor_only s ?v" unfolding editor_only_def
      using e(2) by (intro exI [of _ x] exI [of _ buf] exI [of _ n] exI [of _ t]) simp
    moreover have "typed ?v = edit (typed s) c" "line_ok ?v"
      using e edit_printable ok(3) by (simp_all add: typed_def line_ok_def)
    ultimately have v: "shell_ok B ?v" "ring_items ?v = cs" "typed ?v = edit (typed s) c"
      using kernel_ok_editor [OF ok(1)] t(2,3) by (simp_all add: shell_ok_def)
    from Cons.IH [OF v(1,2)] v(3) Cons.prems(3) False t(1) e(1) show ?thesis by simp
  qed
qed

end
