(* ===== verification/Whole_System.thy ===== *)
theory Whole_System
  imports Shell_Input
begin

text \<open>
  The running machine. \<open>machine_step\<close> collects what happens between two moments of a run: a hardware interrupt, a
  breakpoint, a round of the shell in task 0, and the code of the tasks (\<open>kstep\<close> without its ticks, which are interrupts here).
  \<open>shell_ok\<close> is kept by every step, and the property at the end follows it from the entry point of the
  image.
\<close>

section \<open>Steps of the tasks\<close>

lemma kstep_upper:
  assumes "kstep B ex False s s'" "task_inv B bs s"
  shows "con s' = con s \<and> task_layer.more s' = task_layer.more s"
  using assms(1)
proof cases
  case Yield
  then show ?thesis by (simp add: task_yield_def switch_to_more)
next
  case (Create nm en r)
  then show ?thesis using task_create_con [OF assms(2)] task_create_more [OF assms(2)] by blast
next
  case (Malloc sz p)
  then obtain t where "kmalloc sz s = Some (p, t)" "kept bs s t" using kmalloc_task [OF assms(2) Malloc(1,2)] by auto
  with Malloc(3) show ?thesis by (auto simp: kept_def intro: layer_more(1))
next
  case (Free L p n ok)
  have h: "heap_inv s bs" using assms(2) by (simp add: task_inv_def)
  then have "heap_rep s (live bs)" by (auto simp: heap_rep_def)
  then have "live bs p = Some n" using heap_rep_unique Free(1,2) by metis
  from kfree_spec [OF h this] obtain t where "kfree p s = Some (True, t)" "kept (merge (free_at (p - HDR) bs)) s t" by blast
  with Free(4) show ?thesis by (auto simp: kept_def intro: layer_more(1))
qed (auto simp: task_exit_def task_kill_def counter_task_def scheduler_enable_def on_sched_def Let_def)

section \<open>Steps of the machine\<close>

inductive machine_step ::
  "nat set \<Rightarrow> ('a shell_layer_scheme \<Rightarrow> 'a shell_layer_scheme option) \<Rightarrow> u32 \<Rightarrow> u32 \<Rightarrow>
     'a shell_layer_scheme \<Rightarrow> 'a shell_layer_scheme \<Rightarrow> bool" for B hlt ex ct where
  Interrupt: "room B s \<Longrightarrow> (int_no r = 36 \<longrightarrow> rx_script (inputs (con s)) (in_count (con s)) bytes) \<Longrightarrow>
    irq_handler r s = Some s' \<Longrightarrow> machine_step B hlt ex ct s s'"
| Breakpoint: "isr_handler cr2 r s = Running s' \<Longrightarrow> machine_step B hlt ex ct s s'"
| Shell: "current (sched s) = 0 \<Longrightarrow> list_all harmless (fst (read_lines (typed s) (ring_items s))) \<Longrightarrow>
    shell_poll hlt ex ct r s = Some (Running s') \<Longrightarrow> machine_step B hlt ex ct s s'"
| Task: "kstep B ex False s s' \<Longrightarrow> machine_step B hlt ex ct s s'"

lemma kernel_ok_step:
  assumes "kernel_ok B s" "kstep B ex False s s'"
  shows "kernel_ok B s'" "task_layer.more s' = task_layer.more s"
proof -
  obtain bs where inv: "task_inv B bs s" and v: "vga_inv (con s)" using assms(1) by (auto simp: kernel_ok_def)
  note up = kstep_upper [OF assms(2) inv]
  from kstep_inv [OF assms(2) inv] obtain bs' where "task_inv B bs' s'" by blast
  with up v show "kernel_ok B s'" by (auto simp: kernel_ok_def)
  show "task_layer.more s' = task_layer.more s" using up by blast
qed

lemma breakpoint_prints: "isr_handler cr2 r s = Running s' \<Longrightarrow> prints_only s s'"
  by (auto simp: isr_handler_def Let_def prints_only_kprint split: if_splits)

lemma interrupt_ok:
  fixes s :: "'a shell_layer_scheme"
  assumes "shell_ok B s" "room B s" "int_no r = 36 \<longrightarrow> rx_script (inputs (con s)) (in_count (con s)) bytes"
  shows "\<exists>t. irq_handler r s = Some t \<and> shell_ok B t"
proof -
  obtain bs where inv: "task_inv B bs s" and v: "vga_inv (con s)" and l: "ring_ok s" "line_ok s"
    using assms(1) by (auto simp: shell_ok_def kernel_ok_def)
  from irq_handler_spec [OF inv assms(2) l(1) assms(3)] obtain t bs' where
    t: "irq_handler r s = Some t" "task_inv B bs' t" "ring_ok t" "vga_inv (con t)" "input_layer.more t = input_layer.more s"
    using v by blast
  from t(5) have "line_buf t = line_buf s" "line_len t = line_len s" by (cases t; cases s; simp)+
  with l(2) have "line_ok t" by (simp add: line_ok_def typed_def)
  with t show ?thesis by (auto simp: shell_ok_def kernel_ok_def)
qed

lemma machine_step_ok:
  fixes s :: "'a shell_layer_scheme"
  assumes "machine_step B hlt ex ct s s'" "shell_ok B s"
  shows "shell_ok B s'"
  using assms(1)
proof cases
  case (Interrupt r bytes)
  from interrupt_ok [OF assms(2) Interrupt(1,2)] Interrupt(3) show ?thesis by simp
next
  case (Breakpoint cr2 r)
  note p = breakpoint_prints [OF Breakpoint]
  with shell_same [OF prints_only_more [OF p]] kernel_ok_prints [OF _ p] assms(2) show ?thesis
    by (simp add: shell_ok_def)
next
  case (Shell r)
  from poll_drains [OF assms(2) refl Shell(2), of hlt ex ct r] Shell(3) show ?thesis by auto
next
  case Task
  have "kernel_ok B s" using assms(2) by (simp add: shell_ok_def)
  note k = kernel_ok_step [OF this Task]
  with shell_same [OF k(2)] assms(2) show ?thesis by (simp add: shell_ok_def)
qed

lemma machine_steps_ok:
  "(machine_step B hlt ex ct)\<^sup>*\<^sup>* s s' \<Longrightarrow> shell_ok B s \<Longrightarrow> shell_ok B s'"
  by (induction rule: rtranclp_induct) (blast dest: machine_step_ok)+

section \<open>From the entry point\<close>

definition boot_stack :: "u32 \<Rightarrow> nat set" where
  "boot_stack stack_top = {unat stack_top - 16384 ..< unat stack_top}"

text \<open>What the loader has to leave, as \<open>kernel_main\<close> finds it.\<close>

definition bootable :: "u32 \<Rightarrow> u32 \<Rightarrow> nat set \<Rightarrow> 'a shell_layer_scheme \<Rightarrow> bool" where
  "bootable kernel_end mbi B s \<longleftrightarrow>
     statics_zero s \<and> mbi_flags (mem s) mbi AND push_bit 6 1 \<noteq> 0 \<and> B \<subseteq> {..<0xC0000000} \<and>
     (\<exists>es. entry_list (mem s) (mbi_mmap_addr (mem s) mbi) (mbi_mmap_addr (mem s) mbi + mbi_mmap_length (mem s) mbi) es \<and>
        22 \<le> card {f \<in> free_frames (pmm_init kernel_end (add_entries es no_map)).
           f * 4096 < unat (identity_limit (highest (add_entries es no_map)))} \<and>
        (\<forall>x. unat x \<in> B \<longrightarrow> frame_no x \<notin> free_frames (pmm_init kernel_end (add_entries es no_map))))"

lemma start_arguments:
  fixes s :: "'a shell_layer_scheme"
  assumes "12 \<le> unat stack_top"
  shows "start stack_top ret kernel_end idt_addr isr_stub irq_stub s =
      kernel_main kernel_end idt_addr isr_stub irq_stub (eax (cpu s)) (ebx (cpu s)) (start_stack stack_top ret s)"
    "cpu_esp (cpu (start_stack stack_top ret s)) = stack_top - 12"
proof -
  obtain sp m where f: "fold push [ebx (cpu s), eax (cpu s), ret] (stack_top, mem s) = (sp, m)" by fastforce
  then have sp: "sp = stack_top - 12" by auto
  have "ld32 m (sp + of_nat (4 * k)) = rev [ebx (cpu s), eax (cpu s), ret] ! k" if "k < 3" for k
    using push_spec(3) [OF f] assms that by simp
  from this [of 1] this [of 2] have "ld32 m (sp + 4) = eax (cpu s)" "ld32 m (sp + 8) = ebx (cpu s)" by simp_all
  moreover have "start_stack stack_top ret s = s\<lparr>mem := m, cpu := (cpu s)\<lparr>cpu_esp := sp\<rparr>\<rparr>"
    unfolding start_stack_def Let_def f by simp
  ultimately show "start stack_top ret kernel_end idt_addr isr_stub irq_stub s =
      kernel_main kernel_end idt_addr isr_stub irq_stub (eax (cpu s)) (ebx (cpu s)) (start_stack stack_top ret s)"
    "cpu_esp (cpu (start_stack stack_top ret s)) = stack_top - 12"
    by (simp_all add: start_def Let_def sp add.assoc)
qed

lemma start_sound:
  fixes s :: "'a shell_layer_scheme"
  assumes "eax (cpu s) = MULTIBOOT_MAGIC" and top: "16384 \<le> unat stack_top"
    and b: "bootable kernel_end (ebx (cpu s)) (boot_stack stack_top) (start_stack stack_top ret s)"
  shows "\<exists>s0. start stack_top ret kernel_end idt_addr isr_stub irq_stub s = done_with s0 \<and>
    shell_ok (boot_stack stack_top) s0 \<and> room (boot_stack stack_top) s0"
proof -
  have "12 \<le> unat stack_top" using top by simp
  note sa = start_arguments [OF this]
  obtain es where es: "entry_list (mem (start_stack stack_top ret s)) (mbi_mmap_addr (mem (start_stack stack_top ret s)) (ebx (cpu s)))
      (mbi_mmap_addr (mem (start_stack stack_top ret s)) (ebx (cpu s)) + mbi_mmap_length (mem (start_stack stack_top ret s)) (ebx (cpu s))) es"
    "22 \<le> card {f \<in> free_frames (pmm_init kernel_end (add_entries es no_map)).
           f * 4096 < unat (identity_limit (highest (add_entries es no_map)))}"
    "\<forall>x. unat x \<in> boot_stack stack_top \<longrightarrow> frame_no x \<notin> free_frames (pmm_init kernel_end (add_entries es no_map))"
    and z: "statics_zero (start_stack stack_top ret s)"
      "mbi_flags (mem (start_stack stack_top ret s)) (ebx (cpu s)) AND push_bit 6 1 \<noteq> 0"
      "boot_stack stack_top \<subseteq> {..<0xC0000000}"
    using b unfolding bootable_def by blast
  obtain s0 where s0: "kernel_main kernel_end idt_addr isr_stub irq_stub MULTIBOOT_MAGIC (ebx (cpu s)) (start_stack stack_top ret s) = done_with s0"
    "task_inv (boot_stack stack_top) [(HEAP_START, 0xFFF0, True)] s0" "ring_ok s0" "line_ok s0" "vga_inv (con s0)"
    "current (sched s0) = 0" "cpu s0 = (cpu (start_stack stack_top ret s))\<lparr>eflags := eflags (cpu (start_stack stack_top ret s)) OR 0x200\<rparr>"
    using conjunct1 [OF kernel_main_sound [OF z(1,2) es(1,2) z(3) es(3), of idt_addr isr_stub irq_stub 0]] by blast
  have "unat (stack_top - 12) = unat stack_top - 12" using top by (simp add: unat_sub word_le_nat_alt)
  moreover have "unat stack_top < 2 ^ 32" by (rule unat_u32_less)
  ultimately have "room (boot_stack stack_top) s0"
    using top by (simp add: room_def s0(6,7) sa(2) stack_bytes_def boot_stack_def Let_def) auto
  moreover have "shell_ok (boot_stack stack_top) s0" using s0(2-5) by (auto simp: shell_ok_def kernel_ok_def)
  moreover have "start stack_top ret kernel_end idt_addr isr_stub irq_stub s = done_with s0"
    using s0(1) by (simp add: sa(1) assms(1))
  ultimately show ?thesis by blast
qed

text \<open>
  C1: the running machine. Let the loader enter the image at \<^verbatim>\<open>_start\<close> with its magic number in \<^verbatim>\<open>eax\<close>, and \<^verbatim>\<open>ebx\<close> pointing to a
  well-formed memory map with enough memory (\<open>bootable\<close>, on the memory as \<open>kernel_main\<close> finds it). Then the kernel comes up with room on
  its stack for the first interrupt, and in every state \<open>t\<close> that any sequence of interrupts, breakpoints, rounds of the shell
  on harmless lines and steps of the tasks leads to: the invariants of heap, paging, frames, tasks, screen, input
  queue and command line hold; every interrupt returns when it finds room on the stack; and the shell works off everything
  typed so far, with exactly the unfinished line left, unless one of the commands \<open>calc\<close>, \<open>fault\<close> and \<open>halt\<close> among the lines stops the machine.
\<close>

theorem machine_stays_sound:
  fixes s :: "'a shell_layer_scheme"
  assumes "eax (cpu s) = MULTIBOOT_MAGIC" and "16384 \<le> unat stack_top"
    and "bootable kernel_end (ebx (cpu s)) (boot_stack stack_top) (start_stack stack_top ret s)"
  shows "\<exists>s0. start stack_top ret kernel_end idt_addr isr_stub irq_stub s = done_with s0 \<and> room (boot_stack stack_top) s0 \<and>
    (\<forall>t. (machine_step (boot_stack stack_top) hlt ex ct)\<^sup>*\<^sup>* s0 t \<longrightarrow>
      shell_ok (boot_stack stack_top) t \<and>
      (\<forall>r bytes. room (boot_stack stack_top) t \<and>
          (int_no r = 36 \<longrightarrow> rx_script (inputs (con t)) (in_count (con t)) bytes) \<longrightarrow> irq_handler r t \<noteq> None) \<and>
      (\<forall>r lines rest. read_lines (typed t) (ring_items t) = (lines, rest) \<and> list_all harmless lines \<longrightarrow>
        (\<exists>out. shell_poll hlt ex ct r t = Some out \<and>
          (\<forall>u. out = Running u \<longrightarrow> shell_ok (boot_stack stack_top) u \<and> ring_items u = [] \<and> typed u = rest) \<and>
          ((\<exists>u. out = Stopped u) \<longrightarrow> (\<exists>ln \<in> set lines. command_of ln \<in> {''calc'', ''fault'', ''halt''})))))"
proof -
  obtain s0 where s0: "start stack_top ret kernel_end idt_addr isr_stub irq_stub s = done_with s0"
    "shell_ok (boot_stack stack_top) s0" "room (boot_stack stack_top) s0"
    using start_sound [OF assms, of idt_addr isr_stub irq_stub] by blast
  have "shell_ok (boot_stack stack_top) t" if "(machine_step (boot_stack stack_top) hlt ex ct)\<^sup>*\<^sup>* s0 t" for t
    using machine_steps_ok [OF that s0(2)] .
  then show ?thesis
    using s0(1,3) interrupt_ok [of "boot_stack stack_top"] poll_drains [of "boot_stack stack_top" _ _ hlt ex ct, OF _ refl]
    by (intro exI [of _ s0]) fastforce
qed

text \<open>The machine of \<open>demo_reset\<close> with the loader's registers, a boot stack below 0x10C000, and one timer interrupt.\<close>

definition demo_power_on :: shell_layer where
  "demo_power_on = demo_reset\<lparr>cpu := demo_cpu\<lparr>eax := MULTIBOOT_MAGIC, ebx := 0x1000\<rparr>\<rparr>"

lemma demo_bootable: "bootable 0x200000 0x1000 (boot_stack 0x10C000) (start_stack 0x10C000 0x101000 demo_power_on)"
proof -
  let ?s = "start_stack 0x10C000 0x101000 demo_power_on"
  let ?es = "[(0, 0x9F000, 1), (0x100000, 0xF00000, 1)] :: (u32 \<times> u32 \<times> u32) list"
  have m: "mem ?s = st32 (st32 (st32 demo_mbi 0x10BFFC 0x1000) 0x10BFF8 MULTIBOOT_MAGIC) 0x10BFF4 0x101000"
    by (simp add: start_stack_def demo_power_on_def demo_reset_def)
  have z: "statics_zero ?s"
    by (simp add: statics_zero_def start_stack_def demo_power_on_def demo_reset_def demo_off_def demo_con_def)
  have l: "mbi_flags (mem ?s) 0x1000 = 0x40" "mbi_mmap_addr (mem ?s) 0x1000 = 0x2000" "mbi_mmap_length (mem ?s) 0x1000 = 48"
    "entry_list (mem ?s) 0x2000 0x2030 ?es"
    unfolding m by (simp_all add: demo_mbi_def Let_def mbi_flags_def mbi_mmap_addr_def mbi_mmap_length_def entry_size_def
      entry_addr_def entry_len_def entry_type_def mem_simps)
  have hi: "identity_limit (highest (add_entries ?es no_map)) = 0x1000000"
    by (simp add: add_entry_def no_map_def identity_limit_def IDENTITY_BYTES_def MAX_REGIONS_def)
  have "{f \<in> {513..<4096}. f * 4096 < (0x1000000 :: nat)} = {513..<4096}" by auto
  then have n: "22 \<le> card {f \<in> free_frames (pmm_init 0x200000 (add_entries ?es no_map)).
      f * 4096 < unat (identity_limit (highest (add_entries ?es no_map)))}"
    unfolding demo_boot_frames hi by simp
  have B: "boot_stack 0x10C000 \<subseteq> {..<0xC0000000}"
    "\<forall>x. unat x \<in> boot_stack 0x10C000 \<longrightarrow> frame_no x \<notin> free_frames (pmm_init 0x200000 (add_entries ?es no_map))"
    unfolding demo_boot_frames by (auto simp: boot_stack_def frame_no_def)
  show ?thesis
    unfolding bootable_def l(1-3) using z B n l(4) by (intro conjI exI [of _ ?es]) simp_all
qed

theorem machine_stays_sound_witness:
  "\<exists>s0 t. start 0x10C000 0x101000 0x200000 0x180000 (\<lambda>n. 0x110000 + of_nat n) (\<lambda>n. 0x120000 + of_nat n) demo_power_on = done_with s0 \<and>
     irq_handler (demo_regs 32) s0 = Some t \<and> machine_step (boot_stack 0x10C000) (\<lambda>_. None) 0 0 s0 t \<and>
     shell_ok (boot_stack 0x10C000) t"
proof -
  let ?step = "machine_step (boot_stack 0x10C000) (\<lambda>_. None) 0 0 :: shell_layer \<Rightarrow> shell_layer \<Rightarrow> bool"
  have c: "eax (cpu demo_power_on) = MULTIBOOT_MAGIC" "ebx (cpu demo_power_on) = 0x1000" by (simp_all add: demo_power_on_def)
  have top: "16384 \<le> unat (0x10C000 :: u32)" by simp
  obtain s0 where s0: "start 0x10C000 0x101000 0x200000 0x180000 (\<lambda>n. 0x110000 + of_nat n) (\<lambda>n. 0x120000 + of_nat n) demo_power_on = done_with s0"
    "room (boot_stack 0x10C000) s0"
    and inv: "\<And>t. ?step\<^sup>*\<^sup>* s0 t \<Longrightarrow> shell_ok (boot_stack 0x10C000) t \<and>
      (\<forall>r bytes. room (boot_stack 0x10C000) t \<and>
          (int_no r = 36 \<longrightarrow> rx_script (inputs (con t)) (in_count (con t)) bytes) \<longrightarrow> irq_handler r t \<noteq> None)"
    using machine_stays_sound [OF c(1) top, unfolded c(2), OF demo_bootable, of "0x180000" "\<lambda>n. 0x110000 + of_nat n"
      "\<lambda>n. 0x120000 + of_nat n" "\<lambda>_. None" 0 0] by blast
  have r: "int_no (demo_regs 32) = 32" by (simp add: demo_regs_def)
  then obtain t where t: "irq_handler (demo_regs 32) s0 = Some t"
    using inv [OF rtranclp.rtrancl_refl] s0(2) by fastforce
  have step: "?step s0 t" by (rule machine_step.Interrupt [OF s0(2) _ t]) (simp add: r)
  then have "?step\<^sup>*\<^sup>* s0 t" by (rule r_into_rtranclp [of ?step])
  with inv s0(1) t step show ?thesis by blast
qed

end
