(* ===== verification/Spec2Isabelle.thy ===== *)
theory Spec2Isabelle
  imports Console_Claims Device_Claims Stubs Whole_System
begin

text \<open>
  A verification development for JarvisOS, a 32-bit x86 kernel in C: boot from a Multiboot loader, a
  physical frame allocator, paging, a kernel heap, a preemptive round-robin scheduler, drivers for
  VGA text, UART, keyboard and timer, and a command shell. Every C file of the kernel is modelled,
  together with the entry point in \<^verbatim>\<open>boot.asm\<close>, \<^verbatim>\<open>switch.asm\<close>, \<^verbatim>\<open>isr.asm\<close> and \<^verbatim>\<open>idt_load.asm\<close>; the definitions keep the names of the code.

  How the parts work together. \<^verbatim>\<open>kernel_main\<close> reads the memory map (\<^verbatim>\<open>memory.c\<close>) and starts the frame allocator on it
  (\<^verbatim>\<open>pmm.c\<close>); paging (\<^verbatim>\<open>paging.c\<close>) takes frames for its tables, the heap (\<^verbatim>\<open>heap.c\<close>) takes frames and maps them behind its
  blocks, tasks (\<^verbatim>\<open>task.c\<close>) have their stacks on the heap. Interrupts enter through \<^verbatim>\<open>isr.c\<close>: the timer
  (\<^verbatim>\<open>timer.c\<close>) drives the scheduler, which switches stacks in \<^verbatim>\<open>switch.asm\<close>; keyboard (\<^verbatim>\<open>keyboard.c\<close>) and UART
  (\<^verbatim>\<open>serial.c\<close>) put characters into the ring buffer of the shell (\<^verbatim>\<open>shell.c\<close>), whose polling loop in task 0 edits lines and
  runs commands that call all other parts. Everything printed goes to the screen and the UART (\<^verbatim>\<open>vga.c\<close>).

  The state is one record that grows layer by layer, each theory extending the record of the one below:
  \<open>machine\<close> (the byte memory \<open>mem\<close> and the console \<open>con\<close>, itself \<open>ports\<close>, \<open>serial\<close>, \<open>vga_state\<close>),
  \<open>mem_layer\<close>, \<open>pmm_layer\<close>, \<open>paging_layer\<close>, \<open>heap_layer\<close>, \<open>task_layer\<close>, \<open>timer_layer\<close>, \<open>input_layer\<close>,
  \<open>isr_layer\<close>, \<open>shell_layer\<close>. An operation is a function of the layers it uses and is polymorphic in those above.
  The C statics are fields; what the code keeps in memory (page tables, block headers, saved contexts, the
  Multiboot structures) is read and written in \<open>mem\<close> at the same offsets. C integers are 32-bit
  words, signed where the code has \<^verbatim>\<open>int\<close>; the cursor of the console is a number whose arithmetic wraps at 32 bits, and
  \<open>line_len\<close> an integer that can become negative. An access beyond the 2000 cells of the screen is not ignored
  but recorded in \<open>stray\<close>, which the invariant of the console requires to be empty.

  The theories:
  \<^item> \<open>Prelude\<close>, \<open>Util\<close>: byte memory with 32-bit accesses; \<^verbatim>\<open>util.c\<close>. The collection \<open>mem_simps\<close>
    carries the memory reasoning everywhere else.
  \<^item> \<open>Serial\<close>, \<open>Vga\<close>, \<open>Console_Claims\<close>: \<^verbatim>\<open>io.h\<close>, \<^verbatim>\<open>serial.c\<close> without the interrupt handler, \<^verbatim>\<open>vga.c\<close>. \<open>vga_inv\<close> keeps
    every access in the cell buffer; numbers printed are parsed back by \<open>atoi\<close> and \<open>atoi_hex\<close>.
  \<^item> \<open>Memmap\<close>, \<open>Pmm\<close>: \<^verbatim>\<open>memory.c\<close>, \<^verbatim>\<open>pmm.c\<close>. A map is read as the list of its 64-bit entries (\<open>map_entries\<close>), of which the code
    keeps the low 32 bits. The bitmap refines a finite set of free frames; the
    locale \<open>frame_allocator\<close> states the contract its clients use and is interpreted by \<open>fa\<close>.
  \<^item> \<open>Paging\<close>, \<open>Paging_Init\<close>, \<open>Mmu\<close>: \<^verbatim>\<open>paging.c\<close>. \<open>pte\<close> is the mapping the tables in memory describe, \<open>mmu_lookup\<close> what the processor
    sees through its translation cache; \<open>paging_inv\<close> and \<open>tlb_coherent\<close> hold between operations; locale
    \<open>page_mapper\<close>, interpreted by \<open>pm\<close>. \<open>pool\<close> is the set of frames the paging code may ever write.
  \<^item> \<open>Heap\<close>, \<open>Heap_List\<close>, \<open>Heap_Refine\<close>, \<open>Heap_Ops\<close>, \<open>Heap_Free\<close>, \<open>Heap_Props\<close>: \<^verbatim>\<open>heap.c\<close>. The linked headers in memory
    refine a list of blocks (\<open>chain\<close>, \<open>tiled\<close>, \<open>coalesced\<close>); the pure list algorithms are verified first, then the code against
    them, then the contract of a heap client (a locale, interpreted by \<open>ha\<close>).
  \<^item> \<open>Task\<close>, \<open>Task_Stack\<close>, \<open>Task_Inv\<close>, \<open>Task_Ops\<close>, \<open>Task_Steps\<close>, \<open>Task_Props\<close>, \<open>Task_Runs\<close>, \<open>Task_Claims\<close>: \<^verbatim>\<open>task.c\<close>,
    \<^verbatim>\<open>switch.asm\<close>. \<open>task_inv\<close> says that stacks are disjoint live heap blocks and saved contexts lie in them;
    kernel steps are an inductive relation, and the properties are about all its runs.
  \<^item> \<open>Timer\<close>, \<open>Input\<close>, \<open>Isr\<close>, \<open>Stubs\<close>, \<open>Frames\<close>, \<open>Device_Claims\<close>: \<^verbatim>\<open>timer.c\<close>, \<^verbatim>\<open>keyboard.c\<close>, the input ring, the UART's interrupt,
    \<^verbatim>\<open>idt.c\<close>, \<^verbatim>\<open>isr.c\<close>, \<^verbatim>\<open>isr.asm\<close>. The stubs build the structure the handlers read and restore every register. The ring refines a bounded queue (locale \<open>bounded_queue\<close>, interpreted by \<open>rq\<close>).
  \<^item> \<open>Shell\<close>, \<open>Shell_Props\<close>, \<open>Shell_Claims\<close>, \<open>Command_Claims\<close>: \<^verbatim>\<open>shell.c\<close>, its commands, dispatch and line editor.
  \<^item> \<open>Kernel\<close>, \<open>Boot\<close>: \<^verbatim>\<open>kernel.c\<close> and \<^verbatim>\<open>_start\<close> of \<^verbatim>\<open>boot.asm\<close>. \<open>kernel_main_boots\<close> establishes the invariants the other theories assume.
  \<^item> \<open>Shell_Safety\<close>, \<open>Shell_Release\<close>: \<open>kernel_ok\<close>, the invariant of all layers at once, and that every command line keeps it; for
    the commands that give memory back, as long as the memory is not in use (\<open>permitted\<close>).
  \<^item> \<open>Shell_Input\<close>, \<open>Whole_System\<close>: a whole queue of input is worked off line by line; \<open>machine_step\<close> puts interrupts, shell
    and tasks together into one step relation, and \<open>machine_stays_sound\<close> is the invariant of every run from the entry point.

  Termination. Loops along pointers in memory (block lists, the memory map) and loops that wait
  (\<open>sleep_loop\<close>, \<open>serial_handler\<close>, \<open>shell_poll\<close>) are partial functions into \<open>option\<close>; \<open>None\<close> means that the code does not
  return, and the properties show \<open>Some\<close> from the invariants. No fuel is used. All other
  loops are structural or have a measure (\<open>tx_wait\<close>: at most 100001 polls). Bounds in statements are the
  ones the code needs: 22 low frames to boot, 127 characters on a line, requests of at most
  0x3EFFFFF8 bytes for \<open>kmalloc\<close> (above that the addition in \<open>grow_mapping\<close> wraps), map entries that fit in 32 bits for exact totals.

  What comes from outside is a parameter: port inputs are an arbitrary stream \<open>inputs\<close> indexed by the number of reads and
  the port; \<open>hlt\<close> is what happens until the processor wakes; the linker's addresses (\<open>kernel_end\<close>, the table, the stubs,
  \<open>task_exit\<close>, \<open>counter_task\<close>) and the bytes \<open>B\<close> of the boot stack are arguments.

  Not modelled, and why.
  \<^item> Two mappings of one frame: \<open>mem\<close> is indexed by the address the code uses, so a frame mapped above the
    identity region has its own cells there. The code never accesses such a frame through both addresses: heap pages are
    \<open>backed\<close> by frames of their own that are neither free nor tables, and the paging code writes frames of \<open>pool\<close> only.
  \<^item> The frame bitmap is a list beside \<open>mem\<close>; \<open>pmm_init\<close> reserves the frames it lies in, so no
    other part is given them.
  \<^item> An operation is atomic: the models of C functions are not interrupted half way. The step relations
    interleave whole operations.
  \<^item> The Multiboot header in \<^verbatim>\<open>boot.asm\<close>, \<^verbatim>\<open>linker.ld\<close>, the build files, the
    Python programs on the host and the documentation: no C code of the kernel. The handlers take the structure the entry stubs
    push as an argument \<open>r\<close>; \<open>Stubs\<close> says what it holds.
\<close>

end
